(* ===== verification/Prelude.thy ===== *)
theory Prelude
  imports Main "HOL-Library.Word"
begin

text \<open>
  Shared vocabulary of the development: the machine types of the C++ code, the searches of
  \<open>std::string\<close> (\<open>find\<close> of a substring, of a character, \<open>find_first_of\<close>), subtraction of
  \<open>size_t\<close> values, and the generic contract of an incremental stream splitter.  The RTSP
  request splitter of \<open>Session::feed\<close> is an instance of that contract, and everything that
  says "the result does not depend on how the bytes were cut into reads" is proved once here.
\<close>

unbundle bit_operations_syntax

section \<open>Types\<close>

type_synonym byte = "8 word"
type_synonym bytes = "byte list"

text \<open>
  \<open>search_simps\<close> collects the facts about searching, \<open>wire_simps\<close> those that compute the bytes
  of a packet, \<open>state_simps\<close> the frame facts (which field an operation leaves alone).
\<close>

named_theorems search_simps
named_theorems wire_simps
named_theorems state_simps

section \<open>Arithmetic of size\_t\<close>

text \<open>
  Sizes are \<open>nat\<close>; the one place where a \<open>size_t\<close> can wrap is a subtraction, written out.
\<close>

definition size_sub :: "nat \<Rightarrow> nat \<Rightarrow> nat" where
  "size_sub a b = (a + 2 ^ 64 - b) mod 2 ^ 64"

lemma size_sub_no_wrap: "b \<le> a \<Longrightarrow> a < 2 ^ 64 \<Longrightarrow> size_sub a b = a - b"
proof -
  assume a: "b \<le> a" "a < 2 ^ 64"
  then have "a + 2 ^ 64 - b = (a - b) + 2 ^ 64" by simp
  then have "size_sub a b = (a - b) mod 2 ^ 64" by (simp only: size_sub_def mod_add_self2)
  also have "\<dots> = a - b" using a by (intro mod_less) linarith
  finally show ?thesis .
qed

lemma size_sub_wrap: "a < b \<Longrightarrow> b \<le> 2 ^ 64 \<Longrightarrow> size_sub a b = a + 2 ^ 64 - b"
  unfolding size_sub_def by (rule mod_less) linarith

lemma size_sub_eq_0_iff: "a < 2 ^ 64 \<Longrightarrow> b < 2 ^ 64 \<Longrightarrow> size_sub a b = 0 \<longleftrightarrow> a = b"
  by (cases "b \<le> a") (auto simp: size_sub_no_wrap size_sub_wrap)

section \<open>Searching\<close>

text \<open>\<open>std::string::find\<close> of a substring: the first position where the needle occurs.\<close>

primrec find_sub :: "'a list \<Rightarrow> 'a list \<Rightarrow> nat option" where
  "find_sub p [] = (if p = [] then Some 0 else None)"
| "find_sub p (x # xs) =
     (if take (length p) (x # xs) = p then Some 0 else map_option Suc (find_sub p xs))"

text \<open>\<open>find(char)\<close> and \<open>find_first_of(chars)\<close>: the first position satisfying a test.\<close>

primrec find_idx :: "('a \<Rightarrow> bool) \<Rightarrow> 'a list \<Rightarrow> nat option" where
  "find_idx P [] = None"
| "find_idx P (x # xs) = (if P x then Some 0 else map_option Suc (find_idx P xs))"

lemma find_sub_Some_at:
  "find_sub p s = Some n \<Longrightarrow> take (length p) (drop n s) = p \<and> n + length p \<le> length s"
proof (induction s arbitrary: n)
  case Nil
  then show ?case by (auto split: if_splits)
next
  case (Cons x xs)
  show ?case
  proof (cases "take (length p) (x # xs) = p")
    case True
    then have "length p \<le> length (x # xs)" by (metis length_take min.absorb_iff2 nat_le_linear)
    with True Cons.prems show ?thesis by auto
  next
    case False
    with Cons.prems obtain m where "find_sub p xs = Some m" and "n = Suc m" by auto
    with Cons.IH [of m] show ?thesis by auto
  qed
qed

lemma find_sub_Some_least:
  "find_sub p s = Some n \<Longrightarrow> k < n \<Longrightarrow> take (length p) (drop k s) \<noteq> p"
proof (induction s arbitrary: n k)
  case Nil
  then show ?case by (auto split: if_splits)
next
  case (Cons x xs)
  from Cons.prems have no: "take (length p) (x # xs) \<noteq> p" by auto
  with Cons.prems(1) obtain m where m: "find_sub p xs = Some m" "n = Suc m" by auto
  show ?case
  proof (cases k)
    case 0
    with no show ?thesis by simp
  next
    case (Suc j)
    with Cons.prems(2) m(2) have "j < m" by simp
    with Cons.IH [OF m(1)] Suc show ?thesis by simp
  qed
qed

lemma find_sub_None_iff:
  "p \<noteq> [] \<Longrightarrow> find_sub p s = None \<longleftrightarrow> (\<forall>k. take (length p) (drop k s) \<noteq> p)"
proof (induction s)
  case Nil
  then show ?case by auto
next
  case (Cons x xs)
  have "(\<forall>k. take (length p) (drop k (x # xs)) \<noteq> p) \<longleftrightarrow>
        take (length p) (x # xs) \<noteq> p \<and> (\<forall>k. take (length p) (drop k xs) \<noteq> p)"
    (is "?l \<longleftrightarrow> ?r")
  proof
    assume l: ?l
    from l [rule_format, of 0] have "take (length p) (x # xs) \<noteq> p" by simp
    moreover have "take (length p) (drop k xs) \<noteq> p" for k
      using l [rule_format, of "Suc k"] by simp
    ultimately show ?r by blast
  next
    assume r: ?r
    show ?l
    proof
      fix k show "take (length p) (drop k (x # xs)) \<noteq> p" using r by (cases k) auto
    qed
  qed
  with Cons show ?case by auto
qed

lemma find_sub_eq_SomeI:
  assumes "take (length p) (drop n s) = p" and "\<And>k. k < n \<Longrightarrow> take (length p) (drop k s) \<noteq> p"
    and "p \<noteq> []"
  shows "find_sub p s = Some n"
proof -
  obtain m where m: "find_sub p s = Some m"
    using assms(1,3) find_sub_None_iff by (metis not_None_eq)
  with find_sub_Some_at have "take (length p) (drop m s) = p" by blast
  with assms(2) have "n \<le> m" by (meson leI)
  moreover from find_sub_Some_least [OF m] assms(1) have "m \<le> n" by (meson leI)
  ultimately show ?thesis using m by simp
qed

lemma take_append_within [simp]: "n \<le> length xs \<Longrightarrow> take n (xs @ ys) = take n xs"
  by simp

text \<open>A found needle stays where it was when more data arrives.\<close>

lemma find_sub_append: "find_sub p s = Some n \<Longrightarrow> find_sub p (s @ t) = Some n"
proof (induction s arbitrary: n)
  case Nil
  then show ?case by (cases t) (auto split: if_splits)
next
  case (Cons x xs)
  show ?case
  proof (cases "take (length p) (x # xs) = p")
    case True
    then have "length p \<le> length (x # xs)" by (metis length_take min.absorb_iff2 nat_le_linear)
    with True have "take (length p) ((x # xs) @ t) = p" by (simp only: take_append_within)
    with True Cons.prems show ?thesis by simp
  next
    case False
    with Cons.prems obtain m where m: "find_sub p xs = Some m" "n = Suc m" by auto
    have "take (length p) ((x # xs) @ t) \<noteq> p"
    proof -
      from find_sub_Some_at [OF m(1)] have "length p \<le> length (x # xs)" by simp
      with False show ?thesis by (simp only: take_append_within) simp
    qed
    with Cons.IH [OF m(1)] m(2) show ?thesis by simp
  qed
qed

lemma find_idx_append: "find_idx P xs = Some n \<Longrightarrow> find_idx P (xs @ ys) = Some n"
  by (induction xs arbitrary: n) (auto split: if_splits)

lemma find_idx_Some:
  "find_idx P xs = Some n \<Longrightarrow> n < length xs \<and> P (xs ! n) \<and> (\<forall>x \<in> set (take n xs). \<not> P x)"
  by (induction xs arbitrary: n) (auto split: if_splits)

lemma find_idx_None_iff [search_simps]: "find_idx P xs = None \<longleftrightarrow> (\<forall>x \<in> set xs. \<not> P x)"
  by (induction xs) auto

lemma find_idx_hit [search_simps]:
  "\<forall>x \<in> set xs. \<not> P x \<Longrightarrow> P y \<Longrightarrow> find_idx P (xs @ y # ys) = Some (length xs)"
  by (induction xs) auto

lemma find_idx_take_drop:
  "find_idx P xs = Some n \<Longrightarrow> xs = take n xs @ xs ! n # drop (Suc n) xs"
  by (simp add: find_idx_Some id_take_nth_drop)

section \<open>Incremental splitters\<close>

text \<open>
  A splitter looks at the front of a buffer and either cuts one item off or waits for more data.
  \<open>drains nxt b ys r\<close>: taking items from \<open>b\<close> until none is left gives \<open>ys\<close> and leaves \<open>r\<close>.
\<close>

inductive drains :: "('a list \<Rightarrow> ('b \<times> 'a list) option) \<Rightarrow> 'a list \<Rightarrow> 'b list \<Rightarrow> 'a list \<Rightarrow> bool"
  for nxt where
  stop: "nxt b = None \<Longrightarrow> drains nxt b [] b"
| item: "nxt b = Some (y, r) \<Longrightarrow> drains nxt r ys r' \<Longrightarrow> drains nxt b (y # ys) r'"

inductive_cases drains_ConsE: "drains nxt b (y # ys) r"
inductive_cases drains_NilE: "drains nxt b [] r"

text \<open>
  The contract: an item that can be cut off is cut off in the same way when more data follows,
  and cutting consumes data.
\<close>

locale splitter =
  fixes nxt :: "'a list \<Rightarrow> ('b \<times> 'a list) option"
  assumes nxt_append: "nxt b = Some (y, r) \<Longrightarrow> nxt (b @ c) = Some (y, r @ c)"
    and nxt_consumes: "nxt b = Some (y, r) \<Longrightarrow> length r < length b"
begin

lemma drains_total: "\<exists>ys r. drains nxt b ys r"
proof (induction b rule: length_induct)
  case (1 b)
  show ?case
  proof (cases "nxt b")
    case None
    then show ?thesis by (blast intro: drains.stop)
  next
    case (Some p)
    obtain y r where p: "p = (y, r)" by (cases p)
    with Some nxt_consumes have "length r < length b" by blast
    with 1 obtain ys r' where "drains nxt r ys r'" by blast
    with Some p show ?thesis by (blast intro: drains.item)
  qed
qed

lemma drains_deterministic:
  "drains nxt b ys r \<Longrightarrow> drains nxt b ys' r' \<Longrightarrow> ys' = ys \<and> r' = r"
proof (induction arbitrary: ys' r' rule: drains.induct)
  case (stop b)
  then show ?case by (auto elim: drains.cases)
next
  case (item b y r ys r'')
  from item.prems item.hyps(1) obtain zs where "ys' = y # zs" and "drains nxt r zs r'"
    by (auto elim: drains.cases)
  with item.IH show ?case by blast
qed

lemma drains_rest: "drains nxt b ys r \<Longrightarrow> nxt r = None"
  by (induction rule: drains.induct) auto

text \<open>Draining in two instalments is draining at once.\<close>

lemma drains_append:
  "drains nxt b ys r \<Longrightarrow> drains nxt (r @ c) zs r' \<Longrightarrow> drains nxt (b @ c) (ys @ zs) r'"
proof (induction rule: drains.induct)
  case (stop b)
  then show ?case by simp
next
  case (item b y r ys r'')
  then have "drains nxt (r @ c) (ys @ zs) r'" by simp
  with nxt_append [OF item.hyps(1)] show ?case by (auto intro: drains.item)
qed

end

section \<open>Simulations\<close>

text \<open>
  A program implements an abstract machine when every step of it is matched by steps of the machine;
  then so is every run.
\<close>

locale simulation =
  fixes cstep :: "'c \<Rightarrow> 'c \<Rightarrow> bool" and astep :: "'a \<Rightarrow> 'a \<Rightarrow> bool" and matches :: "'c \<Rightarrow> 'a \<Rightarrow> bool"
  assumes step_matched: "matches c a \<Longrightarrow> cstep c c' \<Longrightarrow> \<exists>a'. astep\<^sup>*\<^sup>* a a' \<and> matches c' a'"
begin

lemma run_matched: "cstep\<^sup>*\<^sup>* c c' \<Longrightarrow> matches c a \<Longrightarrow> \<exists>a'. astep\<^sup>*\<^sup>* a a' \<and> matches c' a'"
proof (induction rule: rtranclp_induct)
  case base
  then show ?case by blast
next
  case (step c1 c2)
  then obtain a1 where "astep\<^sup>*\<^sup>* a a1" "matches c1 a1" by blast
  with step_matched [OF this(2) step.hyps(2)] show ?case by (meson rtranclp_trans)
qed

end

end
