(* ===== verification/Os.thy ===== *)
theory Os
  imports Prelude
begin

text \<open>
  What the program gets from outside of it.  The kernel, the C library's files and the random
  device are not code of the repository, so their answers are data of the model: oracles indexed
  by the number of system calls made so far.  No property fixes an answer; where one needs the
  documented behaviour of a call, it is a named hypothesis.
\<close>

text \<open>
  A \<open>FILE*\<close> opened for reading: the results of the \<open>fread\<close> calls still to come, and those from
  the beginning of the file, for \<open>rewind\<close>.  An empty result is a call that returned 0 with neither
  \<open>feof\<close> nor \<open>ferror\<close>; after the last result every call returns 0 with \<open>feof\<close> or \<open>ferror\<close> set.
\<close>

record FILE =
  reads :: "bytes list"
  from_start :: "bytes list"

definition fopened :: "bytes list \<Rightarrow> FILE" where
  "fopened cs = \<lparr>reads = cs, from_start = cs\<rparr>"

definition rewind :: "FILE \<Rightarrow> FILE" where
  "rewind fp = fp\<lparr>reads := from_start fp\<rparr>"

text \<open>
  \<open>rng\<close> is a draw of \<open>std::mt19937\<close> seeded from \<open>std::random_device\<close>; \<open>sys_fd\<close> a descriptor
  returned by \<open>socket\<close>; \<open>sys_ok\<close> whether a \<open>connect\<close> or \<open>send\<close> succeeds; \<open>pton_ok\<close> whether
  \<open>inet_pton\<close> accepts a string as an IPv4 address; \<open>fs_open\<close> and \<open>sys_popen\<close> the streams returned
  by \<open>fopen\<close> for a path and \<open>popen\<close> for a command; \<open>clock\<close> the microseconds of
  \<open>steady_clock::now\<close>; \<open>in_flight\<close> whether, at a join, the thread that is joined was inside its
  loop body.  \<open>wire\<close> lists the datagrams that have left the host, \<open>udp_log\<close> the UDP sockets that the
  kernel has opened and closed for the program.
\<close>

type_synonym address = "string \<times> 16 word"

datatype fd_event = Opened int | Closed int

record os =
  tick :: nat
  rng :: "nat \<Rightarrow> 32 word"
  sys_fd :: "nat \<Rightarrow> int"
  sys_ok :: "nat \<Rightarrow> bool"
  pton_ok :: "string \<Rightarrow> bool"
  fs_open :: "string \<Rightarrow> FILE option"
  sys_popen :: "nat \<Rightarrow> string \<Rightarrow> FILE option"
  clock :: "nat \<Rightarrow> int"
  in_flight :: "nat \<Rightarrow> bool"
  wire :: "(address \<times> bytes) list"
  udp_log :: "fd_event list"

definition ticked :: "os \<Rightarrow> os" where
  "ticked w = w\<lparr>tick := Suc (tick w)\<rparr>"

definition draw :: "os \<Rightarrow> 32 word \<times> os" where
  "draw w = (rng w (tick w), ticked w)"

text \<open>
  The only fields a call of the program changes, other than the clock, are \<open>wire\<close> and \<open>udp_log\<close>, and
  only by appending.
\<close>

definition same_host :: "os \<Rightarrow> os \<Rightarrow> bool" where
  "same_host v w \<longleftrightarrow> rng v = rng w \<and> sys_fd v = sys_fd w \<and> sys_ok v = sys_ok w \<and>
     pton_ok v = pton_ok w \<and> fs_open v = fs_open w \<and> sys_popen v = sys_popen w \<and> clock v = clock w \<and>
     in_flight v = in_flight w"

lemma same_host_refl [simp]: "same_host w w"
  by (simp add: same_host_def)

lemma same_host_trans: "same_host u v \<Longrightarrow> same_host v w \<Longrightarrow> same_host u w"
  by (simp add: same_host_def)

lemma ticked_fields [simp]:
  "tick (ticked w) = Suc (tick w)" "wire (ticked w) = wire w" "udp_log (ticked w) = udp_log w"
  "same_host w (ticked w)"
  by (simp_all add: ticked_def same_host_def)

text \<open>A concrete outside world for the examples: every call succeeds, addresses have a dot.\<close>

definition sample_os :: os where
  "sample_os = \<lparr>tick = 0, rng = (\<lambda>n. of_nat n + 7), sys_fd = (\<lambda>n. int n + 3), sys_ok = (\<lambda>_. True),
     pton_ok = (\<lambda>s. CHR ''.'' \<in> set s), fs_open = (\<lambda>_. None), sys_popen = (\<lambda>_ _. None),
     clock = (\<lambda>n. int n * 10), in_flight = (\<lambda>_. False), wire = [], udp_log = []\<rparr>"

end
