(* ===== verification/AnnexB.thy ===== *)
theory AnnexB
  imports Os
begin

text \<open>
  \<open>media::AnnexBReader\<close> (src/media/annexb_reader.cpp): cutting NAL units out of an Annex-B byte
  stream that arrives in chunks.  The reader's only state is its accumulation buffer.
\<close>

section \<open>The code\<close>

text \<open>\<open>Some (pos, start_code_len)\<close> is the result \<open>true\<close> with the two output parameters.\<close>

function find_start_code :: "bytes \<Rightarrow> nat \<Rightarrow> (nat \<times> nat) option" where
  "find_start_code buffer i =
     (if i + 2 < length buffer
      then if buffer ! i = 0 \<and> buffer ! (i + 1) = 0
           then if buffer ! (i + 2) = 1 then Some (i, 3)
                else if i + 3 < length buffer \<and> buffer ! (i + 2) = 0 \<and> buffer ! (i + 3) = 1
                     then Some (i, 4)
                     else find_start_code buffer (i + 1)
           else find_start_code buffer (i + 1)
      else None)"
  by pat_completeness auto
termination
  by (relation "measure (\<lambda>(b, i). length b - i)") auto

declare find_start_code.simps [simp del]

text \<open>
  The lambda \<open>fill\<close>: append the next chunk to the buffer, trying again while a call returns nothing
  without end of file; \<open>False\<close> at the end of the file.
\<close>

fun fill :: "bytes \<Rightarrow> bytes list \<Rightarrow> bool \<times> bytes \<times> bytes list" where
  "fill buffer (chunk # rs) =
     (if chunk \<noteq> [] then (True, buffer @ chunk, rs) else fill buffer rs)"
| "fill buffer [] = (False, buffer, [])"

lemma fill_shrinks: "fill buffer rs = (True, buffer', rs') \<Longrightarrow> length rs' < length rs"
  by (induction buffer rs rule: fill.induct) (auto split: if_splits)

lemmas fill_shrinks_sym = fill_shrinks [OF sym]

text \<open>Step 1 of \<open>read_nal\<close>: read until the buffer holds a start code.\<close>

function align_loop :: "bytes \<Rightarrow> bytes list \<Rightarrow> (nat \<times> nat) option \<times> bytes \<times> bytes list" where
  "align_loop buffer rs =
     (case find_start_code buffer 0 of
        Some sc \<Rightarrow> (Some sc, buffer, rs)
      | None \<Rightarrow>
          (case fill buffer rs of
             (True, buffer', rs') \<Rightarrow> align_loop buffer' rs'
           | (False, buffer', rs') \<Rightarrow> (None, buffer', rs')))"
  by pat_completeness auto
termination
  by (relation "measure (\<lambda>(b, rs). length rs)") (auto dest: fill_shrinks_sym)

declare align_loop.simps [simp del]

text \<open>
  Step 2: find the start code after the NAL unit.  After an unsuccessful scan the search resumes
  three bytes before the end of the old buffer, but not before \<open>nal_start\<close>.
\<close>

function end_loop :: "nat \<Rightarrow> nat \<Rightarrow> bytes \<Rightarrow> bytes list \<Rightarrow> nat option \<times> bytes \<times> bytes list" where
  "end_loop nal_start scan buffer rs =
     (case find_start_code buffer scan of
        Some (next_pos, next_len) \<Rightarrow> (Some next_pos, buffer, rs)
      | None \<Rightarrow>
          (let resume = (if length buffer \<ge> 3 then length buffer - 3 else nal_start);
               resume = (if resume < nal_start then nal_start else resume)
           in case fill buffer rs of
                (True, buffer', rs') \<Rightarrow> end_loop nal_start resume buffer' rs'
              | (False, buffer', rs') \<Rightarrow> (None, buffer', rs')))"
  by pat_completeness auto
termination
  by (relation "measure (\<lambda>(_, _, b, rs). length rs)") (auto dest: fill_shrinks_sym)

declare end_loop.simps [simp del]

text \<open>
  The result: the return value, the NAL unit the callback is called with (it is called at most
  once), the buffer and the stream afterwards.  The callback does not touch the reader, so the
  caller of the model runs it on the returned NAL unit.
\<close>

definition deliver :: "bytes \<Rightarrow> bytes option" where
  "deliver nal = (if length nal > 0 then Some nal else None)"

definition read_nal :: "FILE option \<Rightarrow> bytes \<Rightarrow> bool \<times> bytes option \<times> bytes \<times> FILE option" where
  "read_nal fp buffer =
     (case fp of
        None \<Rightarrow> (False, None, buffer, None)
      | Some f \<Rightarrow>
          (case align_loop buffer (reads f) of
             (None, buffer, rs) \<Rightarrow> (False, None, buffer, Some (f\<lparr>reads := rs\<rparr>))
           | (Some (sc_pos, sc_len), buffer, rs) \<Rightarrow>
               (let buffer = (if sc_pos > 0 then drop sc_pos buffer else buffer);
                    nal_start = sc_len
                in case end_loop nal_start nal_start buffer rs of
                     (None, buffer, rs) \<Rightarrow>
                       (False, deliver (drop nal_start buffer), [], Some (f\<lparr>reads := rs\<rparr>))
                   | (Some next_pos, buffer, rs) \<Rightarrow>
                       (True, deliver (take (next_pos - nal_start) (drop nal_start buffer)),
                        drop next_pos buffer, Some (f\<lparr>reads := rs\<rparr>)))))"

definition reader_reset :: "bytes \<Rightarrow> bytes" where
  "reader_reset buffer = []"

section \<open>Start codes\<close>

text \<open>\<open>code_at b k\<close>: the length of the start code at position \<open>k\<close>, if there is one.\<close>

definition code_at :: "bytes \<Rightarrow> nat \<Rightarrow> nat option" where
  "code_at b k =
     (if k + 2 < length b \<and> b ! k = 0 \<and> b ! (k + 1) = 0
      then if b ! (k + 2) = 1 then Some 3
           else if k + 3 < length b \<and> b ! (k + 2) = 0 \<and> b ! (k + 3) = 1 then Some 4 else None
      else None)"

lemma code_at_bound: "code_at b k = Some l \<Longrightarrow> k + l \<le> length b \<and> 3 \<le> l"
  by (auto simp: code_at_def split: if_splits)

lemma code_at_append: "code_at b k = Some l \<Longrightarrow> code_at (b @ c) k = Some l"
  by (auto simp: code_at_def nth_append split: if_splits)

lemma code_at_append_None: "k + 3 < length b \<Longrightarrow> code_at (b @ c) k = code_at b k"
  by (auto simp: code_at_def nth_append)

lemma code_at_drop: "n \<le> length b \<Longrightarrow> code_at (drop n b) k = code_at b (n + k)"
  by (auto simp: code_at_def add.assoc)

lemma find_start_code_step:
  "find_start_code b i =
     (case code_at b i of Some l \<Rightarrow> Some (i, l)
      | None \<Rightarrow> if i + 2 < length b then find_start_code b (i + 1) else None)"
  by (auto simp: find_start_code.simps [of b i] code_at_def)

lemma code_at_beyond [simp]: "length b \<le> k + 2 \<Longrightarrow> code_at b k = None"
  by (simp add: code_at_def)

lemma find_start_code_Some [search_simps]:
  "find_start_code b i = Some (p, l) \<longleftrightarrow>
     i \<le> p \<and> code_at b p = Some l \<and> (\<forall>k. i \<le> k \<and> k < p \<longrightarrow> code_at b k = None)"
proof (induction "length b - i" arbitrary: i rule: less_induct)
  case less
  show ?case
  proof (cases "code_at b i")
    case (Some m)
    then have "find_start_code b i = Some (i, m)" by (simp add: find_start_code_step [of b i])
    with Some show ?thesis by (cases "i = p") (auto dest: spec [of _ i])
  next
    case None
    show ?thesis
    proof (cases "i + 2 < length b")
      case True
      then have "find_start_code b (Suc i) = Some (p, l) \<longleftrightarrow> Suc i \<le> p \<and> code_at b p = Some l \<and>
          (\<forall>k. Suc i \<le> k \<and> k < p \<longrightarrow> code_at b k = None)"
        by (intro less) simp
      moreover have "find_start_code b i = find_start_code b (Suc i)"
        using None True by (simp add: find_start_code_step [of b i])
      moreover have "k = i \<or> Suc i \<le> k" if "i \<le> k" for k using that by linarith
      ultimately show ?thesis using None by (metis Suc_leD option.distinct(1))
    next
      case False
      with None show ?thesis by (auto simp: find_start_code_step [of b i])
    qed
  qed
qed

lemma all_from_step: "(\<forall>k. i \<le> k \<longrightarrow> P k) \<longleftrightarrow> P i \<and> (\<forall>k. i + 1 \<le> k \<longrightarrow> P (k :: nat))"
  by (auto simp: Suc_le_eq) (metis le_neq_implies_less)

lemma find_start_code_None [search_simps]:
  "find_start_code b i = None \<longleftrightarrow> (\<forall>k. i \<le> k \<longrightarrow> code_at b k = None)"
proof (induction "length b - i" arbitrary: i rule: less_induct)
  case less
  show ?case
  proof (cases "code_at b i")
    case (Some m)
    then show ?thesis by (auto simp: find_start_code_step [of b i])
  next
    case None
    show ?thesis
    proof (cases "i + 2 < length b")
      case True
      with less [of "i + 1"] None show ?thesis
        by (simp add: find_start_code_step [of b i] all_from_step [of i])
    next
      case False
      with None show ?thesis by (auto simp: find_start_code_step [of b i])
    qed
  qed
qed

text \<open>
  A start code found in a buffer is found at the same place when more data follows; a scan that
  found nothing can resume three bytes before the end of the old data.
\<close>

lemma find_start_code_append:
  "find_start_code b i = Some (p, l) \<Longrightarrow> find_start_code (b @ c) i = Some (p, l)"
  unfolding find_start_code_Some
  using code_at_bound [of b p l] by (auto simp: code_at_append code_at_append_None)

lemma find_start_code_resume:
  assumes "find_start_code b i = None" and "i \<le> j" and "j = i \<or> j + 3 \<le> length b"
  shows "find_start_code (b @ c) i = find_start_code (b @ c) j"
proof -
  have none: "code_at (b @ c) k = None" if "i \<le> k" "k < j" for k
    using that assms code_at_append_None [of k b c] by (auto simp: find_start_code_None)
  show ?thesis
  proof (cases "find_start_code (b @ c) j")
    case None
    with none have "find_start_code (b @ c) i = None" by (metis find_start_code_None not_le)
    with None show ?thesis by simp
  next
    case (Some q)
    obtain p l where q: "q = (p, l)" by (cases q)
    with Some have p: "j \<le> p" "code_at (b @ c) p = Some l"
      "\<And>k. j \<le> k \<Longrightarrow> k < p \<Longrightarrow> code_at (b @ c) k = None"
      by (auto simp: find_start_code_Some)
    then have "code_at (b @ c) k = None" if "i \<le> k" "k < p" for k
      using none that by (cases "k < j") auto
    with p assms(2) have "find_start_code (b @ c) i = Some (p, l)"
      by (auto simp: find_start_code_Some)
    with Some q show ?thesis by simp
  qed
qed

lemma find_start_code_drop:
  "n \<le> length b \<Longrightarrow> find_start_code (drop n b) i = map_option (\<lambda>(p, l). (p - n, l)) (find_start_code b (n + i))"
proof (cases "find_start_code b (n + i)")
  case None
  assume n: "n \<le> length b"
  from None have "\<forall>k. n + i \<le> k \<longrightarrow> code_at b k = None" by (simp only: find_start_code_None)
  then have "find_start_code (drop n b) i = None"
    using n by (simp add: find_start_code_None code_at_drop)
  with None show ?thesis by simp
next
  case (Some q)
  assume n: "n \<le> length b"
  obtain p l where q: "q = (p, l)" by (cases q)
  with Some have "n + i \<le> p" by (simp add: find_start_code_Some)
  then obtain m where "p = n + m" using le_Suc_ex by (metis add.assoc)
  with Some q n have "find_start_code (drop n b) i = Some (m, l)"
    by (auto simp: find_start_code_Some code_at_drop)
  with Some q \<open>p = n + m\<close> show ?thesis by simp
qed

section \<open>The reader as a function of the whole stream\<close>

text \<open>
  \<open>next_nal d\<close> says what one call of \<open>read_nal\<close> does when the buffer and everything the stream
  will still return are the bytes \<open>d\<close>: the return value, the NAL unit and the bytes left.
\<close>

definition next_nal :: "bytes \<Rightarrow> bool \<times> bytes option \<times> bytes" where
  "next_nal d =
     (case find_start_code d 0 of
        None \<Rightarrow> (False, None, d)
      | Some (p, l) \<Rightarrow>
          (case find_start_code (drop p d) l of
             None \<Rightarrow> (False, deliver (drop (p + l) d), [])
           | Some (q, _) \<Rightarrow>
               (True, deliver (take (q - l) (drop (p + l) d)), drop (p + q) d)))"

lemma fill_True:
  "fill buffer rs = (True, buffer', rs') \<Longrightarrow>
   \<exists>chunk. buffer' = buffer @ chunk \<and> concat rs = chunk @ concat rs'"
  by (induction buffer rs rule: fill.induct) (auto split: if_splits)

lemma fill_False:
  "fill buffer rs = (False, buffer', rs') \<Longrightarrow> buffer' = buffer \<and> rs' = [] \<and> concat rs = []"
  by (induction buffer rs rule: fill.induct) (auto split: if_splits)

lemma align_loop_spec:
  "align_loop buffer rs = (sc, buffer', rs') \<Longrightarrow>
   buffer' @ concat rs' = buffer @ concat rs \<and> sc = find_start_code (buffer @ concat rs) 0 \<and>
   sc = find_start_code buffer' 0 \<and> (sc = None \<longrightarrow> rs' = [])"
proof (induction "length rs" arbitrary: buffer rs rule: less_induct)
  case less
  show ?case
  proof (cases "find_start_code buffer 0")
    case (Some q)
    with less.prems show ?thesis
      using find_start_code_append [of buffer 0 "fst q" "snd q" "concat rs"]
      by (auto simp: align_loop.simps [of buffer])
  next
    case None
    obtain ok b1 rs1 where f: "fill buffer rs = (ok, b1, rs1)" by (metis prod_cases3)
    show ?thesis
    proof (cases ok)
      case True
      with f None less.prems have "align_loop b1 rs1 = (sc, buffer', rs')"
        by (simp add: align_loop.simps [of buffer])
      moreover have "length rs1 < length rs" using f True fill_shrinks by simp
      ultimately show ?thesis
        using less.hyps [of rs1 b1] True fill_True [of buffer rs b1 rs1] f by auto
    next
      case False
      with f None less.prems fill_False [of buffer rs b1 rs1] show ?thesis
        by (auto simp: align_loop.simps [of buffer] simp del: concat_eq_Nil_conv)
    qed
  qed
qed

lemma end_loop_spec:
  assumes "end_loop nal_start scan buffer rs = (pos, buffer', rs')"
    and "nal_start \<le> scan" and "find_start_code buffer nal_start = find_start_code buffer scan"
  shows "buffer' @ concat rs' = buffer @ concat rs \<and>
   pos = map_option fst (find_start_code (buffer @ concat rs) nal_start) \<and>
   (\<forall>p. pos = Some p \<longrightarrow> p \<le> length buffer') \<and> (pos = None \<longrightarrow> rs' = [])"
  using assms
proof (induction "length rs" arbitrary: scan buffer rs rule: less_induct)
  case less
  show ?case
  proof (cases "find_start_code buffer scan")
    case (Some q)
    obtain p l where q: "q = (p, l)" by (cases q)
    with Some have "code_at buffer p = Some l" by (simp add: find_start_code_Some)
    then have "p \<le> length buffer" using code_at_bound by fastforce
    with Some q less.prems find_start_code_append [of buffer nal_start p l "concat rs"]
    show ?thesis by (auto simp: end_loop.simps [of nal_start scan buffer])
  next
    case None
    define resume where "resume = max nal_start (length buffer - 3)"
    have res: "(let resume = (if length buffer \<ge> 3 then length buffer - 3 else nal_start)
                in if resume < nal_start then nal_start else resume) = resume"
      by (auto simp: resume_def Let_def max_def)
    obtain ok b1 rs1 where f: "fill buffer rs = (ok, b1, rs1)" by (metis prod_cases3)
    show ?thesis
    proof (cases ok)
      case True
      with f obtain chunk where ch: "b1 = buffer @ chunk" "concat rs = chunk @ concat rs1"
        using fill_True [of buffer rs b1 rs1] by auto
      have nn: "find_start_code buffer nal_start = None" using None less.prems(3) by simp
      have "find_start_code b1 nal_start = find_start_code b1 resume"
        unfolding ch(1) by (rule find_start_code_resume [OF nn]) (auto simp: resume_def)
      moreover have "end_loop nal_start resume b1 rs1 = (pos, buffer', rs')"
        using less.prems(1) None f True res
        by (simp add: end_loop.simps [of nal_start scan buffer] Let_def)
      ultimately show ?thesis
        using less.hyps [of rs1 resume b1] fill_shrinks [of buffer rs b1 rs1] f True ch
        by (auto simp: resume_def)
    next
      case False
      with f None less.prems fill_False [of buffer rs b1 rs1] show ?thesis
        by (auto simp: end_loop.simps [of nal_start scan buffer] Let_def simp del: concat_eq_Nil_conv)
    qed
  qed
qed

lemma read_nal_null: "read_nal None buffer = (False, None, buffer, None)"
  by (simp add: read_nal_def)

lemma read_nal_spec:
  assumes "read_nal (Some f) buffer = (ret, nal, buffer', fp')"
  shows "\<exists>f'. fp' = Some f' \<and> from_start f' = from_start f \<and>
     next_nal (buffer @ concat (reads f)) = (ret, nal, buffer' @ concat (reads f')) \<and>
     (ret = False \<longrightarrow> reads f' = [])"
proof -
  define d where "d = buffer @ concat (reads f)"
  obtain sc b1 rs1 where al: "align_loop buffer (reads f) = (sc, b1, rs1)" by (metis prod_cases3)
  have als: "d = b1 @ concat rs1" "find_start_code d 0 = sc" "find_start_code b1 0 = sc"
    "sc = None \<Longrightarrow> rs1 = []"
    unfolding d_def using align_loop_spec [OF al] by metis+
  show ?thesis
  proof (cases sc)
    case None
    with al assms als(1,4) have "ret = False" "nal = None" "buffer' = b1" "rs1 = []" "d = b1"
      "fp' = Some (f\<lparr>reads := rs1\<rparr>)" by (auto simp: read_nal_def)
    with None als(2) show ?thesis by (simp add: next_nal_def flip: d_def)
  next
    case (Some q)
    obtain p l where q: "q = (p, l)" by (cases q)
    with Some als(3) have "find_start_code b1 0 = Some (p, l)" by simp
    then have "code_at b1 p = Some l" by (simp add: find_start_code_Some)
    then have pb: "p + l \<le> length b1" using code_at_bound by blast
    have dd: "drop p d = drop p b1 @ concat rs1" using als(1) pb by simp
    obtain pos b2 rs2 where en: "end_loop l l (drop p b1) rs1 = (pos, b2, rs2)" by (metis prod_cases3)
    from end_loop_spec [OF en]
    have ens: "b2 @ concat rs2 = drop p d"
      "pos = map_option fst (find_start_code (drop p d) l)"
      "\<And>k. pos = Some k \<Longrightarrow> k \<le> length b2" "pos = None \<Longrightarrow> rs2 = []"
      by (simp_all add: dd)
    have start: "find_start_code d 0 = Some (p, l)" using Some q als(2) by simp
    have trim: "(if 0 < p then drop p b1 else b1) = drop p b1" by simp
    show ?thesis
    proof (cases pos)
      case None
      with en al Some q assms ens start show ?thesis
        by (auto simp: read_nal_def next_nal_def Let_def trim add.commute [of p]
            simp flip: drop_drop d_def simp del: if_split)
    next
      case (Some k)
      from Some ens(3) have k: "k \<le> length b2" by simp
      obtain m where m: "find_start_code (drop p d) l = Some (k, m)"
        using ens(2) Some by (cases "find_start_code (drop p d) l") auto
      have b2: "take (k - l) (drop l b2) = take (k - l) (drop l (drop p d))"
        "drop k b2 @ concat rs2 = drop k (drop p d)"
        unfolding ens(1) [symmetric] using k by simp_all
      show ?thesis
        using Some en al \<open>sc = Some q\<close> q assms start m b2
        by (auto simp: read_nal_def next_nal_def Let_def trim add.commute [of p]
            simp flip: drop_drop d_def simp del: if_split)
    qed
  qed
qed

section \<open>All the NAL units of a stream\<close>

definition opt_list :: "'a option \<Rightarrow> 'a list" where
  "opt_list x = (case x of None \<Rightarrow> [] | Some y \<Rightarrow> [y])"

lemma next_nal_shrinks: "next_nal d = (True, nal, d') \<Longrightarrow> length d' < length d"
proof -
  assume h: "next_nal d = (True, nal, d')"
  then obtain p l q m where pl: "find_start_code d 0 = Some (p, l)"
    and qm: "find_start_code (drop p d) l = Some (q, m)" and d': "d' = drop (p + q) d"
    by (auto simp: next_nal_def split: option.splits prod.splits)
  from pl have "3 \<le> l" "p + l \<le> length d" using code_at_bound [of d p l]
    by (auto simp: find_start_code_Some)
  moreover from qm have "l \<le> q" by (simp add: find_start_code_Some)
  ultimately show ?thesis using d' by simp
qed

function nals_of :: "bytes \<Rightarrow> bytes list" where
  "nals_of d =
     (case next_nal d of
        (True, nal, d') \<Rightarrow> opt_list nal @ nals_of d'
      | (False, nal, d') \<Rightarrow> opt_list nal)"
  by pat_completeness auto
termination
  by (relation "measure length") (auto dest: next_nal_shrinks [OF sym])

declare nals_of.simps [simp del]

text \<open>
  The consumer's loop, as in \<open>Hub::pump\<close> over a camera or a file: call \<open>read_nal\<close> until it reports
  the end of the stream, and collect what the callback was given.
\<close>

lemma read_nal_shrinks:
  assumes "read_nal (Some f) buffer = (True, nal, buffer', Some f')"
  shows "length (buffer' @ concat (reads f')) < length (buffer @ concat (reads f))"
  using read_nal_spec [OF assms] next_nal_shrinks by fastforce

function read_all :: "FILE \<Rightarrow> bytes \<Rightarrow> bytes list" where
  "read_all f buffer =
     (case read_nal (Some f) buffer of
        (True, nal, buffer', Some f') \<Rightarrow> opt_list nal @ read_all f' buffer'
      | (_, nal, _, _) \<Rightarrow> opt_list nal)"
  by pat_completeness auto
termination
  by (relation "measure (\<lambda>(f, b). length (b @ concat (reads f)))")
     (auto dest: read_nal_shrinks [OF sym])

declare read_all.simps [simp del]

lemma read_all_nals_of: "read_all f buffer = nals_of (buffer @ concat (reads f))"
proof (induction "length (buffer @ concat (reads f))" arbitrary: f buffer rule: less_induct)
  case less
  obtain ret nal b' fp' where r: "read_nal (Some f) buffer = (ret, nal, b', fp')" by (metis prod_cases4)
  from read_nal_spec [OF r] obtain f' where f': "fp' = Some f'"
    "next_nal (buffer @ concat (reads f)) = (ret, nal, b' @ concat (reads f'))" by blast
  show ?case
  proof (cases ret)
    case True
    with r f'(1) have "length (b' @ concat (reads f')) < length (buffer @ concat (reads f))"
      by (intro read_nal_shrinks) simp
    then have "read_all f' b' = nals_of (b' @ concat (reads f'))" by (rule less)
    with r f' True show ?thesis by (simp add: read_all.simps [of f] nals_of.simps [of "buffer @ _"])
  next
    case False
    with r f' show ?thesis by (simp add: read_all.simps [of f] nals_of.simps [of "buffer @ _"])
  qed
qed

text \<open>
  The reader as an incremental splitter: an aligned NAL unit is cut off when the next start code
  is there.  The contract of the library holds, and so do its consequences.
\<close>

definition annexb_cut :: "bytes \<Rightarrow> (bytes option \<times> bytes) option" where
  "annexb_cut d = (case next_nal d of (True, nal, d') \<Rightarrow> Some (nal, d') | (False, _, _) \<Rightarrow> None)"

lemma next_nal_append: "next_nal d = (True, nal, d') \<Longrightarrow> next_nal (d @ c) = (True, nal, d' @ c)"
proof -
  assume h: "next_nal d = (True, nal, d')"
  then obtain p l q m where pl: "find_start_code d 0 = Some (p, l)"
    and qm: "find_start_code (drop p d) l = Some (q, m)" and d': "d' = drop (p + q) d"
    and nal: "nal = deliver (take (q - l) (drop (p + l) d))"
    by (auto simp: next_nal_def split: option.splits prod.splits)
  from pl have p: "p + l \<le> length d" using code_at_bound [of d p l]
    by (auto simp: find_start_code_Some)
  from qm have q: "l \<le> q" "q \<le> length (drop p d)" using code_at_bound [of "drop p d" q m]
    by (auto simp: find_start_code_Some)
  have "find_start_code (drop p (d @ c)) l = Some (q, m)"
    using find_start_code_append [OF qm, of c] p by simp
  then show ?thesis
    using find_start_code_append [OF pl, of c] p q d' nal by (simp add: next_nal_def)
qed

interpretation annexb: splitter annexb_cut
  by unfold_locales
     (auto simp: annexb_cut_def next_nal_append next_nal_shrinks split: prod.splits bool.splits if_splits)

section \<open>Streams written by an encoder\<close>

text \<open>
  An Annex-B stream is a sequence of NAL units, each behind a start code of three or four bytes.
  A NAL unit as an H.264 encoder makes it does not end in a zero byte and, thanks to the emulation
  prevention bytes, has no start code inside.
\<close>

definition start_code :: "bool \<Rightarrow> bytes" where
  "start_code four = (if four then [0, 0, 0, 1] else [0, 0, 1])"

definition annexb_stream :: "(bool \<times> bytes) list \<Rightarrow> bytes" where
  "annexb_stream xs = concat (map (\<lambda>(four, nal). start_code four @ nal) xs)"

definition clean_nal :: "bytes \<Rightarrow> bool" where
  "clean_nal nal \<longleftrightarrow> nal \<noteq> [] \<and> last nal \<noteq> 0 \<and> (\<forall>k < length nal. code_at nal k = None)"

lemma code_at_start_code: "code_at (start_code four @ t) 0 = Some (length (start_code four))"
  by (simp add: code_at_def start_code_def)

lemma clean_code_at:
  assumes "clean_nal nal" and "k < length nal"
  shows "code_at (nal @ t) k = None"
proof -
  have none: "code_at nal k = None" and nz: "last nal \<noteq> 0" using assms by (auto simp: clean_nal_def)
  have last: "nal ! (length nal - 1) \<noteq> 0" using nz assms(2) by (cases nal rule: rev_cases) auto
  consider "k + 3 < length nal" | "k + 3 = length nal" | "k + 2 = length nal" | "k + 1 = length nal"
    using assms(2) by linarith
  then show ?thesis
  proof cases
    case 1
    with none show ?thesis by (simp add: code_at_append_None)
  next
    case 2
    then have "(nal @ t) ! (k + 2) \<noteq> 0" "(nal @ t) ! k = nal ! k" "(nal @ t) ! (k + 1) = nal ! (k + 1)"
      "(nal @ t) ! (k + 2) = nal ! (k + 2)"
      using last by (simp_all add: nth_append flip: 2)
    with none 2 show ?thesis by (auto simp: code_at_def split: if_splits)
  next
    case 3
    then have "(nal @ t) ! (k + 1) \<noteq> 0" using last by (simp add: nth_append flip: 3)
    then show ?thesis by (simp add: code_at_def)
  next
    case 4
    then have "(nal @ t) ! k \<noteq> 0" using last by (simp add: nth_append flip: 4)
    then show ?thesis by (simp add: code_at_def)
  qed
qed

lemma clean_no_code:
  assumes "clean_nal nal" and "l \<le> k" and "k < l + length nal" and "length pre = l"
  shows "code_at (pre @ nal @ t) k = None"
proof -
  have "code_at (drop l (pre @ nal @ t)) (k - l) = None"
    using assms clean_code_at [of nal "k - l" t] by simp
  then show ?thesis using assms by (subst (asm) code_at_drop) auto
qed

lemma next_nal_stream:
  assumes "clean_nal nal"
  shows "next_nal (start_code four @ nal @ annexb_stream xs) =
    (xs \<noteq> [], Some nal, annexb_stream xs)"
proof -
  let ?l = "length (start_code four)" and ?d = "start_code four @ nal @ annexb_stream xs"
  have start: "find_start_code ?d 0 = Some (0, ?l)"
    by (simp add: find_start_code_Some code_at_start_code)
  have inside: "code_at ?d k = None" if "?l \<le> k" "k < ?l + length nal" for k
    using clean_no_code [OF assms that refl] .
  have nonempty: "deliver nal = Some nal" using assms by (auto simp: deliver_def clean_nal_def)
  show ?thesis
  proof (cases xs)
    case Nil
    have "code_at ?d k = None" if "?l \<le> k" for k
      using inside [OF that] Nil by (cases "k < ?l + length nal") (auto simp: annexb_stream_def)
    then have "find_start_code ?d ?l = None" by (simp add: find_start_code_None)
    then show ?thesis using start nonempty Nil by (simp add: next_nal_def annexb_stream_def)
  next
    case (Cons x ys)
    obtain f n where x: "x = (f, n)" by (cases x)
    have "code_at (drop (?l + length nal) ?d) 0 = Some (length (start_code f))"
      using Cons x by (simp add: annexb_stream_def code_at_start_code)
    then have "code_at ?d (?l + length nal) = Some (length (start_code f))"
      by (subst (asm) code_at_drop) auto
    with inside have "find_start_code ?d ?l = Some (?l + length nal, length (start_code f))"
      by (simp add: find_start_code_Some)
    then show ?thesis using start nonempty Cons by (simp add: next_nal_def)
  qed
qed

lemma nals_of_stream:
  "\<forall>(four, nal) \<in> set xs. clean_nal nal \<Longrightarrow> nals_of (annexb_stream xs) = map snd xs"
proof (induction xs)
  case Nil
  have "next_nal (annexb_stream []) = (False, None, [])"
    by (simp add: next_nal_def annexb_stream_def find_start_code.simps)
  then show ?case by (simp add: nals_of.simps opt_list_def)
next
  case (Cons x xs)
  obtain four nal where x: "x = (four, nal)" by (cases x)
  have d: "annexb_stream (x # xs) = start_code four @ nal @ annexb_stream xs"
    by (simp add: annexb_stream_def x)
  have "next_nal (annexb_stream (x # xs)) = (xs \<noteq> [], Some nal, annexb_stream xs)"
    unfolding d by (rule next_nal_stream) (use Cons.prems x in auto)
  then have "nals_of (annexb_stream (x # xs)) = nal # (if xs \<noteq> [] then nals_of (annexb_stream xs) else [])"
    by (simp add: nals_of.simps [of "annexb_stream (x # xs)"] opt_list_def)
  with Cons x show ?case by auto
qed

section \<open>Properties\<close>

text \<open>
  C37: One call of \<open>read_nal\<close> depends only on the bytes not yet delivered, those in the buffer
  followed by those still in the stream: return value, delivered NAL unit and remaining bytes are
  \<open>next_nal\<close> of them.  Where the stream was cut into chunks, and whether a start code was cut in
  two, makes no difference, and after a return of \<open>false\<close> the stream is exhausted.
\<close>

theorem read_nal_refines:
  "read_nal (Some f) buffer = (ret, nal, buffer', fp') \<Longrightarrow>
   \<exists>f'. fp' = Some f' \<and> next_nal (buffer @ concat (reads f)) = (ret, nal, buffer' @ concat (reads f')) \<and>
     (\<not> ret \<longrightarrow> reads f' = [])"
  using read_nal_spec by blast

lemma sample_read:
  "read_nal (Some (fopened [[0, 0], [1, 9], [7, 0, 0], [], [0, 1, 8]])) [] =
    (True, Some [9, 7], [0, 0, 0, 1, 8], Some \<lparr>reads = [], from_start = [[0, 0], [1, 9], [7, 0, 0], [], [0, 1, 8]]\<rparr>)"
  by code_simp

theorem read_nal_refines_witness:
  "next_nal [0, 0, 1, 9, 7, 0, 0, 0, 1, 8] = (True, Some [9, 7], [0, 0, 0, 1, 8])"
  using read_nal_refines [OF sample_read] by (auto simp: fopened_def)

text \<open>
  Chunking does not matter.  Two streams with the same bytes give the same NAL units, however
  differently they are cut into \<open>fread\<close> results.
\<close>

theorem annexb_chunk_independent:
  "concat (reads f) = concat (reads g) \<Longrightarrow> read_all f [] = read_all g []"
  by (simp add: read_all_nals_of)

theorem annexb_chunk_independent_witness:
  "read_all (fopened [[0, 0], [1, 9]]) [] = read_all (fopened [[0, 0, 1, 9]]) []"
  by (rule annexb_chunk_independent) (simp add: fopened_def)

text \<open>
  C11: The reader inverts the Annex-B format.  From a stream of NAL units behind start codes of
  three or four bytes in any mixture, cut into chunks in any way, it delivers exactly those NAL
  units in order, provided they are as an encoder makes them.
\<close>

theorem annexb_roundtrip:
  assumes "\<forall>(four, nal) \<in> set xs. clean_nal nal" and "concat (reads f) = annexb_stream xs"
  shows "read_all f [] = map snd xs"
  using nals_of_stream [OF assms(1)] assms(2) by (simp add: read_all_nals_of)

theorem annexb_roundtrip_witness:
  "read_all (fopened [[0, 0], [0, 1, 0x67, 1, 0, 0], [1, 0x68]]) [] = [[0x67, 1], [0x68]]"
  using annexb_roundtrip [of "[(True, [0x67, 1]), (False, [0x68])]"
      "fopened [[0, 0], [0, 1, 0x67, 1, 0, 0], [1, 0x68]]"]
  by (simp add: fopened_def annexb_stream_def start_code_def clean_nal_def code_at_def)

end
