(* ===== verification/Text.thy ===== *)
theory Text
  imports Prelude
begin

text \<open>
  The parts of the C++ standard library that the textual protocols rest on: character
  classification in the C locale, printing of an \<open>int\<close> to an \<open>ostringstream\<close>, and \<open>std::stoi\<close>
  with its two exceptions.
\<close>

section \<open>Characters\<close>

definition crlf :: string where
  "crlf = [CHR 0x0D, CHR 0x0A]"

text \<open>\<open>std::isspace\<close>: space, and the codes 9 to 13 (tab, line feed, vertical tab, form feed, return).\<close>

definition isspace :: "char \<Rightarrow> bool" where
  "isspace c \<longleftrightarrow> c = CHR '' '' \<or> c \<in> {CHR 0x09, CHR 0x0A, CHR 0x0B, CHR 0x0C, CHR 0x0D}"

definition tolower :: "char \<Rightarrow> char" where
  "tolower c = (let n = of_char c :: nat in if 65 \<le> n \<and> n \<le> 90 then char_of (n + 32) else c)"

definition isdigit :: "char \<Rightarrow> bool" where
  "isdigit c \<longleftrightarrow> c \<in> set ''0123456789''"

definition digit_value :: "char \<Rightarrow> nat" where
  "digit_value c = of_char c - 48"

lemma isspace_crlf [simp]: "isspace (CHR 0x0D)" "isspace (CHR 0x0A)" "isspace (CHR '' '')"
  by (simp_all add: isspace_def)

lemma isdigit_not_space: "isdigit c \<Longrightarrow> \<not> isspace c"
  by (auto simp: isdigit_def isspace_def)

section \<open>Printing\<close>

function show_nat :: "nat \<Rightarrow> string" where
  "show_nat n =
     (if n < 10 then [''0123456789'' ! n] else show_nat (n div 10) @ [''0123456789'' ! (n mod 10)])"
  by pat_completeness auto
termination
  by (relation "measure id") auto

declare show_nat.simps [simp del]

definition show_int :: "int \<Rightarrow> string" where
  "show_int i = (if i < 0 then CHR ''-'' # show_nat (nat (- i)) else show_nat (nat i))"

section \<open>std::stoi\<close>

datatype stoi_exn = invalid_argument | out_of_range

definition digits_value :: "string \<Rightarrow> nat" where
  "digits_value ds = foldl (\<lambda>v c. 10 * v + digit_value c) 0 ds"

definition int32 :: "int \<Rightarrow> bool" where
  "int32 i \<longleftrightarrow> - (2 ^ 31) \<le> i \<and> i < 2 ^ 31"

text \<open>
  Leading white space, an optional sign, then as many digits as there are; text after them is
  ignored.  No digit throws \<open>invalid_argument\<close>, a value that is no \<open>int\<close> throws \<open>out_of_range\<close>.
\<close>

definition stoi :: "string \<Rightarrow> stoi_exn + int" where
  "stoi s =
     (let s = dropWhile isspace s;
          negative = (case s of c # _ \<Rightarrow> c = CHR ''-'' | [] \<Rightarrow> False);
          s = (case s of c # t \<Rightarrow> if c = CHR ''-'' \<or> c = CHR ''+'' then t else s | [] \<Rightarrow> s);
          ds = takeWhile isdigit s;
          v = (if negative then - int (digits_value ds) else int (digits_value ds))
      in if ds = [] then Inl invalid_argument
         else if \<not> int32 v then Inl out_of_range
         else Inr v)"

section \<open>Lemmas\<close>

lemma digit_char: "d < 10 \<Longrightarrow> isdigit (''0123456789'' ! d) \<and> digit_value (''0123456789'' ! d) = d"
proof -
  have "\<forall>d < 10. isdigit (''0123456789'' ! d) \<and> digit_value (''0123456789'' ! d) = d" by code_simp
  then show "d < 10 \<Longrightarrow> isdigit (''0123456789'' ! d) \<and> digit_value (''0123456789'' ! d) = d" by blast
qed

lemma show_nat_digits: "show_nat n \<noteq> [] \<and> (\<forall>c \<in> set (show_nat n). isdigit c)"
proof (induction n rule: show_nat.induct)
  case (1 n)
  then show ?case by (subst (1 2) show_nat.simps) (auto simp: digit_char simp del: nth_Cons_numeral)
qed

lemma digits_value_show_nat: "digits_value (show_nat n) = n"
proof (induction n rule: show_nat.induct)
  case (1 n)
  show ?case
  proof (cases "n < 10")
    case True
    then show ?thesis by (subst show_nat.simps) (simp add: digits_value_def digit_char)
  next
    case False
    have "digits_value (show_nat n) = 10 * digits_value (show_nat (n div 10)) + n mod 10"
      using False by (subst show_nat.simps) (simp add: digits_value_def digit_char)
    with 1 False show ?thesis by simp
  qed
qed

lemma show_int_chars: "c \<in> set (show_int i) \<Longrightarrow> isdigit c \<or> c = CHR ''-''"
  using show_nat_digits by (auto simp: show_int_def split: if_splits)

lemma show_int_nonempty [simp]: "show_int i \<noteq> []"
  using show_nat_digits by (auto simp: show_int_def)

lemma show_int_no_space: "c \<in> set (show_int i) \<Longrightarrow> \<not> isspace c"
  using show_int_chars isdigit_not_space by (auto simp: isspace_def isdigit_def)

text \<open>Printing and reading back is the identity on \<open>int\<close>, whatever non-digit text follows.\<close>

lemma stoi_show_int:
  assumes "int32 i" and "\<And>c t. rest = c # t \<Longrightarrow> \<not> isdigit c"
  shows "stoi (show_int i @ rest) = Inr i"
proof -
  have tw: "takeWhile isdigit (show_nat n @ rest) = show_nat n" for n
    using show_nat_digits [of n] assms(2) by (cases rest) (auto simp: takeWhile_append2)
  obtain c t where ct: "show_nat (nat i) = c # t" and d: "isdigit c"
    using show_nat_digits [of "nat i"] by (cases "show_nat (nat i)") auto
  from d have "\<not> isspace c" "c \<noteq> CHR ''-''" "c \<noteq> CHR ''+''"
    by (auto simp: isdigit_def isspace_def)
  then have nonneg: "\<not> i < 0 \<Longrightarrow> stoi (show_int i @ rest) = Inr i"
    using tw [of "nat i"] ct assms(1) digits_value_show_nat [of "nat i"] show_nat_digits [of "nat i"]
    by (simp add: stoi_def show_int_def)
  moreover have "i < 0 \<Longrightarrow> stoi (show_int i @ rest) = Inr i"
    using tw [of "nat (- i)"] assms(1) digits_value_show_nat [of "nat (- i)"] show_nat_digits [of "nat (- i)"]
    by (simp add: stoi_def show_int_def isspace_def)
  ultimately show ?thesis by blast
qed

end
