(* ===== verification/Sources.thy ===== *)
theory Sources
  imports AnnexB Text
begin

text \<open>
  The two implementations of \<open>media::NalSource\<close> (src/media/nal_source.hpp): \<open>media::FileSource\<close>
  (src/media/file_source.cpp), which replays a file at a frame rate, and \<open>camera::Source\<close>
  (src/camera/source.cpp), which reads the output of a camera process.  The contract that the
  interface states in its comments is the locale \<open>nal_source\<close>, interpreted for both and for the
  dynamic dispatch between them.
\<close>

section \<open>FileSource\<close>

record FileSource =
  f_path :: string
  f_fps :: int
  f_loop :: bool
  f_file :: "FILE option"
  f_reader :: bytes
  f_next_frame_time :: int

definition FileSource_new :: "string \<Rightarrow> int \<Rightarrow> bool \<Rightarrow> FileSource" where
  "FileSource_new path fps loop =
     \<lparr>f_path = path, f_fps = (if fps > 0 then fps else 30), f_loop = loop, f_file = None,
      f_reader = [], f_next_frame_time = 0\<rparr>"

definition file_start :: "FileSource \<Rightarrow> os \<Rightarrow> bool \<times> FileSource \<times> os" where
  "file_start src w =
     (if f_file src \<noteq> None then (True, src, w)
      else (let src = src\<lparr>f_file := fs_open w (f_path src)\<rparr> in
            if f_file src = None then (False, src, w)
            else (True, src\<lparr>f_reader := reader_reset (f_reader src),
                            f_next_frame_time := clock w (tick w)\<rparr>, ticked w)))"

definition file_stop :: "FileSource \<Rightarrow> FileSource" where
  "file_stop src =
     (if f_file src \<noteq> None
      then src\<lparr>f_file := None, f_reader := reader_reset (f_reader src)\<rparr> else src)"

text \<open>
  The wrapped callback notes whether a coded slice came by and hands the NAL unit on.  The results
  of \<open>read_nal\<close>: the return value, the NAL units handed to the callback, in order, and the time
  until which the call slept, if it did.
\<close>

definition is_vcl :: "bytes \<Rightarrow> bool" where
  "is_vcl nal \<longleftrightarrow>
     (if length nal > 0 then (let nal_type = nal ! 0 AND 0x1F in nal_type = 1 \<or> nal_type = 5)
      else False)"

definition file_pace :: "bytes list \<Rightarrow> FileSource \<Rightarrow> int option \<times> FileSource" where
  "file_pace nals src =
     (let frame_boundary = list_ex is_vcl nals in
      if frame_boundary
      then (let t = f_next_frame_time src + 1000000 div f_fps src
            in (Some t, src\<lparr>f_next_frame_time := t\<rparr>))
      else (None, src))"

definition file_read_nal :: "FileSource \<Rightarrow> bool \<times> bytes list \<times> int option \<times> FileSource" where
  "file_read_nal src =
     (case f_file src of
        None \<Rightarrow> (False, [], None, src)
      | Some _ \<Rightarrow>
          (case read_nal (f_file src) (f_reader src) of
             (ok, nal, buffer, fp) \<Rightarrow>
               (let nals = opt_list nal; src = src\<lparr>f_reader := buffer, f_file := fp\<rparr> in
                if ok then (case file_pace nals src of (slept, src) \<Rightarrow> (True, nals, slept, src))
                else if \<not> f_loop src then (False, nals, None, src)
                else (let src = src\<lparr>f_file := map_option rewind (f_file src),
                                    f_reader := reader_reset (f_reader src)\<rparr> in
                      case read_nal (f_file src) (f_reader src) of
                        (ok, nal, buffer, fp) \<Rightarrow>
                          (let nals = nals @ opt_list nal;
                               src = src\<lparr>f_reader := buffer, f_file := fp\<rparr> in
                           if \<not> ok then (False, nals, None, src)
                           else (case file_pace nals src of
                                   (slept, src) \<Rightarrow> (True, nals, slept, src)))))))"

section \<open>camera::Source\<close>

record CameraSource =
  c_width :: int
  c_height :: int
  c_fps :: int
  c_pipe :: "FILE option"
  c_reader :: bytes

definition CameraSource_new :: "int \<Rightarrow> int \<Rightarrow> int \<Rightarrow> CameraSource" where
  "CameraSource_new width height fps =
     \<lparr>c_width = width, c_height = height, c_fps = fps, c_pipe = None, c_reader = []\<rparr>"

definition camera_command :: "CameraSource \<Rightarrow> string" where
  "camera_command src =
     ''libcamera-vid'' @ '' -t 0''
     @ '' --width '' @ show_int (c_width src)
     @ '' --height '' @ show_int (c_height src)
     @ '' --framerate '' @ show_int (c_fps src)
     @ '' --codec h264'' @ '' --inline'' @ '' -o -'' @ '' 2>/dev/null''"

definition camera_start :: "CameraSource \<Rightarrow> os \<Rightarrow> bool \<times> CameraSource \<times> os" where
  "camera_start src w =
     (if c_pipe src \<noteq> None then (True, src, w)
      else (let src = src\<lparr>c_pipe := sys_popen w (tick w) (camera_command src)\<rparr>; w = ticked w in
            if c_pipe src = None then (False, src, w)
            else (True, src\<lparr>c_reader := reader_reset (c_reader src)\<rparr>, w)))"

definition camera_stop :: "CameraSource \<Rightarrow> CameraSource" where
  "camera_stop src =
     (if c_pipe src \<noteq> None
      then src\<lparr>c_pipe := None, c_reader := reader_reset (c_reader src)\<rparr> else src)"

definition camera_read_nal :: "CameraSource \<Rightarrow> bool \<times> bytes list \<times> int option \<times> CameraSource" where
  "camera_read_nal src =
     (case c_pipe src of
        None \<Rightarrow> (False, [], None, src)
      | Some _ \<Rightarrow>
          (case read_nal (c_pipe src) (c_reader src) of
             (ok, nal, buffer, fp) \<Rightarrow>
               (ok, opt_list nal, None, src\<lparr>c_reader := buffer, c_pipe := fp\<rparr>)))"

section \<open>The virtual calls of NalSource\<close>

datatype NalSource = File_source FileSource | Camera_source CameraSource

fun source_start :: "NalSource \<Rightarrow> os \<Rightarrow> bool \<times> NalSource \<times> os" where
  "source_start (File_source s) w =
     (case file_start s w of (ok, s, w) \<Rightarrow> (ok, File_source s, w))"
| "source_start (Camera_source s) w =
     (case camera_start s w of (ok, s, w) \<Rightarrow> (ok, Camera_source s, w))"

fun source_stop :: "NalSource \<Rightarrow> NalSource" where
  "source_stop (File_source s) = File_source (file_stop s)"
| "source_stop (Camera_source s) = Camera_source (camera_stop s)"

fun source_read_nal :: "NalSource \<Rightarrow> bool \<times> bytes list \<times> int option \<times> NalSource" where
  "source_read_nal (File_source s) =
     (case file_read_nal s of (ok, nals, t, s) \<Rightarrow> (ok, nals, t, File_source s))"
| "source_read_nal (Camera_source s) =
     (case camera_read_nal s of (ok, nals, t, s) \<Rightarrow> (ok, nals, t, Camera_source s))"

fun source_open :: "NalSource \<Rightarrow> bool" where
  "source_open (File_source s) \<longleftrightarrow> f_file s \<noteq> None"
| "source_open (Camera_source s) \<longleftrightarrow> c_pipe s \<noteq> None"

section \<open>The contract\<close>

locale nal_source =
  fixes start :: "'s \<Rightarrow> os \<Rightarrow> bool \<times> 's \<times> os"
    and stop :: "'s \<Rightarrow> 's"
    and next_nals :: "'s \<Rightarrow> bool \<times> bytes list \<times> int option \<times> 's"
    and opened :: "'s \<Rightarrow> bool"
  assumes start_again: "opened s \<Longrightarrow> start s w = (True, s, w)"
    and start_result: "start s w = (ok, s', w') \<Longrightarrow> ok = opened s' \<and> same_host w w' \<and> wire w' = wire w"
    and stop_closes: "\<not> opened (stop s)"
    and stop_again: "\<not> opened s \<Longrightarrow> stop s = s"
    and closed_reads: "\<not> opened s \<Longrightarrow> next_nals s = (False, [], None, s)"
    and opened_stays: "opened s \<Longrightarrow> next_nals s = (ok, nals, t, s') \<Longrightarrow> opened s'"
    and nals_nonempty: "next_nals s = (ok, nals, t, s') \<Longrightarrow> [] \<notin> set nals"
begin

lemma stop_idem [simp]: "stop (stop s) = stop s"
  by (simp add: stop_again stop_closes)

lemma stopped_is_silent: "next_nals (stop s) = (False, [], None, stop s)"
  by (simp add: closed_reads stop_closes)

lemma reads_keep: "next_nals s = (ok, nals, t, s') \<Longrightarrow> opened s' = opened s"
  using opened_stays closed_reads by (cases "opened s") auto

lemma ok_means_open: "next_nals s = (True, nals, t, s') \<Longrightarrow> opened s \<and> opened s'"
  using reads_keep closed_reads by (cases "opened s") auto

lemma start_twice: "start s w = (True, s', w') \<Longrightarrow> start s' w'' = (True, s', w'')"
  using start_result [of s w True s' w'] by (simp add: start_again)

end

lemma read_nal_keeps_stream: "read_nal (Some f) b = (ok, nal, b', fp) \<Longrightarrow> \<exists>f'. fp = Some f' \<and> from_start f' = from_start f"
  by (auto simp: read_nal_def Let_def split: prod.splits option.splits)

lemma read_nal_nonempty: "read_nal fp b = (ok, nal, b', fp') \<Longrightarrow> [] \<notin> set (opt_list nal)"
  by (auto simp: read_nal_def Let_def deliver_def opt_list_def split: prod.splits option.splits if_splits)

lemma file_pace_fields:
  "f_path (snd (file_pace nals s)) = f_path s" "f_fps (snd (file_pace nals s)) = f_fps s"
  "f_loop (snd (file_pace nals s)) = f_loop s" "f_file (snd (file_pace nals s)) = f_file s"
  "f_reader (snd (file_pace nals s)) = f_reader s"
  by (simp_all add: file_pace_def Let_def)

lemma file_pace_result: "file_pace nals s = (t, s') \<Longrightarrow> f_file s' = f_file s \<and> f_reader s' = f_reader s"
  using file_pace_fields(4,5) by (metis snd_conv)

lemma file_reads_open:
  assumes "f_file s \<noteq> None" and "file_read_nal s = (ok, nals, t, s')"
  shows "f_file s' \<noteq> None"
proof -
  obtain f where f: "f_file s = Some f" using assms(1) by blast
  obtain ok1 nal1 b1 fp1 where r1: "read_nal (Some f) (f_reader s) = (ok1, nal1, b1, fp1)"
    by (metis prod_cases4)
  from read_nal_keeps_stream [OF r1] obtain f1 where f1: "fp1 = Some f1" by blast
  obtain ok2 nal2 b2 fp2 where r2: "read_nal (Some (rewind f1)) [] = (ok2, nal2, b2, fp2)"
    by (metis prod_cases4)
  from read_nal_keeps_stream [OF r2] obtain f2 where f2: "fp2 = Some f2" by blast
  show ?thesis
    using assms(2) f r1 f1 r2 f2
    by (auto simp: file_read_nal_def Let_def reader_reset_def split: prod.splits if_splits
        dest!: file_pace_result)
qed

lemma file_nals_nonempty: "file_read_nal s = (ok, nals, t, s') \<Longrightarrow> [] \<notin> set nals"
  by (auto simp: file_read_nal_def Let_def split: prod.splits if_splits option.splits
      dest: read_nal_nonempty)

interpretation file_source: nal_source file_start file_stop file_read_nal "\<lambda>s. f_file s \<noteq> None"
proof (unfold_locales, goal_cases)
  case (2 s w ok s' w')
  then show ?case by (auto simp: file_start_def Let_def split: if_splits)
next
  case (6 s ok nals t s')
  then show ?case by (rule file_reads_open)
next
  case (7 s ok nals t s')
  then show ?case by (rule file_nals_nonempty)
qed (auto simp: file_start_def file_stop_def file_read_nal_def)

lemma camera_reads_open:
  "c_pipe s \<noteq> None \<Longrightarrow> camera_read_nal s = (ok, nals, t, s') \<Longrightarrow> c_pipe s' \<noteq> None"
  by (auto simp: camera_read_nal_def split: prod.splits dest: read_nal_keeps_stream)

lemma camera_nals_nonempty: "camera_read_nal s = (ok, nals, t, s') \<Longrightarrow> [] \<notin> set nals"
  by (auto simp: camera_read_nal_def split: prod.splits option.splits dest: read_nal_nonempty)

interpretation camera_source: nal_source camera_start camera_stop camera_read_nal "\<lambda>s. c_pipe s \<noteq> None"
proof (unfold_locales, goal_cases)
  case (2 s w ok s' w')
  then show ?case by (auto simp: camera_start_def Let_def split: if_splits)
next
  case (6 s ok nals t s')
  then show ?case by (rule camera_reads_open)
next
  case (7 s ok nals t s')
  then show ?case by (rule camera_nals_nonempty)
qed (auto simp: camera_start_def camera_stop_def camera_read_nal_def)

interpretation source: nal_source source_start source_stop source_read_nal source_open
proof (unfold_locales, goal_cases)
  case (1 s w)
  then show ?case by (cases s) (auto simp: file_source.start_again camera_source.start_again)
next
  case (2 s w ok s' w')
  then show ?case
    by (cases s) (auto dest: file_source.start_result camera_source.start_result split: prod.splits)
next
  case (3 s)
  then show ?case using file_source.stop_closes camera_source.stop_closes by (cases s) auto
next
  case (4 s)
  then show ?case by (cases s) (auto simp: file_source.stop_again camera_source.stop_again)
next
  case (5 s)
  then show ?case by (cases s) (auto simp: file_source.closed_reads camera_source.closed_reads)
next
  case (6 s ok nals t s')
  then show ?case
    using file_source.reads_keep camera_source.reads_keep by (cases s) (fastforce split: prod.splits)+
next
  case (7 s ok nals t s')
  then show ?case
    by (cases s) (auto dest: file_source.nals_nonempty camera_source.nals_nonempty split: prod.splits)
qed

section \<open>Replaying a file\<close>

text \<open>Successive calls while the source is alive: the NAL units, whether every call succeeded.\<close>

fun file_play :: "nat \<Rightarrow> FileSource \<Rightarrow> bool \<times> bytes list \<times> FileSource" where
  "file_play 0 src = (True, [], src)"
| "file_play (Suc n) src =
     (case file_read_nal src of
        (ok, nals, _, src) \<Rightarrow>
          (case file_play n src of (oks, rest, src) \<Rightarrow> (ok \<and> oks, nals @ rest, src)))"

text \<open>The source has the NAL units \<open>ys\<close> of its file before it.\<close>

definition positioned :: "FileSource \<Rightarrow> (bool \<times> bytes) list \<Rightarrow> (bool \<times> bytes) list \<Rightarrow> bool" where
  "positioned src xs ys \<longleftrightarrow>
     f_loop src \<and>
     (\<exists>f. f_file src = Some f \<and> concat (from_start f) = annexb_stream xs \<and>
          f_reader src @ concat (reads f) = annexb_stream ys)"

lemma annexb_stream_Cons [simp]: "annexb_stream ((four, nal) # xs) = start_code four @ nal @ annexb_stream xs"
  by (simp add: annexb_stream_def)

lemma read_nal_at_stream:
  assumes "clean_nal nal" and "b @ concat (reads f) = annexb_stream ((four, nal) # ys)"
  shows "\<exists>b' f'. read_nal (Some f) b = (ys \<noteq> [], Some nal, b', Some f') \<and>
     b' @ concat (reads f') = annexb_stream ys \<and> from_start f' = from_start f"
proof -
  obtain ret n b' fp where r: "read_nal (Some f) b = (ret, n, b', fp)" by (metis prod_cases4)
  from read_nal_spec [OF r] obtain f' where f': "fp = Some f'"
    "next_nal (b @ concat (reads f)) = (ret, n, b' @ concat (reads f'))" by blast
  with assms next_nal_stream [OF assms(1), of four ys] read_nal_keeps_stream [OF r] r
  show ?thesis by auto
qed

lemma positioned_step:
  assumes "clean_nal nal" and "positioned src xs ((four, nal) # ys)" and "ys \<noteq> []"
  shows "\<exists>src'. file_read_nal src =
       (True, [nal], fst (file_pace [nal] src), src') \<and> positioned src' xs ys"
proof -
  from assms(2) obtain f where f: "f_file src = Some f" "concat (from_start f) = annexb_stream xs"
    "f_reader src @ concat (reads f) = annexb_stream ((four, nal) # ys)" and loop: "f_loop src"
    by (auto simp: positioned_def)
  from read_nal_at_stream [OF assms(1) f(3)] assms(3) obtain b' f' where
    r: "read_nal (Some f) (f_reader src) = (True, Some nal, b', Some f')"
      "b' @ concat (reads f') = annexb_stream ys" "from_start f' = from_start f" by auto
  show ?thesis
    using f r loop
    by (auto simp: file_read_nal_def Let_def opt_list_def positioned_def file_pace_def
        split: prod.splits if_splits)
qed

lemma positioned_wrap:
  assumes "clean_nal final" and "clean_nal first" and "xs = (four1, first) # ys"
    and "positioned src xs [(four, final)]"
  shows "\<exists>src'. file_read_nal src =
       (if ys \<noteq> [] then (True, [final, first], fst (file_pace [final, first] src), src')
        else (False, [final, first], None, src')) \<and>
     (ys \<noteq> [] \<longrightarrow> positioned src' xs ys \<and> f_next_frame_time src' =
        f_next_frame_time src + (if is_vcl final \<or> is_vcl first then 1000000 div f_fps src else 0))"
proof -
  from assms(4) obtain f where f: "f_file src = Some f" "concat (from_start f) = annexb_stream xs"
    "f_reader src @ concat (reads f) = annexb_stream [(four, final)]" and loop: "f_loop src"
    by (auto simp: positioned_def)
  from read_nal_at_stream [OF assms(1) f(3)] obtain b1 f1 where
    r1: "read_nal (Some f) (f_reader src) = (False, Some final, b1, Some f1)"
      "from_start f1 = from_start f" by auto
  have "[] @ concat (reads (rewind f1)) = annexb_stream ((four1, first) # ys)"
    using f(2) r1(2) assms(3) by (simp add: rewind_def)
  from read_nal_at_stream [OF assms(2) this] obtain b2 f2 where
    r2: "read_nal (Some (rewind f1)) [] = (ys \<noteq> [], Some first, b2, Some f2)"
      "b2 @ concat (reads f2) = annexb_stream ys" "from_start f2 = from_start f"
    using r1(2) by (auto simp: rewind_def)
  show ?thesis
    using f r1 r2 loop
    by (auto simp: file_read_nal_def Let_def opt_list_def positioned_def file_pace_def
        reader_reset_def split: prod.splits if_splits)
qed

text \<open>One call on a looping file: the NAL unit at hand, and with the last one the first again.\<close>

lemma positioned_call:
  assumes "\<forall>(four, nal) \<in> set xs. clean_nal nal" and "2 \<le> length xs" and "positioned src xs (drop j xs)" and "j < length xs"
  shows "\<exists>t s1. file_read_nal src =
       (True, if Suc j < length xs then [snd (xs ! j)] else [snd (xs ! j), snd (xs ! 0)], t, s1) \<and>
     positioned s1 xs (drop (if Suc j < length xs then Suc j else 1) xs)"
proof -
  obtain four nal where x: "xs ! j = (four, nal)" by (cases "xs ! j")
  have drop: "drop j xs = (four, nal) # drop (Suc j) xs" using assms(4) x by (metis Cons_nth_drop_Suc)
  have cl: "clean_nal nal" using assms(1,4) x nth_mem by fastforce
  show ?thesis
  proof (cases "Suc j < length xs")
    case True
    then have "drop (Suc j) xs \<noteq> []" by simp
    from positioned_step [OF cl assms(3) [unfolded drop] this] True x show ?thesis by auto
  next
    case False
    with assms(4) have last: "Suc j = length xs" by simp
    obtain four1 first ys where xs: "xs = (four1, first) # ys" using assms(2) by (cases xs) auto
    with assms(1) have cf: "clean_nal first" by simp
    have ys: "ys \<noteq> []" "ys = drop 1 xs" using assms(2) xs by auto
    have "positioned src xs [(four, nal)]" using assms(3) drop last by simp
    from positioned_wrap [OF cl cf xs this] ys obtain t s1 where
      "file_read_nal src = (True, [nal, first], t, s1)" "positioned s1 xs (drop 1 xs)" by auto
    moreover have "snd (xs ! 0) = first" using xs by simp
    ultimately show ?thesis using False x by simp
  qed
qed

lemma file_play_cycles:
  assumes clean: "\<forall>(four, nal) \<in> set xs. clean_nal nal" and len: "2 \<le> length xs"
  shows "positioned src xs (drop j xs) \<Longrightarrow> j < length xs \<Longrightarrow>
    file_play n src = (oks, nals, src') \<Longrightarrow>
    oks \<and> n \<le> length nals \<and> (\<forall>i < length nals. nals ! i = snd (xs ! ((j + i) mod length xs)))"
proof (induction n arbitrary: src j oks nals src')
  case 0
  then show ?case by simp
next
  case (Suc n)
  from positioned_call [OF clean len Suc.prems(1,2)] obtain t s1 where
    s1: "file_read_nal src = (True, if Suc j < length xs then [snd (xs ! j)] else [snd (xs ! j), snd (xs ! 0)], t, s1)"
    "positioned s1 xs (drop (if Suc j < length xs then Suc j else 1) xs)" by blast
  obtain oks1 nals1 s2 where p: "file_play n s1 = (oks1, nals1, s2)" by (metis prod_cases3)
  have "(if Suc j < length xs then Suc j else 1) < length xs" using len by simp
  note ih = Suc.IH [OF s1(2) this p]
  show ?case
  proof (cases "Suc j < length xs")
    case True
    with ih p s1(1) Suc.prems(2,3) show ?thesis by (auto simp: nth_Cons split: nat.split)
  next
    case False
    then have last: "Suc j = length xs" using Suc.prems(2) by simp
    have nals: "nals = snd (xs ! j) # snd (xs ! 0) # nals1" "oks = oks1" using Suc.prems(3) s1(1) p False by auto
    have "nals ! i = snd (xs ! ((j + i) mod length xs))" if i: "i < length nals" for i
    proof -
      consider "i = 0" | "i = 1" | k where "i = Suc (Suc k)" by (metis One_nat_def not0_implies_Suc)
      then show ?thesis
      proof cases
        case 1
        then show ?thesis using nals Suc.prems(2) by simp
      next
        case 2
        then show ?thesis using nals last by simp
      next
        case 3
        then have "j + i = (1 + k) + length xs" using last by simp
        then have "(j + i) mod length xs = (1 + k) mod length xs" by (metis mod_add_self2)
        then show ?thesis using 3 i ih nals False by simp
      qed
    qed
    with ih nals show ?thesis by simp
  qed
qed

lemma file_play_from_start:
  assumes "\<forall>(four, nal) \<in> set xs. clean_nal nal" and "2 \<le> length xs"
    and "fs_open w path = Some (fopened chunks)" and "concat chunks = annexb_stream xs"
    and "file_start (FileSource_new path fps True) w = (True, src, w')"
    and "file_play n src = (oks, nals, src')"
  shows "oks \<and> n \<le> length nals \<and> (\<forall>i < length nals. nals ! i = snd (xs ! (i mod length xs)))"
proof -
  have "positioned src xs (drop 0 xs)"
    using assms(3-5)
    by (auto simp: file_start_def FileSource_new_def positioned_def reader_reset_def fopened_def)
  moreover have "0 < length xs" using assms(2) by linarith
  ultimately show ?thesis using file_play_cycles [OF assms(1,2) _ _ assms(6), of 0] by simp
qed

text \<open>
  a file source in loop mode never ends: on a file of at least two NAL units every call of
  \<open>read_nal\<close> succeeds and delivers at least one, and the NAL units delivered over any number of
  calls are those of the file in order, over and over, none lost or repeated at the wrap.
\<close>

theorem file_source_cycles:
  assumes "\<forall>(four, nal) \<in> set xs. clean_nal nal" and "2 \<le> length xs"
    and "fs_open w path = Some (fopened chunks)" and "concat chunks = annexb_stream xs"
    and "file_start (FileSource_new path fps True) w = (True, src, w')"
    and "file_play n src = (oks, nals, src')"
  shows "oks \<and> n \<le> length nals \<and> (\<forall>i < length nals. nals ! i = snd (xs ! (i mod length xs)))"
  using assms by (rule file_play_from_start)

lemma file_source_cycles_witness:
  "let w = sample_os\<lparr>fs_open := \<lambda>_. Some (fopened [[0, 0, 1, 0x67, 0], [0, 1, 0x65, 9]])\<rparr>;
       (_, src, _) = file_start (FileSource_new ''a.h264'' 25 True) w;
       (oks, nals, _) = file_play 2 src
   in oks \<and> 2 \<le> length nals \<and>
      (\<forall>i < length nals. nals ! i = snd ([(False, [0x67]), (False, [0x65, 9])] ! (i mod 2)))"
proof -
  let ?w = "sample_os\<lparr>fs_open := \<lambda>_. Some (fopened [[0, 0, 1, 0x67, 0], [0, 1, 0x65, 9]])\<rparr>"
  let ?xs = "[(False, [0x67]), (False, [0x65, 9])]"
  have clean: "\<forall>(four, nal) \<in> set ?xs. clean_nal nal"
    by (simp add: clean_nal_def code_at_def)
  obtain src w' where s: "file_start (FileSource_new ''a.h264'' 25 True) ?w = (True, src, w')"
    by (simp add: file_start_def FileSource_new_def Let_def)
  obtain oks nals src' where p: "file_play 2 src = (oks, nals, src')" by (metis prod_cases3)
  have "fs_open ?w ''a.h264'' = Some (fopened [[0, 0, 1, 0x67, 0], [0, 1, 0x65, 9]])" by simp
  from file_source_cycles [OF clean _ this _ s p] s p show ?thesis
    by (simp add: annexb_stream_def start_code_def numeral_2_eq_2)
qed

text \<open>
  C40: a file of a single NAL unit does not loop, although the source is in loop mode: the first
  call delivers that NAL unit twice and reports the end of the stream.
\<close>

theorem file_single_nal_ends:
  assumes "clean_nal nal" and "fs_open w path = Some (fopened chunks)"
    and "concat chunks = annexb_stream [(four, nal)]"
    and "file_start (FileSource_new path fps True) w = (True, src, w')"
  shows "\<exists>src'. file_read_nal src = (False, [nal, nal], None, src')"
proof -
  have "positioned src [(four, nal)] [(four, nal)]"
    using assms(2-4)
    by (auto simp: file_start_def FileSource_new_def positioned_def reader_reset_def fopened_def)
  from positioned_wrap [OF assms(1,1) _ this, of four "[]"] show ?thesis by auto
qed

lemma file_single_nal_ends_witness:
  "let w = sample_os\<lparr>fs_open := \<lambda>_. Some (fopened [[0, 0, 1, 0x65, 9]])\<rparr>;
       (_, src, _) = file_start (FileSource_new ''one.h264'' 30 True) w
   in \<exists>src'. file_read_nal src = (False, [[0x65, 9], [0x65, 9]], None, src')"
proof -
  let ?w = "sample_os\<lparr>fs_open := \<lambda>_. Some (fopened [[0, 0, 1, 0x65, 9]])\<rparr>"
  obtain src w' where s: "file_start (FileSource_new ''one.h264'' 30 True) ?w = (True, src, w')"
    by (simp add: file_start_def FileSource_new_def Let_def)
  have "clean_nal [0x65, 9]" by (simp add: clean_nal_def code_at_def)
  from file_single_nal_ends [OF this _ _ s, of "[[0, 0, 1, 0x65, 9]]" False] s show ?thesis
    by (simp add: annexb_stream_def start_code_def)
qed

text \<open>
  at the wrap of a looping file one call delivers the last frame and the first, and the clock
  that paces the frames advances by the period of one.
\<close>

theorem file_wrap_paces_once:
  assumes "clean_nal n1" and "clean_nal n2" and "is_vcl n1 \<or> is_vcl n2" and "ys \<noteq> []"
    and "positioned src ((four1, n1) # ys) [(four2, n2)]"
  shows "\<exists>slept src'. file_read_nal src = (True, [n2, n1], slept, src') \<and>
     positioned src' ((four1, n1) # ys) ys \<and>
     f_next_frame_time src' = f_next_frame_time src + 1000000 div f_fps src"
  using positioned_wrap [OF assms(2,1) refl assms(5)] assms(3,4) by auto

lemma file_wrap_paces_once_witness:
  "let f = \<lparr>reads = [], from_start = [[0, 0, 1, 0x65, 1, 0, 0, 1, 0x61, 2]]\<rparr>;
       src = \<lparr>f_path = ''a.h264'', f_fps = 30, f_loop = True, f_file = Some f,
              f_reader = [0, 0, 1, 0x61, 2], f_next_frame_time = 1000\<rparr>
   in \<exists>slept src'. file_read_nal src = (True, [[0x61, 2], [0x65, 1]], slept, src') \<and>
        f_next_frame_time src' = 34333"
proof -
  let ?f = "\<lparr>reads = [], from_start = [[0, 0, 1, 0x65, 1, 0, 0, 1, 0x61, 2]]\<rparr>"
  let ?src = "\<lparr>f_path = ''a.h264'', f_fps = 30, f_loop = True, f_file = Some ?f,
              f_reader = [0, 0, 1, 0x61, 2], f_next_frame_time = 1000\<rparr>"
  have c: "clean_nal [0x65, 1]" "clean_nal [0x61, 2]" by (simp_all add: clean_nal_def code_at_def)
  have v: "is_vcl [0x65, 1] \<or> is_vcl [0x61, 2]" by code_simp
  have p: "positioned ?src ((False, [0x65, 1]) # [(False, [0x61, 2])]) [(False, [0x61, 2])]"
    by (simp add: positioned_def annexb_stream_def start_code_def)
  from file_wrap_paces_once [OF c v _ p] show ?thesis by auto
qed

lemma file_read_nal_paces:
  assumes "file_read_nal src = (ok, nals, slept, src')"
  defines "t \<equiv> f_next_frame_time src + 1000000 div f_fps src"
  shows "f_fps src' = f_fps src \<and>
    (if ok \<and> list_ex is_vcl nals then slept = Some t \<and> f_next_frame_time src' = t
     else slept = None \<and> f_next_frame_time src' = f_next_frame_time src)"
  using assms
  by (auto simp: file_read_nal_def file_pace_def Let_def split: option.splits prod.splits if_splits)

text \<open>The results of \<open>n\<close> calls, failed ones included.\<close>

fun file_calls :: "nat \<Rightarrow> FileSource \<Rightarrow> (bool \<times> bytes list \<times> int option) list" where
  "file_calls 0 src = []"
| "file_calls (Suc n) src =
     (case file_read_nal src of (ok, nals, slept, src) \<Rightarrow> (ok, nals, slept) # file_calls n src)"

text \<open>
  The calls that succeed with a coded slice, and no others, sleep, each until one period after the one
  before, however long sending and reading take.
\<close>

lemma file_sleeps:
  "List.map_filter (\<lambda>(ok, nals, slept). slept) (file_calls n src) =
     map (\<lambda>k. f_next_frame_time src + int (Suc k) * (1000000 div f_fps src))
       [0..<length (filter (\<lambda>(ok, nals, slept). ok \<and> list_ex is_vcl nals) (file_calls n src))] \<and>
   list_all (\<lambda>(ok, nals, slept). (slept \<noteq> None) = (ok \<and> list_ex is_vcl nals)) (file_calls n src)"
proof (induction n arbitrary: src)
  case 0
  then show ?case by (simp add: List.map_filter_def)
next
  case (Suc n)
  obtain ok nals slept s1 where r: "file_read_nal src = (ok, nals, slept, s1)" by (metis prod_cases4)
  note one = file_read_nal_paces [OF r]
  let ?p = "1000000 div f_fps src"
  show ?case
  proof (cases "ok \<and> list_ex is_vcl nals")
    case True
    with one have s1: "slept = Some (f_next_frame_time src + ?p)" "f_fps s1 = f_fps src"
      "f_next_frame_time s1 = f_next_frame_time src + ?p" by simp_all
    have "map (\<lambda>k. f_next_frame_time src + int (Suc k) * ?p) [0..<Suc m] =
        (f_next_frame_time src + ?p) # map (\<lambda>k. f_next_frame_time s1 + int (Suc k) * (1000000 div f_fps s1)) [0..<m]" for m
      unfolding s1 by (simp add: upt_conv_Cons map_Suc_upt [symmetric] algebra_simps del: upt_Suc)
    then show ?thesis using Suc.IH [of s1] True s1(1) r by (simp add: List.map_filter_simps)
  next
    case False
    with one have "slept = None" "f_fps s1 = f_fps src" "f_next_frame_time s1 = f_next_frame_time src"
      by (simp_all split: if_splits)
    then show ?thesis using Suc.IH [of s1] False r by (auto simp: List.map_filter_simps)
  qed
qed

text \<open>The calls on a looping file: how often it is gone round, and how many slices come without a sleep.\<close>

definition delivered :: "(bool \<times> bytes list \<times> int option) list \<Rightarrow> bytes list" where
  "delivered cs = concat (map (\<lambda>(ok, nals, slept). nals) cs)"

lemma delivered_simps [simp]: "delivered [] = []" "delivered ((ok, nals, slept) # cs) = nals @ delivered cs"
  by (simp_all add: delivered_def)

lemma file_calls_play:
  "\<exists>src'. file_play n src = (list_all (\<lambda>(ok, nals, slept). ok) (file_calls n src), delivered (file_calls n src), src')"
proof (induction n arbitrary: src)
  case 0
  then show ?case by simp
next
  case (Suc n)
  obtain ok nals t s1 where r: "file_read_nal src = (ok, nals, t, s1)" by (metis prod_cases4)
  from Suc.IH [of s1] r show ?case by auto
qed

lemma file_rounds:
  assumes clean: "\<forall>(four, nal) \<in> set xs. clean_nal nal" and len: "2 \<le> length xs"
  defines "both \<equiv> is_vcl (snd (xs ! 0)) \<and> is_vcl (snd (last xs))"
  shows "positioned src xs (drop j xs) \<Longrightarrow> j < length xs \<Longrightarrow>
    list_all (\<lambda>(ok, nals, slept). ok) (file_calls n src) \<and>
    length (delivered (file_calls n src)) = n + (n + j - 1) div (length xs - 1) \<and>
    length (filter (\<lambda>(ok, nals, slept). ok \<and> list_ex is_vcl nals) (file_calls n src)) +
      (if both then (n + j - 1) div (length xs - 1) else 0) = length (filter is_vcl (delivered (file_calls n src)))"
proof (induction n arbitrary: src j)
  case 0
  then have "j - 1 < length xs - 1" using len by simp
  then show ?case by simp
next
  case (Suc n)
  from positioned_call [OF clean len Suc.prems] obtain t s1 where
    s1: "file_read_nal src = (True, if Suc j < length xs then [snd (xs ! j)] else [snd (xs ! j), snd (xs ! 0)], t, s1)"
    "positioned s1 xs (drop (if Suc j < length xs then Suc j else 1) xs)" by blast
  have "(if Suc j < length xs then Suc j else 1) < length xs" using len by simp
  note ih = Suc.IH [OF s1(2) this]
  show ?case
  proof (cases "Suc j < length xs")
    case True
    with ih s1(1) show ?thesis by (auto simp: both_def)
  next
    case False
    then have j: "j = length xs - 1" using Suc.prems(2) by simp
    have last: "xs ! j = last xs" using len j by (subst last_conv_nth) auto
    have "Suc n + j - 1 = n + (length xs - 1)" using j by simp
    moreover have "(n + (length xs - 1)) div (length xs - 1) = n div (length xs - 1) + 1"
      using len by (intro div_add_self2) simp
    ultimately have "(Suc n + j - 1) div (length xs - 1) = Suc (n div (length xs - 1))" by simp
    with ih s1(1) False last show ?thesis by (auto simp: both_def)
  qed
qed

text \<open>
  C39: the pace of a looping file.  Its NAL units come round and round in their order, a call sleeps
  exactly when it delivered a coded slice, and the \<open>k\<close>-th of these sleeps lasts until exactly \<open>k\<close> periods
  of \<open>1000000 div fps\<close> microseconds after the start, however long sending and reading took: no delay adds
  up.  But the call that goes round delivers the last NAL unit and the first on one period: when both
  are coded slices, the schedule is one period short for every round, so that \<open>m\<close> slices take \<open>m\<close>
  periods less one for each round, and not the \<open>m\<close> that src/media/file_source.hpp promises.
\<close>

theorem frames_paced:
  assumes "\<forall>(four, nal) \<in> set xs. clean_nal nal" and "2 \<le> length xs"
    and "positioned src xs (drop j xs)" and "j < length xs"
  shows "let cs = file_calls n src; nals = delivered cs; rounds = (n + j - 1) div (length xs - 1);
       short = (if is_vcl (snd (xs ! 0)) \<and> is_vcl (snd (last xs)) then rounds else 0)
     in length nals = n + rounds \<and> (\<forall>i < length nals. nals ! i = snd (xs ! ((j + i) mod length xs))) \<and>
       list_all (\<lambda>(ok, nals, slept). ok \<and> (slept \<noteq> None) = list_ex is_vcl nals) cs \<and>
       List.map_filter (\<lambda>(ok, nals, slept). slept) cs =
         map (\<lambda>k. f_next_frame_time src + int (Suc k) * (1000000 div f_fps src))
           [0..<length (filter is_vcl nals) - short]"
proof -
  let ?cs = "file_calls n src" and ?rounds = "(n + j - 1) div (length xs - 1)"
  let ?short = "if is_vcl (snd (xs ! 0)) \<and> is_vcl (snd (last xs)) then ?rounds else 0"
  note count = file_rounds [OF assms, of n]
  have k: "length (filter (\<lambda>(ok, nals, slept). ok \<and> list_ex is_vcl nals) ?cs) = length (filter is_vcl (delivered ?cs)) - ?short"
    using count by linarith
  have sleeps: "List.map_filter (\<lambda>(ok, nals, slept). slept) ?cs =
      map (\<lambda>k. f_next_frame_time src + int (Suc k) * (1000000 div f_fps src)) [0..<length (filter is_vcl (delivered ?cs)) - ?short]"
    using file_sleeps [of n src] unfolding k by (rule conjunct1)
  have each: "list_all (\<lambda>(ok, nals, slept). ok \<and> (slept \<noteq> None) = list_ex is_vcl nals) ?cs"
    using count file_sleeps [of n src] by (auto simp: list_all_iff)
  obtain src' where play: "file_play n src = (list_all (\<lambda>(ok, nals, slept). ok) ?cs, delivered ?cs, src')"
    using file_calls_play by blast
  from file_play_cycles [OF assms play] count each sleeps show ?thesis by (simp add: Let_def)
qed

lemma frames_paced_witness:
  "let f = \<lparr>reads = [], from_start = [[0, 0, 1, 0x65, 1, 0, 0, 1, 0x61, 2]]\<rparr>;
       src = \<lparr>f_path = ''a.h264'', f_fps = 30, f_loop = True, f_file = Some f,
              f_reader = [0, 0, 1, 0x61, 2], f_next_frame_time = 1000\<rparr>
   in length (delivered (file_calls 2 src)) = 4 \<and> delivered (file_calls 2 src) ! 1 = [0x65, 1] \<and>
        List.map_filter (\<lambda>(ok, nals, slept). slept) (file_calls 2 src) =
          map (\<lambda>k. 1000 + int (Suc k) * 33333) [0..<length (filter is_vcl (delivered (file_calls 2 src))) - 2]"
proof -
  let ?f = "\<lparr>reads = [], from_start = [[0, 0, 1, 0x65, 1, 0, 0, 1, 0x61, 2]]\<rparr>"
  let ?src = "\<lparr>f_path = ''a.h264'', f_fps = 30, f_loop = True, f_file = Some ?f,
              f_reader = [0, 0, 1, 0x61, 2], f_next_frame_time = 1000\<rparr>"
  let ?xs = "[(False, [0x65, 1]), (False, [0x61, 2])] :: (bool \<times> bytes) list"
  have c: "\<forall>(four, nal) \<in> set ?xs. clean_nal nal" by (simp add: clean_nal_def code_at_def)
  have v: "is_vcl [0x65, 1]" "is_vcl [0x61, 2]" by code_simp+
  have p: "positioned ?src ?xs (drop 1 ?xs)" by (simp add: positioned_def annexb_stream_def start_code_def)
  have l: "2 \<le> length ?xs" "1 < length ?xs" by simp_all
  from frames_paced [OF c l(1) p l(2), of 2] v show ?thesis by (simp add: Let_def)
qed

end
