(* ===== verification/Net.thy ===== *)
theory Net
  imports Os
begin

text \<open>
  The socket wrappers: \<open>net::UdpSocket\<close> (src/net/udp_socket.cpp) and \<open>net::TcpListener\<close>,
  \<open>net::TcpConnection\<close> (src/net/tcp_socket.cpp).  What the code adds to the system calls is
  modelled: the checks before them, the retry loops, the ownership of the descriptor.
\<close>

section \<open>UdpSocket\<close>

text \<open>The destination that \<open>connect\<close> stores in the kernel is the field \<open>udp_peer\<close>.\<close>

record UdpSocket =
  udp_fd :: int
  udp_peer :: "address option"

text \<open>The constructor calls \<open>socket\<close>, the destructor \<open>close\<close>, unless there is nothing to close.\<close>

definition UdpSocket_new :: "os \<Rightarrow> UdpSocket \<times> os" where
  "UdpSocket_new w =
     (let fd = sys_fd w (tick w); w = ticked w
      in (\<lparr>udp_fd = fd, udp_peer = None\<rparr>,
          if fd < 0 then w else w\<lparr>udp_log := udp_log w @ [Opened fd]\<rparr>))"

definition UdpSocket_delete :: "UdpSocket \<Rightarrow> os \<Rightarrow> os" where
  "UdpSocket_delete sock w =
     (if udp_fd sock \<ge> 0 then w\<lparr>udp_log := udp_log w @ [Closed (udp_fd sock)]\<rparr> else w)"

definition udp_connect_to :: "UdpSocket \<Rightarrow> string \<Rightarrow> 16 word \<Rightarrow> os \<Rightarrow> bool \<times> UdpSocket \<times> os" where
  "udp_connect_to sock host port w =
     (if udp_fd sock < 0 then (False, sock, w)
      else if \<not> pton_ok w host then (False, sock, w)
      else if \<not> sys_ok w (tick w) then (False, sock, ticked w)
      else (True, sock\<lparr>udp_peer := Some (host, port)\<rparr>, ticked w))"

text \<open>\<open>bind\<close> to a local port, 0 for any; nothing in the program calls it.\<close>

definition udp_bind :: "UdpSocket \<Rightarrow> 16 word \<Rightarrow> os \<Rightarrow> bool \<times> os" where
  "udp_bind sock port w = (if udp_fd sock < 0 then (False, w) else (sys_ok w (tick w), ticked w))"

text \<open>
  \<open>::send\<close> on a datagram socket sends everything or fails; without a stored destination it fails.
  The result is the number of bytes sent or -1.
\<close>

definition udp_send :: "UdpSocket \<Rightarrow> bytes \<Rightarrow> os \<Rightarrow> int \<times> os" where
  "udp_send sock buf w =
     (if udp_fd sock < 0 then (-1, w)
      else (case udp_peer sock of
              None \<Rightarrow> (-1, ticked w)
            | Some peer \<Rightarrow>
                if sys_ok w (tick w)
                then (int (length buf), (ticked w)\<lparr>wire := wire w @ [(peer, buf)]\<rparr>)
                else (-1, ticked w)))"

section \<open>TcpListener\<close>

text \<open>
  The constructor's sequence \<open>socket\<close>, \<open>setsockopt\<close>, \<open>bind\<close>, \<open>listen\<close>: the arguments are the
  descriptor that \<open>socket\<close> returned and whether the three later calls succeed; the result is the
  field \<open>fd_\<close> and the descriptors that were closed.
\<close>

definition TcpListener_new :: "int \<Rightarrow> bool \<Rightarrow> bool \<Rightarrow> bool \<Rightarrow> int \<times> int list" where
  "TcpListener_new socket_result setsockopt_ok bind_ok listen_ok =
     (let fd = socket_result in
      if fd < 0 then (fd, [])
      else if \<not> setsockopt_ok then (-1, [fd])
      else if \<not> bind_ok then (-1, [fd])
      else if \<not> listen_ok then (-1, [fd])
      else (fd, []))"

text \<open>The destructors of \<open>TcpListener\<close> and \<open>TcpConnection\<close> are the same.\<close>

definition close_fd :: "int \<Rightarrow> int list" where
  "close_fd fd = (if fd \<ge> 0 then [fd] else [])"

definition accept_one :: "int \<Rightarrow> int" where
  "accept_one accept_result = (if accept_result < 0 then -1 else accept_result)"

section \<open>TcpConnection\<close>

text \<open>
  \<open>peer_ip\<close>: \<open>peername\<close> is what \<open>getpeername\<close> answers, as \<open>inet_ntop\<close> prints it.
\<close>

definition peer_ip :: "int \<Rightarrow> string option \<Rightarrow> string" where
  "peer_ip fd peername =
     (if fd < 0 then [] else (case peername of None \<Rightarrow> [] | Some ip_str \<Rightarrow> ip_str))"

text \<open>
  One result of a \<open>read\<close> or \<open>write\<close> system call: a count (with the data, for a read), an
  interruption, or an error.  Writing to a connection that the peer has closed is \<open>BrokenPipe\<close>: the
  kernel raises \<open>SIGPIPE\<close>, which the program neither ignores nor blocks, and whose default action
  ends the process.  The loops consume the results of the successive calls; when the list ends the
  call has not come back yet.
\<close>

datatype sys_write = Wrote nat | WriteEINTR | WriteError | BrokenPipe
datatype sys_read = Got string | ReadEINTR | ReadError

datatype 'a call = Returned 'a | Blocked | Killed

fun tcp_read :: "sys_read list \<Rightarrow> (int \<times> string) call" where
  "tcp_read (ReadEINTR # rs) = tcp_read rs"
| "tcp_read (ReadError # rs) = Returned (-1, [])"
| "tcp_read (Got data # rs) = Returned (int (length data), data)"
| "tcp_read [] = Blocked"

text \<open>
  \<open>ptr\<close> and \<open>remaining\<close> of the loop are the text still to be sent; the second result is what the
  kernel has taken.
\<close>

fun tcp_write_loop :: "nat \<Rightarrow> string \<Rightarrow> string \<Rightarrow> sys_write list \<Rightarrow> int call \<times> string" where
  "tcp_write_loop len rest taken rs =
     (if rest = [] then (Returned (int len), taken)
      else (case rs of
              [] \<Rightarrow> (Blocked, taken)
            | WriteEINTR # rs' \<Rightarrow> tcp_write_loop len rest taken rs'
            | WriteError # rs' \<Rightarrow> (Returned (-1), taken)
            | BrokenPipe # rs' \<Rightarrow> (Killed, taken)
            | Wrote n # rs' \<Rightarrow> tcp_write_loop len (drop n rest) (taken @ take n rest) rs'))"

definition tcp_write :: "string \<Rightarrow> sys_write list \<Rightarrow> int call \<times> string" where
  "tcp_write buf rs = tcp_write_loop (length buf) buf [] rs"

section \<open>Lemmas\<close>

declare tcp_write_loop.simps [simp del]

lemma udp_send_host [state_simps]: "same_host w (snd (udp_send sock buf w))"
  by (simp add: udp_send_def same_host_def ticked_def split: option.split)

lemma udp_send_log [state_simps]: "udp_log (snd (udp_send sock buf w)) = udp_log w"
  by (simp add: udp_send_def split: option.split)

lemma UdpSocket_delete_fields [simp]:
  "same_host w (UdpSocket_delete sock w)" "wire (UdpSocket_delete sock w) = wire w"
  "tick (UdpSocket_delete sock w) = tick w"
  by (simp_all add: UdpSocket_delete_def same_host_def)

lemma UdpSocket_new_fields [simp]:
  "same_host w (snd (UdpSocket_new w))" "wire (snd (UdpSocket_new w)) = wire w"
  "tick (snd (UdpSocket_new w)) = Suc (tick w)"
  by (simp_all add: UdpSocket_new_def Let_def same_host_def ticked_def)

lemma udp_connect_host [state_simps]: "same_host w (snd (snd (udp_connect_to sock host port w)))"
  by (simp add: udp_connect_to_def same_host_def ticked_def)

lemma udp_connect_fd [state_simps]:
  "udp_fd (fst (snd (udp_connect_to sock host port w))) = udp_fd sock"
  by (simp add: udp_connect_to_def)

text \<open>
  A send that does not report failure put exactly one datagram on the wire, to the stored peer;
  a failed one put none.
\<close>

lemma udp_send_wire:
  "udp_send sock buf w = (r, w') \<Longrightarrow>
   (r < 0 \<and> wire w' = wire w) \<or>
   (0 \<le> r \<and> (\<exists>peer. udp_peer sock = Some peer \<and> wire w' = wire w @ [(peer, buf)]))"
  by (auto simp: udp_send_def split: if_splits option.splits)

lemma tcp_write_loop_taken:
  "tcp_write_loop len rest taken rs = (out, sent) \<Longrightarrow>
   \<exists>more. sent = taken @ more \<and> (\<exists>rest'. rest = more @ rest' \<and>
     (rest' = [] \<longleftrightarrow> out = Returned (int len)) \<and> (out = Returned (int len) \<or> out = Returned (-1) \<or> out = Blocked \<or> out = Killed))"
proof (induction len rest taken rs rule: tcp_write_loop.induct)
  case (1 len rest taken rs)
  show ?case
  proof (cases "rest = []")
    case True
    with "1.prems" show ?thesis by (simp add: tcp_write_loop.simps)
  next
    case False
    show ?thesis
    proof (cases rs)
      case Nil
      with False "1.prems" show ?thesis by (auto simp: tcp_write_loop.simps [of len rest])
    next
      case (Cons r rs')
      show ?thesis
      proof (cases r)
        case (Wrote n)
        with False Cons "1.prems"
        have "tcp_write_loop len (drop n rest) (taken @ take n rest) rs' = (out, sent)"
          by (simp add: tcp_write_loop.simps [of len rest])
        from "1.IH"(1) [OF False Cons Wrote this] show ?thesis
          by (metis append.assoc append_take_drop_id)
      next
        case WriteEINTR
        with False Cons "1.prems" have "tcp_write_loop len rest taken rs' = (out, sent)"
          by (simp add: tcp_write_loop.simps [of len rest])
        from "1.IH"(2) [OF False Cons WriteEINTR this] show ?thesis .
      next
        case WriteError
        with False Cons "1.prems" show ?thesis by (auto simp: tcp_write_loop.simps [of len rest])
      next
        case BrokenPipe
        with False Cons "1.prems" show ?thesis by (auto simp: tcp_write_loop.simps [of len rest])
      qed
    qed
  qed
qed

fun accepted :: "sys_write list \<Rightarrow> nat" where
  "accepted [] = 0"
| "accepted (Wrote n # rs) = n + accepted rs"
| "accepted (_ # rs) = accepted rs"

lemma tcp_write_loop_complete:
  "WriteError \<notin> set rs \<Longrightarrow> BrokenPipe \<notin> set rs \<Longrightarrow> length rest \<le> accepted rs \<Longrightarrow>
   tcp_write_loop len rest taken rs = (Returned (int len), taken @ rest)"
proof (induction len rest taken rs rule: tcp_write_loop.induct)
  case (1 len rest taken rs)
  show ?case
  proof (cases "rest = []")
    case True
    then show ?thesis by (simp add: tcp_write_loop.simps)
  next
    case False
    with "1.prems" obtain r rs' where rs: "rs = r # rs'" by (cases rs) auto
    show ?thesis
    proof (cases r)
      case (Wrote n)
      with rs "1.prems" have "length (drop n rest) \<le> accepted rs'" "WriteError \<notin> set rs'" "BrokenPipe \<notin> set rs'"
        by auto
      from "1.IH"(1) [OF False rs Wrote this(2,3,1)] show ?thesis
        using False rs Wrote by (simp add: tcp_write_loop.simps [of len rest])
    next
      case WriteEINTR
      with rs "1.prems" have "length rest \<le> accepted rs'" "WriteError \<notin> set rs'" "BrokenPipe \<notin> set rs'"
        by auto
      from "1.IH"(2) [OF False rs WriteEINTR this(2,3,1)] show ?thesis
        using False rs WriteEINTR by (simp add: tcp_write_loop.simps [of len rest])
    next
      case WriteError
      with rs "1.prems"(1) show ?thesis by simp
    next
      case BrokenPipe
      with rs "1.prems"(2) show ?thesis by simp
    qed
  qed
qed

section \<open>Properties\<close>

text \<open>
  \<open>TcpConnection::write\<close> neither skips nor repeats a byte.  Whatever the kernel answers, what
  it has taken is a prefix of the message; the call reports the full length exactly when that
  prefix is the message, and otherwise it reports -1, has not returned, or the process has died.
\<close>

theorem tcp_write_prefix:
  "tcp_write buf rs = (out, sent) \<Longrightarrow>
   \<exists>rest. buf = sent @ rest \<and> (rest = [] \<longleftrightarrow> out = Returned (int (length buf))) \<and>
     (out = Returned (int (length buf)) \<or> out = Returned (-1) \<or> out = Blocked \<or> out = Killed)"
  unfolding tcp_write_def by (drule tcp_write_loop_taken) auto

theorem tcp_write_prefix_witness:
  "\<exists>rest. ''abc'' = ''ab'' @ rest \<and> (rest = [] \<longleftrightarrow> Returned (-1) = Returned (int (length ''abc''))) \<and>
     (Returned (-1 :: int) = Returned (int (length ''abc'')) \<or> Returned (-1 :: int) = Returned (-1) \<or>
      Returned (-1 :: int) = Blocked \<or> Returned (-1 :: int) = Killed)"
  by (rule tcp_write_prefix [of "''abc''" "[WriteEINTR, Wrote 2, WriteError]"])
     (simp add: tcp_write_def tcp_write_loop.simps)

text \<open>
  \<open>TcpConnection::write\<close> finishes.  Partial writes and interruptions are no obstacle: as soon
  as the kernel has accepted as many bytes as the message has, without an error, the call has
  returned the message's length and the whole message has been taken.
\<close>

theorem tcp_write_completes:
  assumes "WriteError \<notin> set rs" and "BrokenPipe \<notin> set rs" and "length buf \<le> accepted rs"
  shows "tcp_write buf rs = (Returned (int (length buf)), buf)"
  using tcp_write_loop_complete [OF assms] by (simp add: tcp_write_def)

theorem tcp_write_completes_witness:
  "tcp_write ''hello'' [Wrote 2, WriteEINTR, Wrote 3] = (Returned 5, ''hello'')"
  using tcp_write_completes [of "[Wrote 2, WriteEINTR, Wrote 3]" "''hello''"] by simp

text \<open>
  The listener owns its descriptor.  After the constructor either \<open>fd\<close> is the descriptor that
  \<open>socket\<close> returned, still open, and all three set-up calls succeeded, or \<open>fd\<close> is negative and a
  descriptor obtained from \<open>socket\<close> has been closed exactly once; construction and destruction
  together close every obtained descriptor exactly once.
\<close>

theorem listener_owns_fd:
  "(case TcpListener_new s a b c of (fd, closed) \<Rightarrow>
      (0 \<le> fd \<longleftrightarrow> 0 \<le> s \<and> a \<and> b \<and> c) \<and> (0 \<le> fd \<longrightarrow> fd = s \<and> closed = []) \<and>
      closed @ close_fd fd = (if 0 \<le> s then [s] else []))"
  by (auto simp: TcpListener_new_def close_fd_def Let_def)

end
