(* ===== verification/Packetizer.thy ===== *)
theory Packetizer
  imports Prelude
begin

text \<open>
  \<open>veda::rtp::write_header\<close> and \<open>build_packet\<close> (src/rtp/packetizer.cpp): the RTP fixed header of
  RFC 3550, twelve bytes in network byte order, and the packet made of it and a payload.  A write
  or a read outside a buffer is \<open>None\<close>; the lemmas show that \<open>build_packet\<close> makes none.
\<close>

section \<open>The code\<close>

record Header =
  payload_type :: "8 word"
  sequence :: "16 word"
  timestamp :: "32 word"
  ssrc :: "32 word"
  marker :: bool

definition kRtpHeaderSize :: nat where
  "kRtpHeaderSize = 12"

text \<open>The buffer \<open>out\<close> is written in place at the offsets 0 to 11.\<close>

definition write_header :: "Header \<Rightarrow> bytes \<Rightarrow> bytes option" where
  "write_header h out =
     (if length out < 12 then None
      else Some (out
        [0 := 0x80,
         1 := (if marker h then 0x80 else 0x00) OR (payload_type h AND 0x7F),
         2 := ucast (drop_bit 8 (sequence h) AND 0xFF),
         3 := ucast (sequence h AND 0xFF),
         4 := ucast (drop_bit 24 (timestamp h) AND 0xFF),
         5 := ucast (drop_bit 16 (timestamp h) AND 0xFF),
         6 := ucast (drop_bit 8 (timestamp h) AND 0xFF),
         7 := ucast (timestamp h AND 0xFF),
         8 := ucast (drop_bit 24 (ssrc h) AND 0xFF),
         9 := ucast (drop_bit 16 (ssrc h) AND 0xFF),
         10 := ucast (drop_bit 8 (ssrc h) AND 0xFF),
         11 := ucast (ssrc h AND 0xFF)]))"

text \<open>
  \<open>payload\<close> is the pointer (\<open>None\<close> is \<open>nullptr\<close>) to an array of bytes and \<open>payload_len\<close> the length
  passed with it.  The vector starts as zeros, so a null payload of positive length leaves zeros.
\<close>

definition build_packet :: "Header \<Rightarrow> bytes option \<Rightarrow> nat \<Rightarrow> bytes option" where
  "build_packet h payload payload_len =
     (case write_header h (replicate (kRtpHeaderSize + payload_len) 0) of
        None \<Rightarrow> None
      | Some packet \<Rightarrow>
          (case payload of
             None \<Rightarrow> Some packet
           | Some p \<Rightarrow>
               if payload_len > 0
               then (if payload_len \<le> length p
                     then Some (take kRtpHeaderSize packet @ take payload_len p
                                @ drop (kRtpHeaderSize + payload_len) packet)
                     else None)
               else Some packet))"

section \<open>The receiver of RFC 3550\<close>

definition be16 :: "byte \<Rightarrow> byte \<Rightarrow> 16 word" where
  "be16 b1 b0 = push_bit 8 (ucast b1) OR ucast b0"

definition be32 :: "byte \<Rightarrow> byte \<Rightarrow> byte \<Rightarrow> byte \<Rightarrow> 32 word" where
  "be32 b3 b2 b1 b0 = push_bit 24 (ucast b3) OR push_bit 16 (ucast b2) OR push_bit 8 (ucast b1) OR ucast b0"

text \<open>The reference parser: version 2, no padding, no extension, no CSRC; big-endian fields.\<close>

fun parse_rtp :: "bytes \<Rightarrow> (Header \<times> bytes) option" where
  "parse_rtp (b0 # b1 # s1 # s0 # t3 # t2 # t1 # t0 # c3 # c2 # c1 # c0 # payload) =
     (if b0 = 0x80
      then Some (\<lparr> payload_type = b1 AND 0x7F,
                   sequence = be16 s1 s0,
                   timestamp = be32 t3 t2 t1 t0,
                   ssrc = be32 c3 c2 c1 c0,
                   marker = bit b1 7 \<rparr>, payload)
      else None)"
| "parse_rtp _ = None"

section \<open>Lemmas\<close>

definition header_bytes :: "Header \<Rightarrow> bytes" where
  "header_bytes h =
     [0x80, (if marker h then 0x80 else 0x00) OR (payload_type h AND 0x7F),
      ucast (drop_bit 8 (sequence h) AND 0xFF), ucast (sequence h AND 0xFF),
      ucast (drop_bit 24 (timestamp h) AND 0xFF), ucast (drop_bit 16 (timestamp h) AND 0xFF),
      ucast (drop_bit 8 (timestamp h) AND 0xFF), ucast (timestamp h AND 0xFF),
      ucast (drop_bit 24 (ssrc h) AND 0xFF), ucast (drop_bit 16 (ssrc h) AND 0xFF),
      ucast (drop_bit 8 (ssrc h) AND 0xFF), ucast (ssrc h AND 0xFF)]"

lemma length_header_bytes [simp]: "length (header_bytes h) = 12"
  by (simp add: header_bytes_def)

lemma byte_masks:
  "(0xFF :: 16 word) = mask 8" "(0xFF :: 32 word) = mask 8" "(0x7F :: byte) = mask 7"
  by (simp_all add: mask_eq_exp_minus_1)

lemma be16_split [wire_simps]:
  "be16 (ucast (drop_bit 8 s AND 0xFF)) (ucast (s AND 0xFF)) = s"
  unfolding be16_def byte_masks by (rule bit_word_eqI) (auto simp: bit_simps)

lemma be32_split [wire_simps]:
  "be32 (ucast (drop_bit 24 s AND 0xFF)) (ucast (drop_bit 16 s AND 0xFF))
     (ucast (drop_bit 8 s AND 0xFF)) (ucast (s AND 0xFF)) = s" (is "?l = _")
proof (rule bit_word_eqI)
  fix n assume "n < LENGTH(32)"
  then consider "n < 8" | "8 \<le> n" "n < 16" | "16 \<le> n" "n < 24" | "24 \<le> n" "n < 32"
    by fastforce
  then show "bit ?l n = bit s n"
    unfolding be32_def byte_masks by cases (auto simp: bit_simps)
qed

lemma marker_payload_type_byte [wire_simps]:
  fixes p :: byte
  shows "((if m then 0x80 else 0x00) OR (p AND 0x7F)) AND 0x7F = p AND 0x7F"
    and "bit ((if m then 0x80 else 0x00) OR (p AND 0x7F)) 7 = m"
proof -
  show "((if m then 0x80 else 0x00) OR (p AND 0x7F)) AND 0x7F = p AND 0x7F"
    by (simp add: bit.conj_disj_distrib2 and.assoc)
  show "bit ((if m then 0x80 else 0x00) OR (p AND 0x7F)) 7 = m"
    unfolding byte_masks by (simp add: bit_simps)
qed

lemma twelve_cells:
  assumes "length xs = 12"
  obtains a0 a1 a2 a3 a4 a5 a6 a7 a8 a9 a10 a11
    where "xs = [a0, a1, a2, a3, a4, a5, a6, a7, a8, a9, a10, a11]"
  using assms by (auto simp: numeral_eq_Suc length_Suc_conv)

lemma write_header_bytes [wire_simps]:
  assumes "12 \<le> length out"
  shows "write_header h out = Some (header_bytes h @ drop 12 out)"
proof -
  have "length (take 12 out) = 12" using assms by simp
  then obtain a0 a1 a2 a3 a4 a5 a6 a7 a8 a9 a10 a11
    where "take 12 out = [a0, a1, a2, a3, a4, a5, a6, a7, a8, a9, a10, a11]"
    by (rule twelve_cells)
  then obtain post where "out = [a0, a1, a2, a3, a4, a5, a6, a7, a8, a9, a10, a11] @ post"
    by (metis append_take_drop_id)
  then show ?thesis by (simp add: write_header_def header_bytes_def)
qed

lemma build_packet_bytes [wire_simps]:
  "build_packet h (Some p) (length p) = Some (header_bytes h @ p)"
  by (auto simp: build_packet_def kRtpHeaderSize_def write_header_bytes)

lemma build_packet_null [wire_simps]:
  "build_packet h None n = Some (header_bytes h @ replicate n 0)"
  by (simp add: build_packet_def kRtpHeaderSize_def write_header_bytes)

lemma parse_header_bytes [wire_simps]:
  "parse_rtp (header_bytes h @ p) = Some (h\<lparr>payload_type := payload_type h AND 0x7F\<rparr>, p)"
  by (simp add: header_bytes_def wire_simps)

section \<open>Properties\<close>

text \<open>
  C36: What goes on the wire is what the streamer asked for.  Building a packet from a header and
  the whole of a payload buffer stays inside its buffers, the datagram is twelve bytes longer than
  the payload, and an RFC 3550 receiver reads back every header field and the payload; of the
  payload type only the seven bits that the field has.
\<close>

theorem rtp_packet_roundtrip:
  "\<exists>pkt. build_packet h (Some p) (length p) = Some pkt \<and> length pkt = 12 + length p \<and>
         parse_rtp pkt = Some (h\<lparr>payload_type := payload_type h AND 0x7F\<rparr>, p)"
  by (simp add: build_packet_bytes parse_header_bytes)

end
