(* ===== verification/Fragmentation.thy ===== *)
theory Fragmentation
  imports Prelude
begin

text \<open>
  \<open>veda::rtp::fragment_nal\<close> (src/rtp/h264_fua.cpp): cutting an H.264 NAL unit into RTP payloads,
  as it is when it fits into the MTU and as FU-A fragments of RFC 6184 otherwise.
  The loop of the code is a \<open>partial_function\<close>: \<open>None\<close> is "does not return".
\<close>

section \<open>The code\<close>

definition kDefaultMtu :: nat where
  "kDefaultMtu = 1400"

text \<open>The FU header byte: the NAL type, S on the first fragment, E on the last.\<close>

definition fu_header :: "byte \<Rightarrow> bool \<Rightarrow> bool \<Rightarrow> byte" where
  "fu_header nal_type is_first is_last =
     (let h = nal_type;
          h = (if is_first then h OR 0x80 else h);
          h = (if is_last then h OR 0x40 else h)
      in h)"

partial_function (option) fragment_loop ::
  "byte \<Rightarrow> byte \<Rightarrow> nat \<Rightarrow> bytes \<Rightarrow> nat \<Rightarrow> bool \<Rightarrow> bytes list \<Rightarrow> bytes list option" where
  "fragment_loop fu_indicator nal_type max_payload payload offset is_first fragments =
     (if offset < length payload
      then (let chunk_size = min max_payload (length payload - offset);
                is_last = (offset + chunk_size \<ge> length payload);
                fragment = fu_indicator # fu_header nal_type is_first is_last
                           # take chunk_size (drop offset payload)
            in fragment_loop fu_indicator nal_type max_payload payload
                 (offset + chunk_size) False (fragments @ [fragment]))
      else Some fragments)"

text \<open>A null pointer and a zero length both take the first exit.\<close>

definition fragment_nal :: "bytes \<Rightarrow> nat \<Rightarrow> bytes list option" where
  "fragment_nal nal mtu =
     (case nal of
        [] \<Rightarrow> Some []
      | nal_header # payload \<Rightarrow>
          if length nal \<le> mtu then Some [nal]
          else (let nal_type = nal_header AND 0x1F;
                    fnri = nal_header AND 0xE0;
                    fu_indicator = fnri OR 28
                in fragment_loop fu_indicator nal_type (size_sub mtu 2) payload 0 True []))"

section \<open>The receiver of RFC 6184\<close>

text \<open>
  Reassembly as the RFC states it: a payload whose type is not 28 is a NAL unit by itself; a run of
  FU-A fragments starts with S, ends with the one fragment that has E, and the NAL header is put
  together from the indicator and the FU header.
\<close>

fun fu_collect :: "byte \<Rightarrow> byte \<Rightarrow> bytes list \<Rightarrow> bytes option" where
  "fu_collect ind ty ((i # h # data) # fs) =
     (if i = ind \<and> h AND 0x1F = ty \<and> \<not> bit h 7
      then (if bit h 6 then (if fs = [] then Some data else None)
            else map_option ((@) data) (fu_collect ind ty fs))
      else None)"
| "fu_collect ind ty _ = None"

fun depacketize :: "bytes list \<Rightarrow> bytes option" where
  "depacketize ((i # rest) # fs) =
     (if i AND 0x1F = 28
      then (case rest of
              [] \<Rightarrow> None
            | h # data \<Rightarrow>
                if bit h 7 \<and> \<not> bit h 6
                then map_option (\<lambda>d. ((i AND 0xE0) OR (h AND 0x1F)) # data @ d)
                       (fu_collect i (h AND 0x1F) fs)
                else None)
      else if fs = [] then Some (i # rest) else None)"
| "depacketize _ = None"

section \<open>The loop as a list of chunks\<close>

function chunks :: "nat \<Rightarrow> 'a list \<Rightarrow> 'a list list" where
  "chunks n xs = (if n = 0 \<or> xs = [] then [] else take n xs # chunks n (drop n xs))"
  by pat_completeness auto
termination
  by (relation "measure (\<lambda>(n, xs). length xs)") auto

declare chunks.simps [simp del]

lemma chunks_Nil [simp]: "chunks n [] = []"
  by (simp add: chunks.simps)

lemma chunks_step: "0 < n \<Longrightarrow> xs \<noteq> [] \<Longrightarrow> chunks n xs = take n xs # chunks n (drop n xs)"
  by (simp add: chunks.simps [of n xs])

lemma chunks_eq_Nil: "0 < n \<Longrightarrow> chunks n xs = [] \<longleftrightarrow> xs = []"
  by (cases "xs = []") (simp_all add: chunks_step)

lemma concat_chunks: "0 < n \<Longrightarrow> concat (chunks n xs) = xs"
proof (induction n xs rule: chunks.induct)
  case (1 n xs)
  then show ?case by (cases "xs = []") (simp_all add: chunks_step)
qed

lemma chunks_size: "c \<in> set (chunks n xs) \<Longrightarrow> c \<noteq> [] \<and> length c \<le> n"
proof (induction n xs rule: chunks.induct)
  case (1 n xs)
  then show ?case
    by (cases "n = 0 \<or> xs = []") (auto simp: chunks.simps [of n xs])
qed

lemma length_chunks: "0 < n \<Longrightarrow> length (chunks n xs) = (length xs + n - 1) div n"
proof (induction n xs rule: chunks.induct)
  case (1 n xs)
  show ?case
  proof (cases "xs = []")
    case True
    with "1.prems" show ?thesis by simp
  next
    case False
    with 1 have l: "length (chunks n xs) = Suc ((length xs - n + n - 1) div n)"
      by (simp add: chunks_step)
    show ?thesis
    proof (cases "n \<le> length xs")
      case True
      then have "length xs + n - 1 = (length xs - 1) + n" using False by (cases xs) auto
      then have "(length xs + n - 1) div n = Suc ((length xs - 1) div n)"
        using "1.prems" by (simp only: div_add_self2)
      with l True show ?thesis by simp
    next
      case nle: False
      have "(length xs + n - 1) div n = 1"
        using False nle by (cases xs) (auto intro!: div_nat_eqI)
      moreover have "(n - 1) div n = 0" using "1.prems" by simp
      ultimately show ?thesis using l nle by simp
    qed
  qed
qed

text \<open>The fragments of a list of chunks: E on the last one, S as given for the first.\<close>

fun fu_fragments :: "byte \<Rightarrow> byte \<Rightarrow> bool \<Rightarrow> bytes list \<Rightarrow> bytes list" where
  "fu_fragments ind ty is_first [] = []"
| "fu_fragments ind ty is_first (c # cs) =
     (ind # fu_header ty is_first (cs = []) # c) # fu_fragments ind ty False cs"

lemma fragment_loop_chunks:
  assumes "0 < m"
  shows "fragment_loop ind ty m payload offset first acc =
         Some (acc @ fu_fragments ind ty first (chunks m (drop offset payload)))"
proof (induction "length payload - offset" arbitrary: offset first acc rule: less_induct)
  case less
  show ?case
  proof (cases "offset < length payload")
    case False
    then show ?thesis by (simp add: fragment_loop.simps)
  next
    case True
    define k where "k = min m (length payload - offset)"
    have k: "0 < k" "offset + k \<le> length payload" using True assms by (auto simp: k_def)
    have "length payload - (offset + k) < length payload - offset" using True k by simp
    note IH = less [OF this]
    have tk: "take k (drop offset payload) = take m (drop offset payload)"
      by (simp add: k_def min_def)
    have dr: "chunks m (drop (offset + k) payload) = chunks m (drop m (drop offset payload))"
      by (cases "m \<le> length payload - offset") (simp_all add: k_def min_def add.commute)
    have last: "(length payload \<le> offset + k) = (chunks m (drop (offset + k) payload) = [])"
      using assms by (simp add: chunks_eq_Nil)
    have "chunks m (drop offset payload) =
          take k (drop offset payload) # chunks m (drop (offset + k) payload)"
      using assms True by (simp add: chunks_step tk dr)
    then show ?thesis
      using True IH last by (simp add: fragment_loop.simps [of ind ty m payload offset] Let_def
        flip: k_def)
  qed
qed

section \<open>The bytes of a fragment\<close>

text \<open>Facts about one byte are decided bit by bit: a byte has eight.\<close>

lemma byte_eqI:
  fixes x y :: byte
  assumes "bit x 0 = bit y 0" "bit x 1 = bit y 1" "bit x 2 = bit y 2" "bit x 3 = bit y 3"
    "bit x 4 = bit y 4" "bit x 5 = bit y 5" "bit x 6 = bit y 6" "bit x 7 = bit y 7"
  shows "x = y"
proof (rule bit_word_eqI)
  fix n assume "n < LENGTH(8)"
  then consider "n = 0" | "n = 1" | "n = 2" | "n = 3" | "n = 4" | "n = 5" | "n = 6" | "n = 7"
    by fastforce
  then show "bit x n = bit y n" using assms by cases simp_all
qed

lemma fu_header_bits [wire_simps]:
  fixes x :: byte
  shows "fu_header (x AND 0x1F) f l AND 0x1F = x AND 0x1F"
    and "bit (fu_header (x AND 0x1F) f l) 7 = f"
    and "bit (fu_header (x AND 0x1F) f l) 6 = l"
    and "\<not> bit (fu_header (x AND 0x1F) f l) 5"
  by (auto simp: fu_header_def Let_def bit_simps intro!: byte_eqI)

lemma fu_indicator_bits [wire_simps]:
  fixes x :: byte
  shows "((x AND 0xE0) OR 28) AND 0x1F = 28"
    and "((x AND 0xE0) OR 28) AND 0xE0 = x AND 0xE0"
    and "(x AND 0xE0) OR (x AND 0x1F) = x"
  by (auto simp: bit_simps intro!: byte_eqI)

lemma length_fu_fragments [simp]: "length (fu_fragments ind ty f cs) = length cs"
  by (induction cs arbitrary: f) auto

lemma fu_fragments_nth:
  "i < length cs \<Longrightarrow> fu_fragments ind ty f cs ! i =
     ind # fu_header ty (f \<and> i = 0) (Suc i = length cs) # cs ! i"
proof (induction cs arbitrary: f i)
  case Nil
  then show ?case by simp
next
  case (Cons c cs)
  then show ?case by (cases i) auto
qed

lemma fragment_nal_single:
  "nal \<noteq> [] \<Longrightarrow> length nal \<le> mtu \<Longrightarrow> fragment_nal nal mtu = Some [nal]"
  by (cases nal) (simp_all add: fragment_nal_def)

lemma fragment_nal_split:
  assumes "mtu < length (h # payload)" and "3 \<le> mtu" and "mtu < 2 ^ 64"
  shows "fragment_nal (h # payload) mtu =
     Some (fu_fragments ((h AND 0xE0) OR 28) (h AND 0x1F) True (chunks (mtu - 2) payload))"
  using assms by (simp add: fragment_nal_def size_sub_no_wrap fragment_loop_chunks)

lemma fu_collect_fragments:
  "cs \<noteq> [] \<Longrightarrow>
   fu_collect ind (x AND 0x1F) (fu_fragments ind (x AND 0x1F) False cs) = Some (concat cs)"
proof (induction cs)
  case Nil
  then show ?case by simp
next
  case (Cons c cs)
  then show ?case by (cases cs) (simp_all add: wire_simps)
qed

lemma depacketize_fragments:
  "depacketize (fu_fragments ((x AND 0xE0) OR 28) (x AND 0x1F) True (c1 # c2 # cs)) =
   Some (x # concat (c1 # c2 # cs))"
  using fu_collect_fragments [of "c2 # cs" "(x AND 0xE0) OR 28" x]
  by (simp add: wire_simps del: fu_collect.simps concat.simps) simp

lemma two_chunks:
  assumes "0 < n" and "n < length xs"
  obtains c1 c2 cs where "chunks n xs = c1 # c2 # cs"
proof -
  from assms have "xs \<noteq> []" and "drop n xs \<noteq> []" by auto
  with assms(1) have "chunks n xs = take n xs # take n (drop n xs) # chunks n (drop n (drop n xs))"
    by (metis chunks_step)
  then show ?thesis by (rule that)
qed

lemma split_fragments:
  assumes "3 \<le> mtu" and "mtu < 2 ^ 64" and "mtu < length nal"
  obtains h payload where "nal = h # payload" and "2 \<le> length (chunks (mtu - 2) payload)"
    and "fragment_nal nal mtu =
      Some (fu_fragments ((h AND 0xE0) OR 28) (h AND 0x1F) True (chunks (mtu - 2) payload))"
proof -
  obtain h payload where nal: "nal = h # payload" using assms(3) by (cases nal) auto
  have "0 < mtu - 2" "mtu - 2 < length payload" using assms(1,3) nal by simp_all
  then obtain c1 c2 cs where "chunks (mtu - 2) payload = c1 # c2 # cs" by (rule two_chunks)
  then have "2 \<le> length (chunks (mtu - 2) payload)" by simp
  then show ?thesis using nal assms by (intro that) (simp_all add: fragment_nal_split)
qed

lemma fragment_nal_many:
  "3 \<le> mtu \<Longrightarrow> mtu < 2 ^ 64 \<Longrightarrow> mtu < length nal \<Longrightarrow>
   \<exists>fs. fragment_nal nal mtu = Some fs \<and> 2 \<le> length fs"
  by (erule (2) split_fragments) auto

lemma fragment_loop_zero: "offset < length payload \<Longrightarrow> fragment_loop ind ty 0 payload offset f acc = None"
proof (rule ccontr)
  assume lt: "offset < length payload"
    and "fragment_loop ind ty 0 payload offset f acc \<noteq> None"
  then obtain r where ret: "fragment_loop ind ty 0 payload offset f acc = Some r" by blast
  let ?P = "\<lambda>(ind :: byte) (ty :: byte) m (payload :: bytes) offset (f :: bool) (acc :: bytes list) (r :: bytes list).
    m = (0::nat) \<longrightarrow> \<not> offset < length payload"
  have "?P ind ty 0 payload offset f acc r"
  proof (rule fragment_loop.raw_induct [where P = ?P, OF _ ret])
    fix loop ind ty m payload offset f acc and r :: "bytes list"
    assume IH: "\<And>ind ty m payload offset f acc r. loop ind ty m payload offset f acc = Some r \<Longrightarrow>
        ?P ind ty m payload offset f acc r"
      and eq: "(if offset < length payload
        then (let chunk_size = min m (length payload - offset);
                  is_last = (offset + chunk_size \<ge> length payload);
                  fragment = ind # fu_header ty f is_last # take chunk_size (drop offset payload)
              in loop ind ty m payload (offset + chunk_size) False (acc @ [fragment]))
        else Some acc) = Some r"
    show "?P ind ty m payload offset f acc r"
    proof (intro impI notI)
      assume "m = 0" and "offset < length payload"
      with eq have "loop ind ty 0 payload offset False
          (acc @ [ind # fu_header ty f False # []]) = Some r"
        by (simp add: Let_def not_le)
      from IH [OF this] \<open>offset < length payload\<close> show False by simp
    qed
  qed
  with lt show False by simp
qed

lemma reassembles:
  assumes "nal \<noteq> []" and "hd nal AND 0x1F \<noteq> 28" and "3 \<le> mtu" and "mtu < 2 ^ 64"
  shows "\<exists>fs. fragment_nal nal mtu = Some fs \<and> depacketize fs = Some nal"
proof (cases "length nal \<le> mtu")
  case True
  with assms show ?thesis by (cases nal) (simp_all add: fragment_nal_single)
next
  case False
  obtain h payload where nal: "nal = h # payload" using assms(1) by (cases nal) auto
  have "0 < mtu - 2" and "mtu - 2 < length payload" using False assms(3) nal by simp_all
  then obtain c1 c2 cs where cs: "chunks (mtu - 2) payload = c1 # c2 # cs"
    by (rule two_chunks)
  have "concat (chunks (mtu - 2) payload) = payload"
    using \<open>0 < mtu - 2\<close> by (rule concat_chunks)
  with cs False assms(3,4) nal show ?thesis
    by (simp add: fragment_nal_split depacketize_fragments del: fu_fragments.simps depacketize.simps)
qed

lemma fragment_size:
  assumes "3 \<le> mtu" and "mtu < 2 ^ 64" and "fragment_nal nal mtu = Some fs" and "f \<in> set fs"
  shows "f \<noteq> [] \<and> length f \<le> mtu"
proof (cases nal)
  case Nil
  with assms show ?thesis by (simp add: fragment_nal_def)
next
  case (Cons h payload)
  show ?thesis
  proof (cases "length nal \<le> mtu")
    case True
    with Cons assms(3,4) show ?thesis by (auto simp: fragment_nal_single)
  next
    case False
    with Cons assms(1-3)
    have fs: "fs = fu_fragments ((h AND 0xE0) OR 28) (h AND 0x1F) True (chunks (mtu - 2) payload)"
      by (simp add: fragment_nal_split)
    with assms(4) obtain i where "i < length (chunks (mtu - 2) payload)" "f = fs ! i"
      by (auto simp: in_set_conv_nth)
    moreover from this have "length (chunks (mtu - 2) payload ! i) \<le> mtu - 2"
      by (meson chunks_size nth_mem)
    ultimately show ?thesis using fs assms(1) by (simp add: fu_fragments_nth)
  qed
qed

lemma reassemble_default:
  "nal \<noteq> [] \<Longrightarrow> hd nal AND 0x1F \<noteq> 28 \<Longrightarrow> \<exists>fs. fragment_nal nal 1400 = Some fs \<and> depacketize fs = Some nal"
  by (rule reassembles) simp_all

lemma fragment_size_le:
  "3 \<le> mtu \<Longrightarrow> mtu < 2 ^ 64 \<Longrightarrow> fragment_nal nal mtu = Some fs \<Longrightarrow> f \<in> set fs \<Longrightarrow> length f \<le> mtu"
  using fragment_size by blast

section \<open>Properties\<close>

text \<open>
  C38: The fragmentation loop ends, except at an MTU of exactly two, where a fragment has no room
  for data and the loop never advances.  Below two the subtraction \<open>mtu - 2\<close> wraps around and
  everything goes into one fragment.  The server only uses the MTU 1400.
\<close>

theorem fragment_nal_terminates:
  assumes "mtu < 2 ^ 64"
  shows "fragment_nal nal mtu = None \<longleftrightarrow> mtu = 2 \<and> 2 < length nal"
proof (cases nal)
  case Nil
  then show ?thesis by (simp add: fragment_nal_def)
next
  case (Cons h payload)
  have "size_sub mtu 2 = 0 \<longleftrightarrow> mtu = 2"
    using assms by (intro size_sub_eq_0_iff) simp_all
  then show ?thesis
    using Cons
    by (cases payload) (auto simp: fragment_nal_def fragment_loop_zero fragment_loop_chunks)
qed

theorem fragment_nal_terminates_witness:
  "(1400 :: nat) < 2 ^ 64 \<and> fragment_nal [0x65, 0x88, 0x84] 1400 \<noteq> None"
  using fragment_nal_terminates [of 1400 "[0x65, 0x88, 0x84]"] by simp

text \<open>
  C15: Nothing is lost or reordered.  For every NAL unit whose own type is not the one reserved for
  FU-A and every MTU that leaves room for data, an RFC 6184 receiver given the fragments in order
  returns the NAL unit, header byte included.
\<close>

theorem fragment_reassemble:
  assumes "nal \<noteq> []" and "hd nal AND 0x1F \<noteq> 28" and "3 \<le> mtu" and "mtu < 2 ^ 64"
  shows "\<exists>fs. fragment_nal nal mtu = Some fs \<and> depacketize fs = Some nal"
  using assms by (rule reassembles)

theorem fragment_reassemble_witness:
  "\<exists>fs. fragment_nal [0x65, 1, 2, 3, 4] 4 = Some fs \<and> depacketize fs = Some [0x65, 1, 2, 3, 4]"
  by (rule fragment_reassemble) simp_all

text \<open>
  No fragment is too big or empty.  With an MTU of at least three every payload handed to RTP
  has between one and \<open>mtu\<close> bytes.
\<close>

theorem fragment_size_bounds:
  assumes "3 \<le> mtu" and "mtu < 2 ^ 64" and "fragment_nal nal mtu = Some fs" and "f \<in> set fs"
  shows "f \<noteq> [] \<and> length f \<le> mtu"
  using assms by (rule fragment_size)

theorem fragment_size_bounds_witness:
  "[0x65, 7] \<noteq> ([] :: bytes) \<and> length [0x65 :: byte, 7] \<le> 1400"
  by (rule fragment_size_bounds [of 1400 "[0x65, 7]" "[[0x65, 7]]"])
     (simp_all add: fragment_nal_single)

text \<open>
  The layout of a split NAL unit.  A NAL longer than the MTU becomes
  \<open>ceiling ((length nal - 1) / (mtu - 2))\<close> fragments, at least two; every one carries type 28 with
  the NAL's F and NRI bits, the NAL's type in the FU header with the reserved bit clear; S is set
  on exactly the first and E on exactly the last.
\<close>

theorem fu_a_layout:
  assumes "3 \<le> mtu" and "mtu < 2 ^ 64" and "mtu < length nal"
  shows "\<exists>fs. fragment_nal nal mtu = Some fs \<and> 2 \<le> length fs \<and>
     length fs = (length nal - 1 + (mtu - 2) - 1) div (mtu - 2) \<and>
     (\<forall>i < length fs. \<exists>ind fuh data. fs ! i = ind # fuh # data \<and>
        ind AND 0x1F = 28 \<and> ind AND 0xE0 = hd nal AND 0xE0 \<and> fuh AND 0x1F = hd nal AND 0x1F \<and>
        \<not> bit fuh 5 \<and> bit fuh 7 = (i = 0) \<and> bit fuh 6 = (Suc i = length fs))"
proof -
  obtain h payload where nal: "nal = h # payload" and two: "2 \<le> length (chunks (mtu - 2) payload)"
    and frag: "fragment_nal nal mtu =
      Some (fu_fragments ((h AND 0xE0) OR 28) (h AND 0x1F) True (chunks (mtu - 2) payload))"
    using assms by (rule split_fragments)
  let ?fs = "fu_fragments ((h AND 0xE0) OR 28) (h AND 0x1F) True (chunks (mtu - 2) payload)"
  have "length ?fs = (length nal - 1 + (mtu - 2) - 1) div (mtu - 2)"
    using nal assms(1) by (simp add: length_chunks)
  moreover have "\<forall>i < length ?fs. \<exists>ind fuh data. ?fs ! i = ind # fuh # data \<and>
        ind AND 0x1F = 28 \<and> ind AND 0xE0 = hd nal AND 0xE0 \<and> fuh AND 0x1F = hd nal AND 0x1F \<and>
        \<not> bit fuh 5 \<and> bit fuh 7 = (i = 0) \<and> bit fuh 6 = (Suc i = length ?fs)"
    by (simp add: fu_fragments_nth wire_simps nal)
  ultimately show ?thesis using frag two by auto
qed

theorem fu_a_layout_witness:
  "\<exists>fs. fragment_nal [0x65, 1, 2, 3, 4] 4 = Some fs \<and> 2 \<le> length fs \<and> length fs = (5 - 1 + (4 - 2) - 1) div (4 - 2 :: nat)"
  using fu_a_layout [of 4 "[0x65, 1, 2, 3, 4]"] by auto

end
