(* ===== verification/Streaming.thy ===== *)
theory Streaming
  imports Net Packetizer Fragmentation
begin

text \<open>
  \<open>rtp::Streamer\<close> (src/rtp/streamer.cpp): one client's RTP session.  It cuts a NAL unit into RTP
  payloads, puts a header in front of each and sends the packets as datagrams.
\<close>

section \<open>The code\<close>

record Streamer =
  socket :: UdpSocket
  connected :: bool
  st_sequence :: "16 word"
  st_timestamp :: "32 word"
  st_ssrc :: "32 word"
  st_payload_type :: "8 word"

text \<open>The constructor opens the UDP socket and draws the SSRC and the first sequence number.\<close>

definition Streamer_new :: "os \<Rightarrow> Streamer \<times> os" where
  "Streamer_new w =
     (let (sock, w) = UdpSocket_new w;
          (r, w) = draw w;
          (q, w) = draw w
      in (\<lparr>socket = sock, connected = False, st_sequence = ucast q, st_timestamp = 0,
           st_ssrc = r, st_payload_type = 96\<rparr>, w))"

text \<open>The destructor, the default one, closes the socket.\<close>

definition Streamer_delete :: "Streamer \<Rightarrow> os \<Rightarrow> os" where
  "Streamer_delete st w = UdpSocket_delete (socket st) w"

definition streamer_connect :: "Streamer \<Rightarrow> string \<Rightarrow> 16 word \<Rightarrow> os \<Rightarrow> bool \<times> Streamer \<times> os" where
  "streamer_connect st client_ip client_rtp_port w =
     (let (ok, sock, w) = udp_connect_to (socket st) client_ip client_rtp_port w in
      if \<not> ok then (False, st\<lparr>socket := sock\<rparr>, w)
      else (True, st\<lparr>socket := sock, connected := True\<rparr>, w))"

text \<open>
  The loop over the fragments; \<open>sequence_++\<close> happens when the header is filled in, before the send.
  A \<open>None\<close> of \<open>build_packet\<close> would be an access outside a buffer; it does not occur.
\<close>

fun send_fragments :: "Streamer \<Rightarrow> bytes list \<Rightarrow> os \<Rightarrow> bool \<times> Streamer \<times> os" where
  "send_fragments st [] w = (True, st, w)"
| "send_fragments st (payload # rest) w =
     (let is_last = (rest = []);
          hdr = \<lparr>payload_type = st_payload_type st, sequence = st_sequence st,
                 timestamp = st_timestamp st, ssrc = st_ssrc st, marker = is_last\<rparr>;
          st = st\<lparr>st_sequence := st_sequence st + 1\<rparr>
      in case build_packet hdr (Some payload) (length payload) of
           None \<Rightarrow> (False, st, w)
         | Some packet \<Rightarrow>
             (let (sent, w) = udp_send (socket st) packet w in
              if sent < 0 then (False, st, w) else send_fragments st rest w))"

text \<open>
  \<open>send_nal\<close> cuts with the default MTU, where the fragmentation loop always ends
  (lemma \<open>default_mtu_returns\<close>); the \<open>None\<close> case is not taken.
\<close>

definition send_nal :: "Streamer \<Rightarrow> bytes \<Rightarrow> os \<Rightarrow> bool \<times> Streamer \<times> os" where
  "send_nal st nal w =
     (if \<not> connected st \<or> nal = [] then (False, st, w)
      else (case fragment_nal nal kDefaultMtu of
              None \<Rightarrow> (False, st, w)
            | Some fragments \<Rightarrow>
                if fragments = [] then (False, st, w) else send_fragments st fragments w))"

definition advance_timestamp :: "Streamer \<Rightarrow> 32 word \<Rightarrow> Streamer" where
  "advance_timestamp st increment = st\<lparr>st_timestamp := st_timestamp st + increment\<rparr>"

text \<open>For tests; nothing in the program calls it.\<close>

definition set_ssrc :: "Streamer \<Rightarrow> 32 word \<Rightarrow> Streamer" where
  "set_ssrc st x = st\<lparr>st_ssrc := x\<rparr>"

section \<open>The packets of a list of payloads\<close>

fun packets_of :: "Streamer \<Rightarrow> bytes list \<Rightarrow> bytes list" where
  "packets_of st [] = []"
| "packets_of st (p # ps) =
     (header_bytes \<lparr>payload_type = st_payload_type st, sequence = st_sequence st,
        timestamp = st_timestamp st, ssrc = st_ssrc st, marker = (ps = [])\<rparr> @ p)
     # packets_of (st\<lparr>st_sequence := st_sequence st + 1\<rparr>) ps"

lemma length_packets_of [simp]: "length (packets_of st ps) = length ps"
  by (induction ps arbitrary: st) auto

lemma packets_of_nth:
  "i < length ps \<Longrightarrow> packets_of st ps ! i =
     header_bytes \<lparr>payload_type = st_payload_type st, sequence = st_sequence st + of_nat i,
        timestamp = st_timestamp st, ssrc = st_ssrc st, marker = (Suc i = length ps)\<rparr> @ ps ! i"
proof (induction ps arbitrary: st i)
  case Nil
  then show ?case by simp
next
  case (Cons p ps)
  then show ?case by (cases i) (auto simp: algebra_simps)
qed

text \<open>
  The effect of the loop, success or not: a prefix of the packets is on the wire, all of them
  exactly when it reports success, and the sequence number has moved by one per packet tried.
\<close>

lemma send_fragments_effect:
  assumes "send_fragments st ps w = (ok, st', w')" and "udp_peer (socket st) = Some peer"
  shows "\<exists>k \<le> length ps. wire w' = wire w @ map (Pair peer) (take k (packets_of st ps)) \<and>
     (ok \<longleftrightarrow> k = length ps) \<and>
     st' = st\<lparr>st_sequence := st_sequence st + of_nat (if ok then k else Suc k)\<rparr>"
  using assms
proof (induction st ps w rule: send_fragments.induct)
  case (1 st w)
  then show ?case by simp
next
  case (2 st payload rest w)
  let ?st = "st\<lparr>st_sequence := st_sequence st + 1\<rparr>"
  let ?hdr = "\<lparr>payload_type = st_payload_type st, sequence = st_sequence st,
                 timestamp = st_timestamp st, ssrc = st_ssrc st, marker = (rest = [])\<rparr>"
  let ?pkt = "header_bytes ?hdr @ payload"
  obtain r w1 where snd: "udp_send (socket st) ?pkt w = (r, w1)" by fastforce
  show ?case
  proof (cases "r < 0")
    case True
    with 2 snd udp_send_wire [OF snd] show ?thesis
      by (intro exI [of _ 0]) (auto simp: Let_def build_packet_bytes)
  next
    case False
    with udp_send_wire [OF snd] "2.prems"(2) have w1: "wire w1 = wire w @ [(peer, ?pkt)]" by auto
    from False snd "2.prems"(1) have go: "send_fragments ?st rest w1 = (ok, st', w')"
      by (simp add: Let_def build_packet_bytes)
    have "udp_peer (socket ?st) = Some peer" using "2.prems"(2) by simp
    with "2.IH" [of "rest = []" ?hdr ?st ?pkt "(r, w1)" r w1] go False snd
    obtain k where k: "k \<le> length rest"
      "wire w' = wire w1 @ map (Pair peer) (take k (packets_of ?st rest))"
      "ok \<longleftrightarrow> k = length rest"
      "st' = ?st\<lparr>st_sequence := st_sequence ?st + of_nat (if ok then k else Suc k)\<rparr>"
      by (auto simp: build_packet_bytes)
    then show ?thesis
      by (intro exI [of _ "Suc k"]) (auto simp: w1)
  qed
qed

lemma default_mtu_returns: "\<exists>fs. fragment_nal nal kDefaultMtu = Some fs"
proof -
  have "fragment_nal nal kDefaultMtu \<noteq> None"
    by (cases nal) (auto simp: fragment_nal_def kDefaultMtu_def fragment_loop_chunks size_sub_no_wrap)
  then show ?thesis by simp
qed

lemma parse_packets_of:
  "map parse_rtp (packets_of st ps) =
   map Some (zip (map (\<lambda>i. \<lparr>payload_type = st_payload_type st AND 0x7F,
       sequence = st_sequence st + of_nat i, timestamp = st_timestamp st, ssrc = st_ssrc st,
       marker = (Suc i = length ps)\<rparr>) [0..<length ps]) ps)"
  by (rule nth_equalityI) (simp_all add: packets_of_nth parse_header_bytes)

lemma packets_of_size:
  assumes "\<And>p. p \<in> set ps \<Longrightarrow> length p \<le> n" and "pkt \<in> set (packets_of st ps)"
  shows "length pkt \<le> 12 + n"
proof -
  from assms(2) obtain i where "i < length ps" and "pkt = packets_of st ps ! i"
    by (auto simp: in_set_conv_nth)
  with assms(1) [of "ps ! i"] show ?thesis by (simp add: packets_of_nth)
qed

text \<open>\<open>send_nal\<close> as the loop over the fragments of a NAL unit.\<close>

lemma send_nal_fragments:
  assumes "connected st" and "nal \<noteq> []"
  obtains fs where "fragment_nal nal kDefaultMtu = Some fs" "fs \<noteq> []"
    "send_nal st nal w = send_fragments st fs w"
proof -
  obtain fs where fs: "fragment_nal nal kDefaultMtu = Some fs" using default_mtu_returns by blast
  moreover have "fs \<noteq> []"
  proof (cases "length nal \<le> kDefaultMtu")
    case True
    with fs assms(2) show ?thesis by (auto simp: fragment_nal_single)
  next
    case False
    then obtain fs' where "fragment_nal nal kDefaultMtu = Some fs'" "2 \<le> length fs'"
      using fragment_nal_many [of kDefaultMtu nal] by (auto simp: kDefaultMtu_def)
    with fs show ?thesis by auto
  qed
  ultimately show ?thesis using assms by (intro that) (simp_all add: send_nal_def)
qed

lemma send_fragments_host:
  "send_fragments st ps w = (ok, st', w') \<Longrightarrow> same_host w w' \<and> udp_log w' = udp_log w"
proof (induction ps arbitrary: st w)
  case Nil
  then show ?case by simp
next
  case (Cons p ps)
  let ?pkt = "header_bytes \<lparr>payload_type = st_payload_type st, sequence = st_sequence st,
                 timestamp = st_timestamp st, ssrc = st_ssrc st, marker = (ps = [])\<rparr> @ p"
  obtain r w1 where snd: "udp_send (socket st) ?pkt w = (r, w1)" by fastforce
  with udp_send_host [of w "socket st" ?pkt] udp_send_log [of "socket st" ?pkt w]
  have "same_host w w1" "udp_log w1 = udp_log w" by simp_all
  moreover have "w' = w1 \<or> same_host w1 w' \<and> udp_log w' = udp_log w1"
    using Cons.prems snd Cons.IH by (auto simp: Let_def build_packet_bytes split: if_splits)
  ultimately show ?case by (auto intro: same_host_trans)
qed

lemma send_nal_host: "send_nal st nal w = (ok, st', w') \<Longrightarrow> same_host w w' \<and> udp_log w' = udp_log w"
  by (auto simp: send_nal_def dest: send_fragments_host split: if_splits option.splits)

lemma Streamer_delete_fields [simp]:
  "same_host w (Streamer_delete st w)" "wire (Streamer_delete st w) = wire w"
  "tick (Streamer_delete st w) = tick w"
  by (simp_all add: Streamer_delete_def)

text \<open>A streamer about to wrap its sequence number, and one small NAL unit sent by it.\<close>

definition sample_streamer :: Streamer where
  "sample_streamer = \<lparr>socket = \<lparr>udp_fd = 3, udp_peer = Some (''10.0.0.2'', 5000)\<rparr>, connected = True,
     st_sequence = 65535, st_timestamp = 3000, st_ssrc = 9, st_payload_type = 96\<rparr>"

lemma sample_send:
  "send_nal sample_streamer [0x65, 0x88] sample_os =
   (True, sample_streamer\<lparr>st_sequence := 0\<rparr>,
    (ticked sample_os)\<lparr>wire := [((''10.0.0.2'', 5000), header_bytes \<lparr>payload_type = 96, sequence = 65535,
        timestamp = 3000, ssrc = 9, marker = True\<rparr> @ [0x65, 0x88])]\<rparr>)"
  by (simp add: send_nal_def sample_streamer_def fragment_nal_single kDefaultMtu_def Let_def
      build_packet_bytes [of _ "[0x65, 0x88]", simplified] udp_send_def sample_os_def ticked_def)

section \<open>Properties\<close>

text \<open>
  C23: A NAL unit that \<open>send_nal\<close> reports as sent can be decoded at the other end.  The datagrams
  it put on the wire all go to the connected peer; each parses as an RTP packet; the headers have
  consecutive sequence numbers (modulo \<open>2 ^ 16\<close>) from the streamer's, the streamer's timestamp and
  SSRC, and the marker on the last one only; the payloads reassemble to the NAL unit; and of the
  streamer only the sequence number has changed, by the number of packets.
\<close>

theorem send_nal_delivers:
  assumes "send_nal st nal w = (True, st', w')" and "udp_peer (socket st) = Some peer"
    and "hd nal AND 0x1F \<noteq> 28"
  shows "\<exists>pkts hs ps. wire w' = wire w @ map (Pair peer) pkts \<and>
     map parse_rtp pkts = map Some (zip hs ps) \<and> length hs = length pkts \<and> length ps = length pkts \<and>
     (\<forall>i < length hs. sequence (hs ! i) = st_sequence st + of_nat i \<and>
        timestamp (hs ! i) = st_timestamp st \<and> ssrc (hs ! i) = st_ssrc st \<and>
        marker (hs ! i) = (Suc i = length hs)) \<and>
     depacketize ps = Some nal \<and>
     st' = st\<lparr>st_sequence := st_sequence st + of_nat (length pkts)\<rparr>"
proof -
  from assms(1) have conn: "connected st" "nal \<noteq> []" by (auto simp: send_nal_def split: if_splits)
  then obtain ps where ps: "fragment_nal nal kDefaultMtu = Some ps"
    and loop: "send_nal st nal w = send_fragments st ps w" by (rule send_nal_fragments)
  have "send_fragments st ps w = (True, st', w')" using loop assms(1) by simp
  from send_fragments_effect [OF this assms(2)]
  have eff: "wire w' = wire w @ map (Pair peer) (packets_of st ps)"
    "st' = st\<lparr>st_sequence := st_sequence st + of_nat (length ps)\<rparr>" by auto
  have "depacketize ps = Some nal"
    using reassemble_default [OF conn(2) assms(3)] ps by (auto simp: kDefaultMtu_def)
  then show ?thesis
    using eff parse_packets_of [of st ps]
    by (intro exI [of _ "packets_of st ps"] exI [of _ ps]
          exI [of _ "map (\<lambda>i. \<lparr>payload_type = st_payload_type st AND 0x7F,
             sequence = st_sequence st + of_nat i, timestamp = st_timestamp st, ssrc = st_ssrc st,
             marker = (Suc i = length ps)\<rparr>) [0..<length ps]"]) simp
qed

theorem send_nal_delivers_witness:
  "\<exists>pkts hs ps. map parse_rtp pkts = map Some (zip hs ps) \<and> depacketize ps = Some [0x65, 0x88] \<and>
     (0 :: 16 word) = 65535 + of_nat (length pkts)"
  using send_nal_delivers [OF sample_send, of "(''10.0.0.2'', 5000)"]
  by (auto simp: sample_streamer_def)

text \<open>
  Whatever the kernel does, \<open>send_nal\<close> sends a prefix of the packets of the NAL unit, in order
  and nothing else: every datagram goes to the peer and has at most 1412 bytes; all of them were
  sent exactly when the call reports success; on a failure the sequence number has also been used
  up for the packet that failed, so a receiver sees the gap.
\<close>

theorem send_nal_prefix:
  assumes "send_nal st nal w = (ok, st', w')" and "udp_peer (socket st) = Some peer"
    and "connected st" and "nal \<noteq> []"
  shows "\<exists>pkts k. k \<le> length pkts \<and> pkts \<noteq> [] \<and>
     wire w' = wire w @ map (Pair peer) (take k pkts) \<and> (ok \<longleftrightarrow> k = length pkts) \<and>
     (\<forall>pkt \<in> set pkts. length pkt \<le> 1412) \<and>
     st' = st\<lparr>st_sequence := st_sequence st + of_nat (if ok then k else Suc k)\<rparr>"
proof -
  obtain ps where ps: "fragment_nal nal kDefaultMtu = Some ps" "ps \<noteq> []"
    and loop: "send_nal st nal w = send_fragments st ps w"
    using assms(3,4) by (rule send_nal_fragments)
  have "\<And>p. p \<in> set ps \<Longrightarrow> length p \<le> 1400"
    using ps(1) fragment_size_le [of 1400 nal ps] by (simp add: kDefaultMtu_def)
  then have size: "\<forall>pkt \<in> set (packets_of st ps). length pkt \<le> 1412"
    using packets_of_size [of ps 1400] by fastforce
  have "send_fragments st ps w = (ok, st', w')" using loop assms(1) by simp
  from send_fragments_effect [OF this assms(2)] obtain k where "k \<le> length ps"
    "wire w' = wire w @ map (Pair peer) (take k (packets_of st ps))" "ok \<longleftrightarrow> k = length ps"
    "st' = st\<lparr>st_sequence := st_sequence st + of_nat (if ok then k else Suc k)\<rparr>" by blast
  then show ?thesis using size ps(2)
    by (intro exI [of _ "packets_of st ps"] exI [of _ k]) (cases ps, auto)
qed

theorem send_nal_prefix_witness:
  "\<exists>(pkts :: bytes list) k. k \<le> length pkts \<and> pkts \<noteq> [] \<and> (True \<longleftrightarrow> k = length pkts)"
  using send_nal_prefix [OF sample_send, of "(''10.0.0.2'', 5000)"]
  by (auto simp: sample_streamer_def)

end
