(* ===== verification/Base64.thy ===== *)
theory Base64
  imports Prelude
begin

text \<open>
  \<open>veda::util::base64_encode\<close> (src/util/base64.cpp): the encoder that turns the SPS and PPS NAL
  units into the text of the SDP attribute \<open>sprop-parameter-sets\<close>.  The reference decoder below is
  the one of RFC 4648; it is not code of the repository and serves to state that no byte is lost.
\<close>

section \<open>The encoder\<close>

definition kAlphabet :: string where
  "kAlphabet = ''ABCDEFGHIJKLMNOPQRSTUVWXYZabcdefghijklmnopqrstuvwxyz0123456789+/''"

definition kAlphabet_at :: "32 word \<Rightarrow> char" where
  "kAlphabet_at w = kAlphabet ! unat (w AND 0x3F)"

text \<open>
  One equation per stage of the source: the loop over whole triples, then the tail of one or of
  two bytes.  A null pointer and a zero length both return the empty string.
\<close>

fun base64_encode :: "bytes \<Rightarrow> string" where
  "base64_encode (a # b # c # rest) =
     (let triple = push_bit 16 (ucast a) OR push_bit 8 (ucast b) OR (ucast c :: 32 word)
      in [kAlphabet_at (drop_bit 18 triple), kAlphabet_at (drop_bit 12 triple),
          kAlphabet_at (drop_bit 6 triple), kAlphabet_at triple] @ base64_encode rest)"
| "base64_encode [a] =
     (let triple = push_bit 16 (ucast a :: 32 word)
      in [kAlphabet_at (drop_bit 18 triple), kAlphabet_at (drop_bit 12 triple), CHR ''='', CHR ''=''])"
| "base64_encode [a, b] =
     (let triple = push_bit 16 (ucast a) OR push_bit 8 (ucast b :: 32 word)
      in [kAlphabet_at (drop_bit 18 triple), kAlphabet_at (drop_bit 12 triple),
          kAlphabet_at (drop_bit 6 triple), CHR ''=''])"
| "base64_encode [] = []"

section \<open>The reference decoder\<close>

definition sextet_of :: "char \<Rightarrow> 32 word option" where
  "sextet_of ch = map_option of_nat (find_idx (\<lambda>x. x = ch) kAlphabet)"

definition octets_of :: "32 word \<Rightarrow> 32 word \<Rightarrow> 32 word \<Rightarrow> 32 word \<Rightarrow> bytes" where
  "octets_of p q r s =
     (let t = push_bit 18 p OR push_bit 12 q OR push_bit 6 r OR s
      in [ucast (drop_bit 16 t), ucast (drop_bit 8 t), ucast t])"

fun base64_decode :: "string \<Rightarrow> bytes option" where
  "base64_decode [] = Some []"
| "base64_decode (p # q # r # s # rest) =
     (case (sextet_of p, sextet_of q) of
        (Some p', Some q') \<Rightarrow>
          if r = CHR ''='' \<and> s = CHR ''='' \<and> rest = [] then Some (take 1 (octets_of p' q' 0 0))
          else (case sextet_of r of
             None \<Rightarrow> None
           | Some r' \<Rightarrow>
               if s = CHR ''='' \<and> rest = [] then Some (take 2 (octets_of p' q' r' 0))
               else (case (sextet_of s, base64_decode rest) of
                  (Some s', Some bs) \<Rightarrow> Some (octets_of p' q' r' s' @ bs)
                | _ \<Rightarrow> None))
      | _ \<Rightarrow> None)"
| "base64_decode _ = None"

section \<open>Lemmas\<close>

lemma length_kAlphabet [simp]: "length kAlphabet = 64"
  by (simp add: kAlphabet_def)

lemma distinct_kAlphabet: "distinct kAlphabet"
  by (simp add: kAlphabet_def)

lemma pad_not_in_kAlphabet: "CHR ''='' \<notin> set kAlphabet"
  by (simp add: kAlphabet_def)

lemma find_idx_nth: "distinct xs \<Longrightarrow> n < length xs \<Longrightarrow> find_idx (\<lambda>x. x = xs ! n) xs = Some n"
proof (induction xs arbitrary: n)
  case Nil
  then show ?case by simp
next
  case (Cons x xs)
  then show ?case by (cases n) (auto simp: in_set_conv_nth)
qed

lemma sextet_index_less: "unat (w AND 0x3F :: 32 word) < 64"
proof -
  have "w AND 0x3F \<le> 0x3F" by (rule word_and_le1)
  then show ?thesis by (simp add: word_le_nat_alt)
qed

lemma kAlphabet_at_in: "kAlphabet_at w \<in> set kAlphabet"
  by (simp add: kAlphabet_at_def sextet_index_less)

lemma sextet_of_kAlphabet_at [simp]: "sextet_of (kAlphabet_at w) = Some (w AND 0x3F)"
  by (simp add: sextet_of_def kAlphabet_at_def find_idx_nth distinct_kAlphabet sextet_index_less
      del: One_nat_def)

lemma kAlphabet_at_not_pad [simp]: "kAlphabet_at w \<noteq> CHR ''=''"
  using kAlphabet_at_in pad_not_in_kAlphabet by metis

text \<open>The four sextets of a 24-bit group put the group back together.\<close>

lemma mask_6: "(0x3F :: 32 word) = mask 6" and mask_24: "(0xFFFFFF :: 32 word) = mask 24"
  by (simp_all add: mask_eq_exp_minus_1)

lemma sextets_regroup:
  fixes t :: "32 word"
  shows "push_bit 18 (drop_bit 18 t AND 0x3F) OR push_bit 12 (drop_bit 12 t AND 0x3F)
     OR push_bit 6 (drop_bit 6 t AND 0x3F) OR (t AND 0x3F) = t AND 0xFFFFFF"
proof (rule bit_word_eqI)
  fix n assume "n < LENGTH(32)"
  then consider "n < 6" | "6 \<le> n" "n < 12" | "12 \<le> n" "n < 18" | "18 \<le> n" "n < 32" by fastforce
  then show "bit (push_bit 18 (drop_bit 18 t AND 0x3F) OR push_bit 12 (drop_bit 12 t AND 0x3F)
     OR push_bit 6 (drop_bit 6 t AND 0x3F) OR (t AND 0x3F)) n = bit (t AND 0xFFFFFF) n"
    unfolding mask_6 mask_24 by cases (auto simp: bit_simps)
qed

definition triple_of :: "byte \<Rightarrow> byte \<Rightarrow> byte \<Rightarrow> 32 word" where
  "triple_of a b c = push_bit 16 (ucast a) OR push_bit 8 (ucast b) OR ucast c"

lemma octets_regroup:
  fixes a b c :: byte
  shows "octets_of (drop_bit 18 (triple_of a b c) AND 0x3F) (drop_bit 12 (triple_of a b c) AND 0x3F)
     (drop_bit 6 (triple_of a b c) AND 0x3F) (triple_of a b c AND 0x3F) = [a, b, c]"
proof -
  have "ucast (drop_bit 16 (triple_of a b c AND mask 24)) = a"
    "ucast (drop_bit 8 (triple_of a b c AND mask 24)) = b"
    "ucast (triple_of a b c AND mask 24) = c"
    unfolding triple_of_def
    by (rule bit_word_eqI; auto simp: bit_simps dest: bit_imp_le_length)+
  then show ?thesis
    unfolding octets_of_def Let_def sextets_regroup mask_24 by simp
qed

lemma low_sextets_zero:
  fixes a b :: byte
  shows "triple_of a b 0 AND 0x3F = 0" and "drop_bit 6 (triple_of a 0 0) AND 0x3F = 0"
  unfolding triple_of_def mask_6 by (rule bit_word_eqI; auto simp: bit_simps)+

text \<open>The encoder's equations over \<open>triple_of\<close>, one per stage of the source.\<close>

lemma base64_encode_triple:
  "base64_encode (a # b # c # rest) =
     [kAlphabet_at (drop_bit 18 (triple_of a b c)), kAlphabet_at (drop_bit 12 (triple_of a b c)),
      kAlphabet_at (drop_bit 6 (triple_of a b c)), kAlphabet_at (triple_of a b c)]
     @ base64_encode rest"
  "base64_encode [a] =
     [kAlphabet_at (drop_bit 18 (triple_of a 0 0)), kAlphabet_at (drop_bit 12 (triple_of a 0 0)),
      CHR ''='', CHR ''='']"
  "base64_encode [a, b] =
     [kAlphabet_at (drop_bit 18 (triple_of a b 0)), kAlphabet_at (drop_bit 12 (triple_of a b 0)),
      kAlphabet_at (drop_bit 6 (triple_of a b 0)), CHR ''='']"
  by (simp_all add: Let_def triple_of_def)

declare base64_encode.simps(1-3) [simp del]

lemma encode_group [wire_simps]:
  "base64_decode (base64_encode (a # b # c # rest)) =
     map_option ((@) [a, b, c]) (base64_decode (base64_encode rest))"
  using octets_regroup [of a b c]
  by (simp add: base64_encode_triple(1) split: option.split)

lemma encode_tail [wire_simps]:
  "base64_decode (base64_encode [a]) = Some [a]"
  "base64_decode (base64_encode [a, b]) = Some [a, b]"
  using octets_regroup [of a 0 0] octets_regroup [of a b 0]
  by (simp_all add: base64_encode_triple low_sextets_zero)

lemma length_base64_encode [wire_simps]:
  "length (base64_encode bs) = 4 * ((length bs + 2) div 3)"
proof (induction bs rule: base64_encode.induct)
  case (1 a b c rest)
  have "(length (a # b # c # rest) + 2) div 3 = Suc ((length rest + 2) div 3)" by simp
  with "1.IH" show ?case by (simp add: base64_encode_triple(1))
qed (simp_all add: base64_encode_triple)

lemma set_base64_encode: "set (base64_encode bs) \<subseteq> insert (CHR ''='') (set kAlphabet)"
  by (induction bs rule: base64_encode.induct) (auto simp: base64_encode_triple kAlphabet_at_in)

lemma decode_encode: "base64_decode (base64_encode bs) = Some bs"
proof (induction bs rule: base64_encode.induct)
  case (1 a b c rest)
  then show ?case by (simp only: encode_group) simp
qed (simp_all only: encode_tail, simp)

lemma base64_plain: "CHR '','' \<notin> set (base64_encode bs)" "CHR 0x0D \<notin> set (base64_encode bs)"
  using set_base64_encode [of bs] by (auto simp: kAlphabet_def)

lemma base64_encode_Nil_iff [simp]: "base64_encode bs = [] \<longleftrightarrow> bs = []"
proof -
  have "base64_decode [] = Some []" by simp
  then show ?thesis using decode_encode [of bs] by auto
qed

section \<open>Properties\<close>

text \<open>
  Base64 loses nothing.  The RFC 4648 decoder applied to the encoder's output returns exactly
  the bytes that went in, for every input length and so for every padding.
\<close>

theorem base64_roundtrip: "base64_decode (base64_encode bs) = Some bs"
  by (rule decode_encode)

end
