(* ===== verification/Hub.thy ===== *)
theory Hub
  imports Sources Streaming Base64
begin

text \<open>
  \<open>media::Hub\<close> (src/media/hub.cpp): one source, its pump thread and the streamers that are
  subscribed to it.  Streamers are shared between the hub and the sessions through
  \<open>std::shared_ptr\<close>, so they live in a store and are referred to by reference; \<open>media\<close> is the hub
  with that store and the outside world.

  The hub's mutex makes \<open>on_nal\<close>, \<open>subscribe\<close>, the list part of \<open>unsubscribe\<close> and
  \<open>sprop_parameter_sets\<close> atomic.  Here one turn of the pump loop is a step too; the thread is alive
  exactly while \<open>hub_running\<close> is set, and a join waits for the turn it is in, if any.
\<close>

section \<open>State\<close>

record SourceConfig =
  cfg_source :: string
  cfg_width :: int
  cfg_height :: int
  cfg_fps :: int

definition SourceConfig_default :: SourceConfig where
  "SourceConfig_default =
     \<lparr>cfg_source = ''camera'', cfg_width = 640, cfg_height = 480, cfg_fps = 30\<rparr>"

record Hub =
  hub_cfg :: SourceConfig
  hub_subscribers :: "nat list"
  hub_source :: "NalSource option"
  hub_pump_joinable :: bool
  hub_running :: bool
  hub_sps :: bytes
  hub_pps :: bytes
  hub_ts_increment :: "32 word"

type_synonym store = "nat \<Rightarrow> Streamer option"

record media =
  hub :: Hub
  heap :: store
  next_ref :: nat
  host :: os

section \<open>Construction\<close>

definition nal_type_of :: "bytes \<Rightarrow> byte" where
  "nal_type_of nal = nal ! 0 AND 0x1F"

definition kNalSlice :: byte where "kNalSlice = 1"
definition kNalIdr :: byte where "kNalIdr = 5"
definition kNalSps :: byte where "kNalSps = 7"
definition kNalPps :: byte where "kNalPps = 8"

text \<open>The first parameter sets seen are kept, in the prescan and in \<open>on_nal\<close> alike.\<close>

definition cache_parameter_set :: "bytes \<Rightarrow> bytes \<times> bytes \<Rightarrow> bytes \<times> bytes" where
  "cache_parameter_set nal c =
     (case c of (sps, pps) \<Rightarrow>
        let type = nal_type_of nal in
        if type = kNalSps \<and> sps = [] then (nal, pps)
        else if type = kNalPps \<and> pps = [] then (sps, nal)
        else (sps, pps))"

definition kMaxNals :: nat where "kMaxNals = 64"

text \<open>\<open>left\<close> is \<open>kMaxNals - scanned\<close>.\<close>

fun prescan_loop :: "nat \<Rightarrow> FILE option \<Rightarrow> bytes \<Rightarrow> bytes \<times> bytes \<Rightarrow> bytes \<times> bytes" where
  "prescan_loop 0 fp reader c = c"
| "prescan_loop (Suc left) fp reader c =
     (if fst c = [] \<or> snd c = []
      then (case read_nal fp reader of
              (ok, nal, reader, fp) \<Rightarrow>
                (let c = (case nal of None \<Rightarrow> c | Some n \<Rightarrow> cache_parameter_set n c) in
                 if \<not> ok then c else prescan_loop left fp reader c))
      else c)"

definition prescan_parameter_sets :: "string \<Rightarrow> os \<Rightarrow> bytes \<times> bytes \<Rightarrow> bytes \<times> bytes" where
  "prescan_parameter_sets path w c =
     (case fs_open w path of None \<Rightarrow> c | Some fp \<Rightarrow> prescan_loop kMaxNals (Some fp) [] c)"

definition hub_new :: "SourceConfig \<Rightarrow> os \<Rightarrow> Hub" where
  "hub_new c w =
     (let (sps, pps) = (if cfg_source c \<noteq> ''camera''
                        then prescan_parameter_sets (cfg_source c) w ([], []) else ([], []))
      in \<lparr>hub_cfg = c, hub_subscribers = [], hub_source = None, hub_pump_joinable = False,
          hub_running = False, hub_sps = sps, hub_pps = pps,
          hub_ts_increment = word_of_int (90000 div (if cfg_fps c > 0 then cfg_fps c else 30))\<rparr>)"

definition make_source :: "SourceConfig \<Rightarrow> NalSource" where
  "make_source c =
     (if cfg_source c = ''camera''
      then Camera_source (CameraSource_new (cfg_width c) (cfg_height c) (cfg_fps c))
      else File_source (FileSource_new (cfg_source c) (cfg_fps c) True))"

section \<open>Distribution\<close>

text \<open>
  The loop over the subscribers.  A reference is never dangling (lemma \<open>hub_ok_refs\<close> below and the
  session invariant), so the \<open>None\<close> case is not taken.
\<close>

fun broadcast :: "bytes \<Rightarrow> bool \<Rightarrow> 32 word \<Rightarrow> nat list \<Rightarrow> store \<Rightarrow> os \<Rightarrow> store \<times> os" where
  "broadcast nal frame inc [] h w = (h, w)"
| "broadcast nal frame inc (r # rs) h w =
     (case h r of
        None \<Rightarrow> broadcast nal frame inc rs h w
      | Some st \<Rightarrow>
          (let (_, st, w) = send_nal st nal w;
               st = (if frame then advance_timestamp st inc else st)
           in broadcast nal frame inc rs (h(r \<mapsto> st)) w))"

definition on_nal :: "bytes \<Rightarrow> media \<Rightarrow> media" where
  "on_nal nal m =
     (if nal = [] then m
      else (let type = nal_type_of nal;
                (sps, pps) = cache_parameter_set nal (hub_sps (hub m), hub_pps (hub m));
                (h, w) = broadcast nal (type = kNalSlice \<or> type = kNalIdr)
                           (hub_ts_increment (hub m)) (hub_subscribers (hub m)) (heap m) (host m)
            in m\<lparr>hub := (hub m)\<lparr>hub_sps := sps, hub_pps := pps\<rparr>, heap := h, host := w\<rparr>))"

section \<open>The pump thread\<close>

text \<open>One turn of the loop body: the return value of \<open>read_nal\<close>, and the state.\<close>

definition pump_body :: "media \<Rightarrow> bool \<times> media" where
  "pump_body m =
     (case hub_source (hub m) of
        None \<Rightarrow> (False, m)
      | Some s \<Rightarrow>
          (case source_read_nal s of
             (ok, nals, _, s) \<Rightarrow>
               (let m = fold on_nal nals m in (ok, m\<lparr>hub := (hub m)\<lparr>hub_source := Some s\<rparr>\<rparr>))))"

text \<open>What the thread does after its loop.\<close>

definition pump_exit :: "media \<Rightarrow> media" where
  "pump_exit m =
     m\<lparr>hub := (hub m)\<lparr>hub_source := map_option source_stop (hub_source (hub m)),
                      hub_running := False\<rparr>\<rparr>"

definition pump_step :: "media \<Rightarrow> media" where
  "pump_step m =
     (if \<not> hub_running (hub m) then m
      else (let (ok, m) = pump_body m in if ok then m else pump_exit m))"

section \<open>Subscription\<close>

definition hub_start_pump :: "media \<Rightarrow> bool \<times> media" where
  "hub_start_pump m =
     (let h = (hub m)\<lparr>hub_pump_joinable := False\<rparr>;
          (ok, s, w) = source_start (make_source (hub_cfg h)) (host m)
      in if \<not> ok then (False, m\<lparr>hub := h\<lparr>hub_source := None\<rparr>, host := w\<rparr>)
         else (True, m\<lparr>hub := h\<lparr>hub_source := Some s, hub_running := True,
                                hub_pump_joinable := True\<rparr>, host := w\<rparr>))"

definition hub_subscribe :: "nat option \<Rightarrow> media \<Rightarrow> bool \<times> media" where
  "hub_subscribe streamer m =
     (case streamer of
        None \<Rightarrow> (False, m)
      | Some r \<Rightarrow>
          (let (ok, m) = (if \<not> hub_running (hub m) then hub_start_pump m else (True, m)) in
           if \<not> ok then (False, m)
           else (True, m\<lparr>hub := (hub m)\<lparr>hub_subscribers := hub_subscribers (hub m) @ [r]\<rparr>\<rparr>)))"

text \<open>The join: the thread finishes the turn it is in, sees the flag and leaves its loop.\<close>

definition pump_join :: "media \<Rightarrow> media" where
  "pump_join m =
     (let busy = in_flight (host m) (tick (host m));
          m = m\<lparr>host := ticked (host m)\<rparr>
      in pump_exit (if busy then snd (pump_body m) else m))"

definition hub_unsubscribe :: "nat \<Rightarrow> media \<Rightarrow> media" where
  "hub_unsubscribe r m =
     (let m = m\<lparr>hub := (hub m)\<lparr>hub_subscribers := removeAll r (hub_subscribers (hub m))\<rparr>\<rparr> in
      if hub_subscribers (hub m) = [] \<and> hub_running (hub m)
      then pump_join (m\<lparr>hub := (hub m)\<lparr>hub_running := False, hub_pump_joinable := False\<rparr>\<rparr>)
      else m)"

text \<open>The destructor.\<close>

definition hub_delete :: "media \<Rightarrow> media" where
  "hub_delete m =
     (if hub_pump_joinable (hub m)
      then (let alive = hub_running (hub m);
                m = m\<lparr>hub := (hub m)\<lparr>hub_running := False, hub_pump_joinable := False\<rparr>\<rparr>
            in if alive then pump_join m else m)
      else m\<lparr>hub := (hub m)\<lparr>hub_running := False\<rparr>\<rparr>)"

definition sprop_parameter_sets :: "Hub \<Rightarrow> string" where
  "sprop_parameter_sets h =
     (if hub_sps h = [] \<or> hub_pps h = [] then []
      else base64_encode (hub_sps h) @ '','' @ base64_encode (hub_pps h))"

section \<open>What an operation of the pump leaves as it was\<close>

definition ready :: "store \<Rightarrow> nat \<Rightarrow> bool" where
  "ready h r \<longleftrightarrow> (\<exists>st peer. h r = Some st \<and> connected st \<and> udp_peer (socket st) = Some peer)"

definition kept :: "media \<Rightarrow> media \<Rightarrow> bool" where
  "kept m m' \<longleftrightarrow>
     hub_cfg (hub m') = hub_cfg (hub m) \<and> hub_subscribers (hub m') = hub_subscribers (hub m) \<and>
     hub_pump_joinable (hub m') = hub_pump_joinable (hub m) \<and>
     hub_ts_increment (hub m') = hub_ts_increment (hub m) \<and>
     next_ref m' = next_ref m \<and> same_host (host m) (host m') \<and>
     dom (heap m') = dom (heap m) \<and> (\<forall>r. ready (heap m) r \<longrightarrow> ready (heap m') r) \<and>
     (\<forall>r. r \<notin> set (hub_subscribers (hub m)) \<longrightarrow> heap m' r = heap m r) \<and>
     (\<forall>r. map_option socket (heap m' r) = map_option socket (heap m r)) \<and>
     (\<forall>r. map_option st_payload_type (heap m' r) = map_option st_payload_type (heap m r)) \<and>
     udp_log (host m') = udp_log (host m) \<and>
     (hub_sps (hub m) \<noteq> [] \<longrightarrow> hub_sps (hub m') = hub_sps (hub m)) \<and>
     (hub_pps (hub m) \<noteq> [] \<longrightarrow> hub_pps (hub m') = hub_pps (hub m))"

lemma kept_refl [simp]: "kept m m"
  by (simp add: kept_def)

lemma kept_trans: "kept a b \<Longrightarrow> kept b c \<Longrightarrow> kept a c"
  unfolding kept_def by (auto intro: same_host_trans)

lemma send_fragments_fields: "send_fragments st ps w = (ok, st', w') \<Longrightarrow> \<exists>q. st' = st\<lparr>st_sequence := q\<rparr>"
proof (induction st ps w arbitrary: st' rule: send_fragments.induct)
  case (1 st w)
  then show ?case by (intro exI [of _ "st_sequence st"]) simp
next
  case (2 st payload rest w)
  then show ?case
    by (fastforce simp: Let_def build_packet_bytes split: prod.splits if_splits)
qed

lemma send_nal_fields:
  assumes "send_nal st nal w = (ok, st', w')"
  shows "\<exists>q. st' = st\<lparr>st_sequence := q\<rparr>"
proof -
  have "\<exists>q. st = st\<lparr>st_sequence := q\<rparr>" by (intro exI [of _ "st_sequence st"]) simp
  with assms show ?thesis
    by (auto simp: send_nal_def split: if_splits option.splits dest: send_fragments_fields)
qed

lemma broadcast_keeps:
  assumes "broadcast nal frame inc rs h w = (h', w')"
  shows "dom h' = dom h \<and> (\<forall>r. ready h r \<longrightarrow> ready h' r) \<and> (\<forall>r. r \<notin> set rs \<longrightarrow> h' r = h r) \<and>
    same_host w w' \<and> udp_log w' = udp_log w \<and> (\<forall>r. map_option socket (h' r) = map_option socket (h r)) \<and>
    (\<forall>r. map_option st_payload_type (h' r) = map_option st_payload_type (h r))"
  using assms
proof (induction rs arbitrary: h w)
  case Nil
  then show ?case by simp
next
  case (Cons r rs)
  show ?case
  proof (cases "h r")
    case None
    with Cons show ?thesis by auto
  next
    case (Some st)
    obtain ok st1 w1 where s: "send_nal st nal w = (ok, st1, w1)" by (metis prod_cases3)
    from send_nal_fields [OF s] obtain q where q: "st1 = st\<lparr>st_sequence := q\<rparr>" by blast
    define st2 where "st2 = (if frame then advance_timestamp st1 inc else st1)"
    have same: "connected st2 = connected st" "socket st2 = socket st" "st_payload_type st2 = st_payload_type st"
      using q by (auto simp: st2_def advance_timestamp_def)
    from Cons.prems Some s have "broadcast nal frame inc rs (h(r \<mapsto> st2)) w1 = (h', w')"
      by (simp add: st2_def Let_def)
    from Cons.IH [OF this] have ih: "dom h' = dom (h(r \<mapsto> st2))"
      "\<forall>k. ready (h(r \<mapsto> st2)) k \<longrightarrow> ready h' k" "\<forall>k. k \<notin> set rs \<longrightarrow> h' k = (h(r \<mapsto> st2)) k"
      "same_host w1 w'" "udp_log w' = udp_log w1"
      "\<forall>k. map_option socket (h' k) = map_option socket ((h(r \<mapsto> st2)) k)"
      "\<forall>k. map_option st_payload_type (h' k) = map_option st_payload_type ((h(r \<mapsto> st2)) k)" by blast+
    have "ready (h(r \<mapsto> st2)) k" if "ready h k" for k
      using that Some same by (auto simp: ready_def)
    moreover have "dom (h(r \<mapsto> st2)) = dom h" using Some by auto
    moreover have "same_host w w'" "udp_log w' = udp_log w"
      using same_host_trans send_nal_host [OF s] ih(4,5) by auto
    moreover have "\<forall>k. map_option socket (h' k) = map_option socket (h k)"
      "\<forall>k. map_option st_payload_type (h' k) = map_option st_payload_type (h k)"
      using ih(6,7) Some same(2,3) by simp_all
    ultimately show ?thesis using ih(1-3) by auto
  qed
qed

lemma cache_keeps:
  assumes "cache_parameter_set nal (sps, pps) = (sps', pps')"
  shows "sps \<noteq> [] \<longrightarrow> sps' = sps" and "pps \<noteq> [] \<longrightarrow> pps' = pps"
  using assms by (auto simp: cache_parameter_set_def Let_def split: if_splits)

lemma on_nal_kept: "kept m (on_nal nal m)"
proof (cases "nal = []")
  case True
  then show ?thesis by (simp add: on_nal_def)
next
  case False
  obtain sps pps where c: "cache_parameter_set nal (hub_sps (hub m), hub_pps (hub m)) = (sps, pps)"
    by fastforce
  obtain h w where b: "broadcast nal (nal_type_of nal = kNalSlice \<or> nal_type_of nal = kNalIdr)
      (hub_ts_increment (hub m)) (hub_subscribers (hub m)) (heap m) (host m) = (h, w)" by fastforce
  from broadcast_keeps [OF b] cache_keeps [OF c] show ?thesis
    using False by (simp add: on_nal_def Let_def c b kept_def)
qed

lemma on_nal_control [state_simps]:
  "hub_running (hub (on_nal nal m)) = hub_running (hub m)"
  "hub_source (hub (on_nal nal m)) = hub_source (hub m)"
  by (simp_all add: on_nal_def Let_def split: prod.split)

lemma fold_on_nal: "kept m (fold on_nal nals m) \<and>
    hub_running (hub (fold on_nal nals m)) = hub_running (hub m) \<and>
    hub_source (hub (fold on_nal nals m)) = hub_source (hub m)"
proof (induction nals arbitrary: m)
  case Nil
  then show ?case by simp
next
  case (Cons n nals)
  from Cons [of "on_nal n m"] kept_trans [OF on_nal_kept] show ?case by (auto simp: state_simps)
qed

lemma pump_body_kept:
  assumes "pump_body m = (ok, m')"
  shows "kept m m'" and "hub_running (hub m') = hub_running (hub m)"
    and "hub_source (hub m) = Some s \<Longrightarrow> \<exists>s'. hub_source (hub m') = Some s' \<and> source_open s' = source_open s"
    and "hub_source (hub m) = None \<Longrightarrow> m' = m"
proof -
  have upd: "kept a b \<Longrightarrow> kept a (b\<lparr>hub := (hub b)\<lparr>hub_source := x\<rparr>\<rparr>)" for a b x
    by (simp add: kept_def)
  show "kept m m'" "hub_running (hub m') = hub_running (hub m)"
    using assms fold_on_nal upd by (auto simp: pump_body_def Let_def split: option.splits prod.splits)
  show "hub_source (hub m) = Some s \<Longrightarrow> \<exists>s'. hub_source (hub m') = Some s' \<and> source_open s' = source_open s"
    using assms source.reads_keep
    by (auto simp: pump_body_def Let_def split: option.splits prod.splits)
  show "hub_source (hub m) = None \<Longrightarrow> m' = m"
    using assms by (simp add: pump_body_def)
qed

text \<open>With nobody on the list a turn of the pump leaves the host alone.\<close>

lemma on_nal_unheard:
  assumes "hub_subscribers (hub m) = []"
  shows "on_nal n (m\<lparr>host := w\<rparr>) = (on_nal n m)\<lparr>host := w\<rparr>" "hub_subscribers (hub (on_nal n m)) = []"
    "host (on_nal n m) = host m"
  using assms by (simp_all add: on_nal_def Let_def split: prod.split)

lemma on_nals_unheard:
  "hub_subscribers (hub m) = [] \<Longrightarrow> fold on_nal ns (m\<lparr>host := w\<rparr>) = (fold on_nal ns m)\<lparr>host := w\<rparr>"
  by (induction ns arbitrary: m) (simp_all add: on_nal_unheard)

lemma pump_body_unheard:
  "hub_subscribers (hub m) = [] \<Longrightarrow> pump_body (m\<lparr>host := w\<rparr>) = (fst (pump_body m), (snd (pump_body m))\<lparr>host := w\<rparr>)"
  by (simp add: pump_body_def on_nals_unheard Let_def split: option.split prod.split)

lemma pump_body_host: "hub_subscribers (hub m) = [] \<Longrightarrow> host (snd (pump_body m)) = host m"
proof -
  have "hub_subscribers (hub m) = [] \<Longrightarrow> host (fold on_nal ns m) = host m" for ns
    by (induction ns arbitrary: m) (simp_all add: on_nal_unheard)
  then show "hub_subscribers (hub m) = [] \<Longrightarrow> host (snd (pump_body m)) = host m"
    by (simp add: pump_body_def Let_def split: option.split prod.split)
qed

lemma pump_exit_kept: "kept m (pump_exit m)"
  by (simp add: pump_exit_def kept_def)

lemma pump_step_kept: "kept m (pump_step m)"
  using pump_body_kept(1) kept_trans [OF _ pump_exit_kept]
  by (auto simp: pump_step_def Let_def split: prod.split)

lemma pump_join_kept: "kept m (pump_join m)"
proof -
  let ?m = "m\<lparr>host := ticked (host m)\<rparr>"
  have "kept m ?m" by (simp add: kept_def)
  moreover have "kept ?m (snd (pump_body ?m))"
    using pump_body_kept(1) [of ?m] by (metis prod.collapse)
  ultimately have "kept m (snd (pump_body ?m))" by (rule kept_trans)
  with \<open>kept m ?m\<close> show ?thesis
    using kept_trans [OF _ pump_exit_kept] by (simp add: pump_join_def Let_def)
qed

section \<open>The invariant\<close>

text \<open>
  The source is open exactly while the pump runs, the pump runs only for somebody, every subscriber
  is a connected streamer of the store, and no reference beyond \<open>next_ref\<close> is in use.
\<close>

definition source_is_open :: "Hub \<Rightarrow> bool" where
  "source_is_open h \<longleftrightarrow> (\<exists>s. hub_source h = Some s \<and> source_open s)"

definition hub_ok :: "media \<Rightarrow> bool" where
  "hub_ok m \<longleftrightarrow>
     (hub_running (hub m) \<longleftrightarrow> source_is_open (hub m)) \<and>
     (hub_running (hub m) \<longrightarrow> hub_pump_joinable (hub m) \<and> hub_subscribers (hub m) \<noteq> []) \<and>
     distinct (hub_subscribers (hub m)) \<and>
     (\<forall>r \<in> set (hub_subscribers (hub m)). ready (heap m) r) \<and>
     (\<forall>r \<in> dom (heap m). r < next_ref m)"

lemma hub_ok_refs: "hub_ok m \<Longrightarrow> set (hub_subscribers (hub m)) \<subseteq> dom (heap m)"
  by (auto simp: hub_ok_def ready_def)

lemma hub_ok_kept:
  assumes "hub_ok m" and "kept m m'" and "hub_running (hub m') = hub_running (hub m)"
    and "source_is_open (hub m') = source_is_open (hub m)"
  shows "hub_ok m'"
  using assms unfolding hub_ok_def kept_def by metis

lemma pump_exit_ok: "hub_ok m \<Longrightarrow> hub_ok (pump_exit m)"
  using source.stop_closes by (auto simp: hub_ok_def pump_exit_def source_is_open_def)

lemma pump_body_open:
  "pump_body m = (ok, m') \<Longrightarrow> source_is_open (hub m') = source_is_open (hub m)"
  by (cases "hub_source (hub m)") (auto dest: pump_body_kept(3,4) simp: source_is_open_def)

lemma pump_body_ok: "hub_ok m \<Longrightarrow> pump_body m = (ok, m') \<Longrightarrow> hub_ok m'"
  using hub_ok_kept pump_body_kept(1,2) pump_body_open by blast

lemma pump_step_ok: "hub_ok m \<Longrightarrow> hub_ok (pump_step m)"
  using pump_body_ok pump_exit_ok by (auto simp: pump_step_def Let_def split: prod.split)

lemma hub_new_ok: "hub_ok \<lparr>hub = hub_new c w, heap = (\<lambda>_. None), next_ref = 0, host = w\<rparr>"
  by (auto simp: hub_ok_def hub_new_def source_is_open_def Let_def split: prod.split)

lemma hub_new_subscribers: "hub_subscribers (hub_new c w) = []"
  by (simp add: hub_new_def Let_def split: prod.split)

lemma hub_start_pump_result:
  assumes "hub_start_pump m = (ok, m')"
  shows "heap m' = heap m" "next_ref m' = next_ref m" "hub_subscribers (hub m') = hub_subscribers (hub m)"
    "same_host (host m) (host m')" "wire (host m') = wire (host m)"
    "ok \<Longrightarrow> hub_running (hub m') \<and> hub_pump_joinable (hub m') \<and> source_is_open (hub m')"
    "\<not> ok \<Longrightarrow> hub_running (hub m') = hub_running (hub m) \<and> \<not> source_is_open (hub m')"
proof -
  obtain k s w where st: "source_start (make_source (hub_cfg (hub m))) (host m) = (k, s, w)"
    by (metis prod_cases3)
  from source.start_result [OF st] have k: "k = source_open s" "same_host (host m) w"
    "wire w = wire (host m)" by auto
  show "heap m' = heap m" "next_ref m' = next_ref m" "hub_subscribers (hub m') = hub_subscribers (hub m)"
    "same_host (host m) (host m')" "wire (host m') = wire (host m)"
    "ok \<Longrightarrow> hub_running (hub m') \<and> hub_pump_joinable (hub m') \<and> source_is_open (hub m')"
    "\<not> ok \<Longrightarrow> hub_running (hub m') = hub_running (hub m) \<and> \<not> source_is_open (hub m')"
    using assms st k by (auto simp: hub_start_pump_def Let_def source_is_open_def split: if_splits)
qed

lemma hub_subscribe_effect:
  assumes "hub_subscribe (Some r) m = (ok, m')"
  shows "heap m' = heap m" "next_ref m' = next_ref m"
    "hub_subscribers (hub m') = hub_subscribers (hub m) @ (if ok then [r] else [])"
    "same_host (host m) (host m')" "wire (host m') = wire (host m)"
  using assms hub_start_pump_result(1-5)
  by (auto simp: hub_subscribe_def Let_def split: if_splits prod.splits)

lemma hub_subscribe_ok:
  assumes "hub_ok m" and "ready (heap m) r" and "r \<notin> set (hub_subscribers (hub m))"
    and "hub_subscribe (Some r) m = (ok, m')"
  shows "hub_ok m'" and "ok \<Longrightarrow> hub_running (hub m')"
proof -
  note eff = hub_subscribe_effect [OF assms(4)]
  show run: "ok \<Longrightarrow> hub_running (hub m')"
    using assms(4) hub_start_pump_result(6)
    by (auto simp: hub_subscribe_def Let_def split: if_splits prod.splits)
  have "hub_running (hub m') = source_is_open (hub m') \<and>
      (hub_running (hub m') \<longrightarrow> hub_pump_joinable (hub m') \<and> hub_subscribers (hub m') \<noteq> [])"
  proof (cases "hub_running (hub m)")
    case True
    with assms show ?thesis by (auto simp: hub_subscribe_def hub_ok_def source_is_open_def)
  next
    case False
    obtain k m1 where s: "hub_start_pump m = (k, m1)" by fastforce
    from hub_start_pump_result [OF s] False assms(4) s show ?thesis
      by (cases k) (auto simp: hub_subscribe_def source_is_open_def)
  qed
  then show "hub_ok m'" using assms(1-3) eff by (simp add: hub_ok_def)
qed

lemma hub_unsubscribe_kept:
  "kept (m\<lparr>hub := (hub m)\<lparr>hub_subscribers := removeAll r (hub_subscribers (hub m)),
      hub_pump_joinable := hub_pump_joinable (hub (hub_unsubscribe r m))\<rparr>\<rparr>) (hub_unsubscribe r m)"
proof -
  let ?m = "m\<lparr>hub := (hub m)\<lparr>hub_subscribers := removeAll r (hub_subscribers (hub m))\<rparr>\<rparr>"
  let ?j = "?m\<lparr>hub := (hub ?m)\<lparr>hub_running := False, hub_pump_joinable := False\<rparr>\<rparr>"
  show ?thesis
  proof (cases "hub_subscribers (hub ?m) = [] \<and> hub_running (hub ?m)")
    case True
    then have u: "hub_unsubscribe r m = pump_join ?j" by (simp add: hub_unsubscribe_def)
    have k: "kept ?j (pump_join ?j)" by (rule pump_join_kept)
    then have "\<not> hub_pump_joinable (hub (pump_join ?j))" by (simp add: kept_def)
    then show ?thesis using k unfolding u by (simp add: kept_def)
  next
    case False
    then have "hub_unsubscribe r m = ?m" by (auto simp: hub_unsubscribe_def)
    then show ?thesis by (simp add: kept_def)
  qed
qed

lemma pump_join_stops: "\<not> hub_running (hub (pump_join m)) \<and> \<not> source_is_open (hub (pump_join m))"
  using source.stop_closes by (auto simp: pump_join_def pump_exit_def source_is_open_def Let_def)

lemma hub_unsubscribe_members [state_simps]:
  "hub_subscribers (hub (hub_unsubscribe r m)) = removeAll r (hub_subscribers (hub m))"
  using hub_unsubscribe_kept [where m = m and r = r] by (simp add: kept_def)

lemma hub_unsubscribe_wire: "wire (host (hub_unsubscribe r m)) = wire (host m)"
proof (cases "removeAll r (hub_subscribers (hub m)) = []")
  case True
  then show ?thesis
    by (simp add: hub_unsubscribe_def pump_join_def pump_exit_def Let_def pump_body_host)
next
  case False
  then show ?thesis by (simp add: hub_unsubscribe_def)
qed

lemma hub_unsubscribe_heap:
  "dom (heap (hub_unsubscribe r m)) = dom (heap m)" "heap (hub_unsubscribe r m) r = heap m r"
  "next_ref (hub_unsubscribe r m) = next_ref m" "same_host (host m) (host (hub_unsubscribe r m))"
  "ready (heap m) k \<Longrightarrow> ready (heap (hub_unsubscribe r m)) k"
  "map_option socket (heap (hub_unsubscribe r m) k) = map_option socket (heap m k)"
  using hub_unsubscribe_kept [where m = m and r = r] by (simp_all add: kept_def)

lemma hub_unsubscribe_ok:
  assumes "hub_ok m"
  shows "hub_ok (hub_unsubscribe r m)"
proof -
  let ?m = "m\<lparr>hub := (hub m)\<lparr>hub_subscribers := removeAll r (hub_subscribers (hub m))\<rparr>\<rparr>"
  have "(hub_running (hub (hub_unsubscribe r m)) \<longleftrightarrow> source_is_open (hub (hub_unsubscribe r m))) \<and>
      (hub_running (hub (hub_unsubscribe r m)) \<longrightarrow> hub_pump_joinable (hub (hub_unsubscribe r m)) \<and>
        hub_subscribers (hub (hub_unsubscribe r m)) \<noteq> [])"
  proof (cases "hub_subscribers (hub ?m) = [] \<and> hub_running (hub ?m)")
    case True
    then show ?thesis using pump_join_stops by (simp add: hub_unsubscribe_def)
  next
    case False
    then have u: "hub_unsubscribe r m = ?m" by (auto simp: hub_unsubscribe_def)
    have "source_is_open (hub ?m) = source_is_open (hub m)" by (simp add: source_is_open_def)
    then show ?thesis unfolding u using False assms by (simp add: hub_ok_def) blast
  qed
  moreover have "\<forall>k. ready (heap m) k \<longrightarrow> ready (heap (hub_unsubscribe r m)) k"
    using hub_unsubscribe_heap(5) by blast
  ultimately show ?thesis
    using assms by (auto simp: hub_ok_def hub_unsubscribe_heap(1,3) hub_unsubscribe_members distinct_removeAll)
qed

section \<open>The contract of a distribution list\<close>

text \<open>
  What a session relies on: joining adds the reference or leaves the list alone, leaving removes it
  whatever happened before, and neither disturbs the others.
\<close>

locale distribution =
  fixes join :: "nat \<Rightarrow> 'm \<Rightarrow> bool \<times> 'm"
    and leave :: "nat \<Rightarrow> 'm \<Rightarrow> 'm"
    and members :: "'m \<Rightarrow> nat set"
    and valid :: "'m \<Rightarrow> bool"
    and may_join :: "nat \<Rightarrow> 'm \<Rightarrow> bool"
  assumes join_valid: "valid m \<Longrightarrow> may_join r m \<Longrightarrow> join r m = (ok, m') \<Longrightarrow> valid m'"
    and join_members: "join r m = (ok, m') \<Longrightarrow> members m' = (if ok then insert r (members m) else members m)"
    and leave_valid: "valid m \<Longrightarrow> valid (leave r m)"
    and leave_members: "members (leave r m) = members m - {r}"
begin

lemma leave_again: "members (leave r (leave r m)) = members (leave r m)"
  by (auto simp: leave_members)

lemma join_leave: "join r m = (ok, m') \<Longrightarrow> members (leave r m') = members m - {r}"
  by (auto simp: leave_members join_members split: if_splits)

lemma leave_commute: "members (leave r (leave q m)) = members (leave q (leave r m))"
  by (auto simp: leave_members)

end

interpretation hub_list: distribution "\<lambda>r. hub_subscribe (Some r)" hub_unsubscribe
  "\<lambda>m. set (hub_subscribers (hub m))" hub_ok
  "\<lambda>r m. ready (heap m) r \<and> r \<notin> set (hub_subscribers (hub m))"
  by unfold_locales
     (auto simp: hub_unsubscribe_ok hub_unsubscribe_members hub_subscribe_effect
        intro: hub_subscribe_ok)

section \<open>What a broadcast sends\<close>

definition nal_packets :: "Streamer \<Rightarrow> bytes \<Rightarrow> bytes list" where
  "nal_packets st nal =
     packets_of st (case fragment_nal nal kDefaultMtu of None \<Rightarrow> [] | Some fs \<Rightarrow> fs)"

lemma send_nal_effect:
  assumes "send_nal st nal w = (ok, st', w')" and "connected st" and "nal \<noteq> []"
    and "udp_peer (socket st) = Some peer"
  shows "\<exists>k \<le> length (nal_packets st nal).
     wire w' = wire w @ map (Pair peer) (take k (nal_packets st nal)) \<and>
     (ok \<longleftrightarrow> k = length (nal_packets st nal)) \<and>
     st' = st\<lparr>st_sequence := st_sequence st + of_nat (if ok then k else Suc k)\<rparr>"
proof -
  obtain fs where fs: "fragment_nal nal kDefaultMtu = Some fs" "send_nal st nal w = send_fragments st fs w"
    using send_nal_fragments [OF assms(2,3)] by metis
  with assms(1) have "send_fragments st fs w = (ok, st', w')" by simp
  from send_fragments_effect [OF this assms(4)] fs(1) show ?thesis by (auto simp: nal_packets_def)
qed

text \<open>\<open>after_nal\<close>: a streamer after a NAL unit of which \<open>q\<close> packets were numbered.\<close>

definition after_nal :: "bool \<Rightarrow> 32 word \<Rightarrow> nat \<Rightarrow> Streamer \<Rightarrow> Streamer" where
  "after_nal frame inc q st =
     st\<lparr>st_sequence := st_sequence st + of_nat q,
        st_timestamp := st_timestamp st + (if frame then inc else 0)\<rparr>"

text \<open>
  \<open>portion st nal k q ds\<close>: the datagrams \<open>ds\<close> are the first \<open>k\<close> packets of the NAL unit to the
  streamer's peer, and \<open>q\<close> sequence numbers were used up.
\<close>

definition portion :: "Streamer \<Rightarrow> bytes \<Rightarrow> nat \<Rightarrow> nat \<Rightarrow> (address \<times> bytes) list \<Rightarrow> bool" where
  "portion st nal k q ds \<longleftrightarrow>
     (\<exists>peer. udp_peer (socket st) = Some peer \<and> ds = map (Pair peer) (take k (nal_packets st nal))) \<and>
     k \<le> length (nal_packets st nal) \<and> q = (if k = length (nal_packets st nal) then k else Suc k)"

lemma broadcast_effect:
  assumes "broadcast nal frame inc rs h w = (h', w')" and "distinct rs" and "\<forall>r \<in> set rs. ready h r"
    and "nal \<noteq> []"
  shows "\<exists>dss. length dss = length rs \<and> wire w' = wire w @ concat dss \<and>
     (\<forall>i < length rs. \<exists>st k q. h (rs ! i) = Some st \<and> portion st nal k q (dss ! i) \<and>
        h' (rs ! i) = Some (after_nal frame inc q st))"
  using assms
proof (induction rs arbitrary: h w)
  case Nil
  then show ?case by simp
next
  case (Cons r rs)
  from Cons.prems(3) obtain st peer where st: "h r = Some st" "connected st"
    "udp_peer (socket st) = Some peer" by (auto simp: ready_def)
  obtain ok st1 w1 where s: "send_nal st nal w = (ok, st1, w1)" by (metis prod_cases3)
  from send_nal_effect [OF s st(2) Cons.prems(4) st(3)] obtain k where
    k: "k \<le> length (nal_packets st nal)" "ok \<longleftrightarrow> k = length (nal_packets st nal)"
      "wire w1 = wire w @ map (Pair peer) (take k (nal_packets st nal))"
      "st1 = st\<lparr>st_sequence := st_sequence st + of_nat (if ok then k else Suc k)\<rparr>" by blast
  define q where "q = (if ok then k else Suc k)"
  define h1 where "h1 = h(r \<mapsto> after_nal frame inc q st)"
  have step: "(if frame then advance_timestamp st1 inc else st1) = after_nal frame inc q st"
    unfolding k(4) q_def by (simp add: after_nal_def advance_timestamp_def)
  have go: "broadcast nal frame inc rs h1 w1 = (h', w')"
    using Cons.prems(1) st(1) s step by (simp add: h1_def Let_def)
  have other: "r' \<in> set rs \<Longrightarrow> h1 r' = h r'" for r' using Cons.prems(2) by (auto simp: h1_def)
  with Cons.prems(3) have "\<forall>r' \<in> set rs. ready h1 r'" by (simp add: ready_def)
  from Cons.IH [OF go _ this Cons.prems(4)] Cons.prems(2) obtain dss where
    dss: "length dss = length rs" "wire w' = wire w1 @ concat dss"
      "\<forall>i < length rs. \<exists>st k q. h1 (rs ! i) = Some st \<and> portion st nal k q (dss ! i) \<and>
        h' (rs ! i) = Some (after_nal frame inc q st)" by auto
  let ?d = "map (Pair peer) (take k (nal_packets st nal))"
  have here: "portion st nal k q ?d" using st(3) k(1,2) by (auto simp: portion_def q_def)
  have "h' r = h1 r" using broadcast_keeps [OF go] Cons.prems(2) by simp
  then have fin: "h' r = Some (after_nal frame inc q st)" by (simp add: h1_def)
  have "\<exists>st k q. h ((r # rs) ! i) = Some st \<and> portion st nal k q ((?d # dss) ! i) \<and>
        h' ((r # rs) ! i) = Some (after_nal frame inc q st)" if "i < length (r # rs)" for i
    using that here fin st(1) dss(3) other by (cases i) force+
  then show ?case using dss(1,2) k(3) by (intro exI [of _ "?d # dss"]) simp
qed

text \<open>
  C12: one NAL unit is distributed to every subscriber, in order of subscription.  Each gets a run
  of RTP packets of that NAL unit, numbered on from its own last one, complete unless a send to it
  failed; a failure towards one does not keep the NAL unit from the next; the timestamp of each
  moves on by one frame after a coded slice and not otherwise; streamers that are not subscribed are
  left alone.
\<close>

theorem on_nal_broadcast:
  assumes "hub_ok m" and "nal \<noteq> []" and "rs = hub_subscribers (hub m)"
  shows "\<exists>dss. length dss = length rs \<and> wire (host (on_nal nal m)) = wire (host m) @ concat dss \<and>
     (\<forall>i < length rs. \<exists>st k q. heap m (rs ! i) = Some st \<and> portion st nal k q (dss ! i) \<and>
        heap (on_nal nal m) (rs ! i) = Some (after_nal (is_vcl nal) (hub_ts_increment (hub m)) q st)) \<and>
     (\<forall>r. r \<notin> set rs \<longrightarrow> heap (on_nal nal m) r = heap m r)"
proof -
  have vcl: "is_vcl nal = (nal_type_of nal = kNalSlice \<or> nal_type_of nal = kNalIdr)"
    using assms(2) by (auto simp: is_vcl_def nal_type_of_def kNalSlice_def kNalIdr_def Let_def)
  obtain h w where b: "broadcast nal (is_vcl nal) (hub_ts_increment (hub m)) rs (heap m) (host m) = (h, w)"
    by fastforce
  have fin: "heap (on_nal nal m) = h" "host (on_nal nal m) = w"
    using b assms(2,3) by (auto simp: on_nal_def Let_def vcl split: prod.splits)
  have "distinct rs" "\<forall>r \<in> set rs. ready (heap m) r" using assms(1,3) by (simp_all add: hub_ok_def)
  from broadcast_effect [OF b this assms(2)] broadcast_keeps [OF b] fin show ?thesis by auto
qed

definition sample_media :: media where
  "sample_media =
     \<lparr>hub = (hub_new SourceConfig_default sample_os)\<lparr>hub_subscribers := [4, 2]\<rparr>,
      heap = [2 \<mapsto> sample_streamer, 4 \<mapsto> sample_streamer\<lparr>st_sequence := 10\<rparr>], next_ref = 5,
      host = sample_os\<rparr>"

lemma sample_media_ok: "hub_ok sample_media"
  by (auto simp: sample_media_def hub_ok_def ready_def sample_streamer_def hub_new_def
      SourceConfig_default_def source_is_open_def)

lemma on_nal_broadcast_witness:
  "\<exists>d1 d2. wire (host (on_nal [0x65, 0x88] sample_media)) = d1 @ d2 \<and>
     (\<exists>k q. portion (sample_streamer\<lparr>st_sequence := 10\<rparr>) [0x65, 0x88] k q d1) \<and>
     (\<exists>k q. portion sample_streamer [0x65, 0x88] k q d2)"
proof -
  have subs: "hub_subscribers (hub sample_media) = [4, 2]"
    and heap: "heap sample_media 4 = Some (sample_streamer\<lparr>st_sequence := 10\<rparr>)"
      "heap sample_media 2 = Some sample_streamer"
    and wire: "wire (host sample_media) = []"
    by (simp_all add: sample_media_def sample_os_def)
  from on_nal_broadcast [OF sample_media_ok _ subs [symmetric], of "[0x65, 0x88]"] obtain dss where
    d: "length dss = length [4::nat, 2]"
      "wire (host (on_nal [0x65, 0x88] sample_media)) = wire (host sample_media) @ concat dss"
      "\<forall>i < length [4::nat, 2]. \<exists>st k q. heap sample_media ([4, 2] ! i) = Some st \<and>
         portion st [0x65, 0x88] k q (dss ! i) \<and>
         heap (on_nal [0x65, 0x88] sample_media) ([4, 2] ! i) =
           Some (after_nal (is_vcl [0x65, 0x88]) (hub_ts_increment (hub sample_media)) q st)"
    by blast
  then obtain d1 d2 where "dss = [d1, d2]" by (auto simp: length_Suc_conv)
  with d(2) d(3) [rule_format, of 0] d(3) [rule_format, of 1] heap wire show ?thesis by auto
qed

section \<open>Leaving\<close>

lemma pump_steps_kept: "kept m ((pump_step ^^ n) m)"
  by (induction n) (auto intro: kept_trans pump_step_kept)

lemma pump_steps_dead: "\<not> hub_running (hub m) \<Longrightarrow> (pump_step ^^ n) m = m"
  by (induction n) (auto simp: pump_step_def)

text \<open>
  when \<open>unsubscribe\<close> has returned, the streamer is never used again: the turn of the pump that
  the join waited for did not touch it, and however long the pump goes on for the others its state
  stays what it was.  When it was the last one the pump has stopped for good and nothing is sent.
\<close>

theorem unsubscribe_silences:
  assumes "m' = (pump_step ^^ n) (hub_unsubscribe r m)"
  shows "heap m' r = heap m r \<and> r \<notin> set (hub_subscribers (hub m')) \<and>
    (set (hub_subscribers (hub m)) \<subseteq> {r} \<longrightarrow>
      \<not> hub_running (hub m') \<and> wire (host m') = wire (host (hub_unsubscribe r m)))"
proof (intro conjI impI)
  have k: "kept (hub_unsubscribe r m) m'" using assms pump_steps_kept by simp
  show "r \<notin> set (hub_subscribers (hub m'))" using k by (simp add: kept_def hub_unsubscribe_members)
  show "heap m' r = heap m r"
    using k hub_unsubscribe_heap(2) [of r m] by (simp add: kept_def hub_unsubscribe_members)
  assume "set (hub_subscribers (hub m)) \<subseteq> {r}"
  then have "removeAll r (hub_subscribers (hub m)) = []"
    by (metis Diff_eq_empty_iff set_empty set_removeAll)
  then have stopped: "\<not> hub_running (hub (hub_unsubscribe r m))"
    using pump_join_stops by (simp add: hub_unsubscribe_def Let_def)
  with pump_steps_dead [OF stopped, of n] assms
  show "\<not> hub_running (hub m')" "wire (host m') = wire (host (hub_unsubscribe r m))" by simp_all
qed

lemma unsubscribe_silences_witness:
  "heap ((pump_step ^^ 3) (hub_unsubscribe 2 sample_media)) 2 = Some sample_streamer"
  using unsubscribe_silences [OF refl, of 3 2 sample_media] by (simp add: sample_media_def)

section \<open>Parameter sets\<close>

text \<open>The first NAL unit of a type, the empty string if there is none.\<close>

definition first_of :: "byte \<Rightarrow> bytes list \<Rightarrow> bytes" where
  "first_of t nals = (case find (\<lambda>n. nal_type_of n = t) nals of None \<Rightarrow> [] | Some n \<Rightarrow> n)"

lemma first_of_Cons:
  "first_of t (n # ns) = (if nal_type_of n = t then n else first_of t ns)"
  by (simp add: first_of_def)

lemma cache_first_of:
  assumes "n \<noteq> []" and "cache_parameter_set n (sps, pps) = (sps', pps')"
  shows "(if sps' \<noteq> [] then sps' else first_of kNalSps ns) =
      (if sps \<noteq> [] then sps else first_of kNalSps (n # ns))"
    and "(if pps' \<noteq> [] then pps' else first_of kNalPps ns) =
      (if pps \<noteq> [] then pps else first_of kNalPps (n # ns))"
  using assms
  by (auto simp: cache_parameter_set_def first_of_Cons kNalSps_def kNalPps_def Let_def split: if_splits)

lemma prescan_loop_stream:
  assumes "\<forall>(four, nal) \<in> set ys. clean_nal nal" and "ys \<noteq> []"
    and "b @ concat (reads f) = annexb_stream ys"
  shows "prescan_loop left (Some f) b (sps, pps) =
     (if sps \<noteq> [] then sps else first_of kNalSps (take left (map snd ys)),
      if pps \<noteq> [] then pps else first_of kNalPps (take left (map snd ys)))"
  using assms
proof (induction left arbitrary: ys b f sps pps)
  case 0
  then show ?case by (simp add: first_of_def)
next
  case (Suc left)
  then obtain four n zs where ys: "ys = (four, n) # zs" by (cases ys) auto
  with Suc.prems(1) have n: "clean_nal n" "n \<noteq> []" by (auto simp: clean_nal_def)
  from read_nal_at_stream [OF n(1), of b f four zs] Suc.prems(3) ys obtain b' f' where
    r: "read_nal (Some f) b = (zs \<noteq> [], Some n, b', Some f')" "b' @ concat (reads f') = annexb_stream zs"
    by auto
  obtain sps' pps' where c: "cache_parameter_set n (sps, pps) = (sps', pps')" by fastforce
  note cc = cache_first_of [OF n(2) c, of "take left (map snd zs)"]
  show ?case
  proof (cases "sps = [] \<or> pps = []")
    case False
    then show ?thesis by simp
  next
    case True
    show ?thesis
    proof (cases "zs = []")
      case True
      have "first_of t [] = []" for t by (simp add: first_of_def)
      with cache_first_of [OF n(2) c, of "[]"]
      have "sps' = (if sps \<noteq> [] then sps else first_of kNalSps [n])"
        "pps' = (if pps \<noteq> [] then pps else first_of kNalPps [n])" by (auto split: if_splits)
      then show ?thesis using \<open>sps = [] \<or> pps = []\<close> r c ys True by simp
    next
      case False
      have "prescan_loop left (Some f') b' (sps', pps') =
         (if sps' \<noteq> [] then sps' else first_of kNalSps (take left (map snd zs)),
          if pps' \<noteq> [] then pps' else first_of kNalPps (take left (map snd zs)))"
        using Suc.IH [OF _ False r(2)] Suc.prems(1) ys by auto
      with cc have "prescan_loop left (Some f') b' (sps', pps') =
         (if sps \<noteq> [] then sps else first_of kNalSps (n # take left (map snd zs)),
          if pps \<noteq> [] then pps else first_of kNalPps (n # take left (map snd zs)))" by simp
      then show ?thesis using \<open>sps = [] \<or> pps = []\<close> r c ys False by simp
    qed
  qed
qed

text \<open>
  C32: a hub on a file knows the parameter sets before the first client: the first sequence and the
  first picture parameter set among the first 64 NAL units of the file, wherever the reads cut it.
\<close>

theorem hub_new_prescans:
  assumes "\<forall>(four, nal) \<in> set xs. clean_nal nal" and "xs \<noteq> []" and "cfg_source c \<noteq> ''camera''"
    and "fs_open w (cfg_source c) = Some (fopened cs)" and "concat cs = annexb_stream xs"
  shows "hub_sps (hub_new c w) = first_of kNalSps (take 64 (map snd xs)) \<and>
     hub_pps (hub_new c w) = first_of kNalPps (take 64 (map snd xs))"
  using prescan_loop_stream [OF assms(1,2), of "[]" "fopened cs" kMaxNals "[]" "[]"] assms(3-5)
  by (simp add: hub_new_def prescan_parameter_sets_def fopened_def kMaxNals_def)

lemma hub_new_prescans_witness:
  "let c = SourceConfig_default\<lparr>cfg_source := ''a.h264''\<rparr>;
       w = sample_os\<lparr>fs_open := \<lambda>_. Some (fopened [[0, 0, 1, 0x09, 0xF0, 0, 0, 1, 0x67, 0x42, 0],
             [0, 1, 0x68, 0xCE, 0, 0, 1, 0x65, 0x88]])\<rparr>
   in hub_sps (hub_new c w) = [0x67, 0x42] \<and> hub_pps (hub_new c w) = [0x68, 0xCE]"
proof -
  let ?c = "SourceConfig_default\<lparr>cfg_source := ''a.h264''\<rparr>"
  let ?chunks = "[[0, 0, 1, 0x09, 0xF0, 0, 0, 1, 0x67, 0x42, 0], [0, 1, 0x68, 0xCE, 0, 0, 1, 0x65, 0x88]]"
  let ?w = "sample_os\<lparr>fs_open := \<lambda>_. Some (fopened ?chunks)\<rparr>"
  let ?xs = "[(False, [0x09, 0xF0]), (False, [0x67, 0x42]), (False, [0x68, 0xCE]), (False, [0x65, 0x88])]
      :: (bool \<times> bytes) list"
  have clean: "\<forall>(four, nal) \<in> set ?xs. clean_nal nal" by (simp add: clean_nal_def code_at_def)
  have src: "cfg_source ?c \<noteq> ''camera''" by simp
  have opn: "fs_open ?w (cfg_source ?c) = Some (fopened ?chunks)" by simp
  have cat: "concat ?chunks = annexb_stream ?xs" by (simp add: annexb_stream_def start_code_def)
  have "first_of kNalSps (take 64 (map snd ?xs)) = [0x67, 0x42]"
    "first_of kNalPps (take 64 (map snd ?xs)) = [0x68, 0xCE]"
    by (simp_all add: first_of_def nal_type_of_def kNalSps_def kNalPps_def)
  with hub_new_prescans [OF clean _ src opn cat] show ?thesis by (simp add: Let_def)
qed

lemma sprop_no_cr: "CHR 0x0D \<notin> set (sprop_parameter_sets h)"
  by (simp add: sprop_parameter_sets_def base64_plain)

end
