(* ===== verification/Parsing.thy ===== *)
theory Parsing
  imports Text "HOL-Library.AList" "HOL-Library.Multiset"
begin

text \<open>
  The RTSP request parser (src/rtsp/parser.cpp).  A \<open>std::string\<close> is a list of bytes, here \<open>string\<close>.
  The header table is a \<open>std::unordered_map\<close>: its contents are an association list without
  duplicate keys, and the order in which it is iterated over, which the language leaves open, is
  the parameter \<open>iter\<close>, a function that rearranges the list.
\<close>

section \<open>The code\<close>

datatype Method = OPTIONS | DESCRIBE | SETUP | PLAY | PAUSE | TEARDOWN | GET_PARAMETER | UNKNOWN

text \<open>There are finitely many methods, so that tables over them can be evaluated.\<close>

instantiation Method :: enum
begin
definition "enum_class.enum = [OPTIONS, DESCRIBE, SETUP, PLAY, PAUSE, TEARDOWN, GET_PARAMETER, UNKNOWN]"
definition "enum_class.enum_all P \<longleftrightarrow>
  list_all P [OPTIONS, DESCRIBE, SETUP, PLAY, PAUSE, TEARDOWN, GET_PARAMETER, UNKNOWN]"
definition "enum_class.enum_ex P \<longleftrightarrow>
  list_ex P [OPTIONS, DESCRIBE, SETUP, PLAY, PAUSE, TEARDOWN, GET_PARAMETER, UNKNOWN]"
instance
proof
  have all: "x \<in> set [OPTIONS, DESCRIBE, SETUP, PLAY, PAUSE, TEARDOWN, GET_PARAMETER, UNKNOWN]" for x
    by (cases x) simp_all
  show "UNIV = set (enum_class.enum :: Method list)" unfolding enum_Method_def using all by blast
  show "distinct (enum_class.enum :: Method list)" by (simp add: enum_Method_def)
  show "enum_class.enum_all P \<longleftrightarrow> Ball (UNIV :: Method set) P" for P
    unfolding enum_all_Method_def list_all_iff using all by blast
  show "enum_class.enum_ex P \<longleftrightarrow> Bex (UNIV :: Method set) P" for P
    unfolding enum_ex_Method_def list_ex_iff using all by blast
qed
end

type_synonym header_table = "(string \<times> string) list"

record Request =
  req_method :: Method
  uri :: string
  cseq :: int
  headers :: header_table

definition trim :: "string \<Rightarrow> string" where
  "trim sv = rev (dropWhile isspace (rev (dropWhile isspace sv)))"

definition iequals :: "string \<Rightarrow> string \<Rightarrow> bool" where
  "iequals a b \<longleftrightarrow>
     (if length a \<noteq> length b then False else list_all (\<lambda>(x, y). tolower x = tolower y) (zip a b))"

definition string_to_method :: "string \<Rightarrow> Method" where
  "string_to_method s =
     (if iequals s ''OPTIONS'' then OPTIONS
      else if iequals s ''DESCRIBE'' then DESCRIBE
      else if iequals s ''SETUP'' then SETUP
      else if iequals s ''PLAY'' then PLAY
      else if iequals s ''PAUSE'' then PAUSE
      else if iequals s ''TEARDOWN'' then TEARDOWN
      else if iequals s ''GET_PARAMETER'' then GET_PARAMETER
      else UNKNOWN)"

text \<open>The line up to the next CR LF, and the data after it.\<close>

definition next_line :: "string \<Rightarrow> string \<times> string" where
  "next_line data =
     (case find_sub crlf data of
        None \<Rightarrow> (data, [])
      | Some pos \<Rightarrow> (take pos data, drop (pos + 2) data))"

lemma next_line_shrinks: "data \<noteq> [] \<Longrightarrow> next_line data = (line, rest) \<Longrightarrow> length rest < length data"
  by (auto simp: next_line_def split: option.splits)

function parse_headers :: "string \<Rightarrow> header_table \<Rightarrow> header_table" where
  "parse_headers raw hs =
     (if raw = [] then hs
      else (case next_line raw of
              (line, raw') \<Rightarrow>
                if line = [] then hs
                else (case find_idx (\<lambda>c. c = CHR '':'') line of
                        None \<Rightarrow> parse_headers raw' hs
                      | Some colon_pos \<Rightarrow>
                          parse_headers raw'
                            (AList.update (trim (take colon_pos line))
                               (trim (drop (colon_pos + 1) line)) hs))))"
  by pat_completeness auto
termination
  by (relation "measure (\<lambda>(raw, _). length raw)") (auto dest: next_line_shrinks [OF _ sym])

declare parse_headers.simps [simp del]

text \<open>
  The sequence number: an exact match first, then the first key that matches without regard to
  case.  \<open>std::stoi\<close> may throw; nothing in the parser catches it.
\<close>

definition extract_cseq :: "header_table \<Rightarrow> stoi_exn + int" where
  "extract_cseq hs =
     (case map_of hs ''CSeq'' of
        Some v \<Rightarrow> stoi v
      | None \<Rightarrow>
          (case find (\<lambda>(k, v). iequals k ''CSeq'') hs of
             Some (k, v) \<Rightarrow> stoi v
           | None \<Rightarrow> Inr 0))"

text \<open>\<open>Inl\<close> is an exception that leaves the function, \<open>Inr None\<close> is \<open>std::nullopt\<close>.\<close>

definition parse_request ::
  "(header_table \<Rightarrow> header_table) \<Rightarrow> string \<Rightarrow> stoi_exn + Request option" where
  "parse_request iter raw =
     (if raw = [] then Inr None
      else case next_line raw of (request_line, raw) \<Rightarrow>
        if request_line = [] then Inr None
        else (case find_idx (\<lambda>c. c = CHR '' '') request_line of
                None \<Rightarrow> Inr None
              | Some space1 \<Rightarrow>
                  (let method_str = take space1 request_line;
                       rest = drop (space1 + 1) request_line
                   in case find_idx (\<lambda>c. c = CHR '' '') rest of
                        None \<Rightarrow> Inr None
                      | Some space2 \<Rightarrow>
                          (let version = drop (space2 + 1) rest in
                           if take 5 version \<noteq> ''RTSP/'' then Inr None
                           else (let hs = iter (parse_headers raw []) in
                                 case extract_cseq hs of
                                   Inl e \<Rightarrow> Inl e
                                 | Inr n \<Rightarrow>
                                     Inr (Some \<lparr>req_method = string_to_method method_str,
                                                uri = take space2 rest,
                                                cseq = n, headers = hs\<rparr>))))))"

definition header :: "Request \<Rightarrow> string \<Rightarrow> string option" where
  "header req name = map_option snd (find (\<lambda>(key, value). iequals key name) (headers req))"

section \<open>Case-insensitive comparison and white space\<close>

lemma iequals_iff [search_simps]: "iequals a b \<longleftrightarrow> map tolower a = map tolower b"
  by (auto simp: iequals_def list_all_iff zip_map_map list_eq_iff_nth_eq set_zip dest: map_eq_imp_length_eq)

lemma iequals_sym: "iequals a b \<longleftrightarrow> iequals b a"
  by (auto simp: iequals_iff)

lemma iequals_cong: "iequals a b \<Longrightarrow> iequals k a \<longleftrightarrow> iequals k b"
  by (auto simp: iequals_iff)

lemma trim_space [simp]: "trim (CHR '' '' # s) = trim s"
  by (simp add: trim_def)

lemma trim_id: "(\<And>c. c \<in> set s \<Longrightarrow> \<not> isspace c) \<Longrightarrow> trim s = s"
  by (simp add: trim_def dropWhile_eq_self_iff hd_in_set) (metis dropWhile_eq_self_iff hd_in_set
      list.set_sel(1) rev_rev_ident set_rev)

lemma tolower_idem [simp]: "tolower (tolower c) = tolower c"
  by (simp add: tolower_def Let_def)

section \<open>Lines\<close>

abbreviation no_cr :: "string \<Rightarrow> bool" where
  "no_cr s \<equiv> CHR 0x0D \<notin> set s"

lemma next_line_hit [search_simps]:
  assumes "no_cr line"
  shows "next_line (line @ crlf @ rest) = (line, rest)"
proof -
  have "find_sub crlf (line @ crlf @ rest) = Some (length line)"
  proof (rule find_sub_eq_SomeI)
    fix k assume k: "k < length line"
    have "(line @ crlf @ rest) ! k \<noteq> CHR 0x0D"
      using assms k by (metis nth_append nth_mem)
    moreover have "hd (take (length crlf) (drop k (line @ crlf @ rest))) = (line @ crlf @ rest) ! k"
      using k by (simp add: crlf_def hd_drop_conv_nth hd_append nth_append)
    ultimately show "take (length crlf) (drop k (line @ crlf @ rest)) \<noteq> crlf"
      by (metis crlf_def list.sel(1))
  qed (simp_all add: crlf_def)
  then show ?thesis by (simp add: next_line_def crlf_def)
qed

lemma next_line_parts:
  "next_line data = (line, rest) \<Longrightarrow> (data = line @ crlf @ rest \<or> (data = line \<and> rest = []))"
proof (cases "find_sub crlf data")
  case None
  then show "next_line data = (line, rest) \<Longrightarrow> ?thesis" by (simp add: next_line_def)
next
  case (Some n)
  from find_sub_Some_at [OF this] have "take 2 (drop n data) = crlf"
    by (simp add: crlf_def numeral_2_eq_2)
  then have "data = take n data @ crlf @ drop (n + 2) data"
    by (metis append_take_drop_id drop_drop add.commute)
  with Some show "next_line data = (line, rest) \<Longrightarrow> ?thesis" by (auto simp: next_line_def)
qed

lemma next_line_no_cr: "no_cr line \<Longrightarrow> next_line line = (line, [])"
proof -
  assume a: "no_cr line"
  have "find_sub crlf line = None"
  proof (rule ccontr)
    assume "find_sub crlf line \<noteq> None"
    then obtain n where "find_sub crlf line = Some n" by auto
    from find_sub_Some_at [OF this] have "crlf = take 2 (drop n line)"
      by (simp add: crlf_def numeral_2_eq_2)
    then have "CHR 0x0D \<in> set (take 2 (drop n line))" by (metis crlf_def list.set_intros(1))
    with a show False by (meson in_set_dropD in_set_takeD)
  qed
  then show ?thesis by (simp add: next_line_def)
qed

section \<open>Looking a header up\<close>

text \<open>What the language promises of the iteration over an \<open>unordered_map\<close>: every entry, once.\<close>

definition iterates :: "(header_table \<Rightarrow> header_table) \<Rightarrow> bool" where
  "iterates iter \<longleftrightarrow> (\<forall>hs. mset (iter hs) = mset hs)"

lemma iterates_set [simp]: "iterates iter \<Longrightarrow> set (iter hs) = set hs"
  by (metis iterates_def set_mset_mset)

lemma iterates_keys: "iterates iter \<Longrightarrow> distinct (map fst (iter hs)) \<longleftrightarrow> distinct (map fst hs)"
  by (metis iterates_def mset_map mset_eq_imp_distinct_iff)

definition only_value :: "header_table \<Rightarrow> string \<Rightarrow> string \<Rightarrow> bool" where
  "only_value hs name v \<longleftrightarrow>
     (\<exists>k. (k, v) \<in> set hs \<and> iequals k name) \<and> (\<forall>(k, w) \<in> set hs. iequals k name \<longrightarrow> w = v)"

lemma only_value_cong: "set hs = set hs' \<Longrightarrow> only_value hs name v \<longleftrightarrow> only_value hs' name v"
  by (simp add: only_value_def)

lemma find_in: "find P xs = Some x \<Longrightarrow> x \<in> set xs \<and> P x"
  by (induction xs) (auto split: if_splits)

lemma find_only_value:
  assumes "only_value hs name v"
  shows "\<exists>k. find (\<lambda>(k, v). iequals k name) hs = Some (k, v)"
proof (cases "find (\<lambda>(k, v). iequals k name) hs")
  case None
  with assms show ?thesis by (auto simp: only_value_def find_None_iff)
next
  case (Some p)
  with find_in [OF this] assms show ?thesis by (cases p) (auto simp: only_value_def)
qed

lemma extract_cseq_only:
  assumes "only_value hs ''CSeq'' v"
  shows "extract_cseq hs = stoi v"
proof (cases "map_of hs ''CSeq''")
  case None
  moreover obtain k where "find (\<lambda>(k, v). iequals k ''CSeq'') hs = Some (k, v)"
    using find_only_value [OF assms] by blast
  ultimately show ?thesis by (simp add: extract_cseq_def)
next
  case (Some w)
  from map_of_SomeD [OF this] assms have "w = v" by (auto simp: only_value_def iequals_iff)
  with Some show ?thesis by (simp add: extract_cseq_def)
qed

lemma header_only: "only_value (headers r) name v \<Longrightarrow> header r name = Some v"
  by (drule find_only_value) (auto simp: header_def)

lemma header_None: "header r name = None \<longleftrightarrow> (\<forall>(k, v) \<in> set (headers r). \<not> iequals k name)"
  by (auto simp: header_def find_None_iff)

section \<open>Writing a request\<close>

text \<open>The other direction, as a client writes it: request line, header lines, an empty line.\<close>

definition render_headers :: "header_table \<Rightarrow> string" where
  "render_headers hs = concat (map (\<lambda>(k, v). k @ '': '' @ v @ crlf) hs)"

definition render_request :: "string \<Rightarrow> string \<Rightarrow> string \<Rightarrow> header_table \<Rightarrow> string" where
  "render_request m u v hs = m @ '' '' @ u @ '' '' @ v @ crlf @ render_headers hs @ crlf"

definition wf_header :: "string \<times> string \<Rightarrow> bool" where
  "wf_header h \<longleftrightarrow>
     (case h of (k, v) \<Rightarrow> no_cr k \<and> CHR '':'' \<notin> set k \<and> trim k = k \<and> no_cr v \<and> trim v = v)"

definition wf_request_line :: "string \<Rightarrow> string \<Rightarrow> string \<Rightarrow> bool" where
  "wf_request_line m u v \<longleftrightarrow>
     no_cr m \<and> CHR '' '' \<notin> set m \<and> no_cr u \<and> CHR '' '' \<notin> set u \<and> no_cr v \<and> take 5 v = ''RTSP/''"

lemma parse_headers_end [simp]: "parse_headers (crlf @ rest) hs = hs"
  using next_line_hit [of "[]" rest] by (subst parse_headers.simps) (simp add: crlf_def)

lemma parse_headers_line:
  assumes "wf_header (k, v)"
  shows "parse_headers (k @ '': '' @ v @ crlf @ rest) hs = parse_headers rest (AList.update k v hs)"
proof -
  have nl: "next_line ((k @ '': '' @ v) @ crlf @ rest) = (k @ '': '' @ v, rest)"
    using assms by (intro next_line_hit) (auto simp: wf_header_def)
  have "find_idx (\<lambda>c. c = CHR '':'') (k @ '': '' @ v) = Some (length k)"
    using assms find_idx_hit [of k "\<lambda>c. c = CHR '':''" "CHR '':''"] by (auto simp: wf_header_def)
  then show ?thesis
    using nl assms by (subst parse_headers.simps) (simp add: wf_header_def)
qed

lemma update_new: "k \<notin> fst ` set hs \<Longrightarrow> AList.update k v hs = hs @ [(k, v)]"
  by (induction hs) auto

lemma parse_render_headers:
  assumes "list_all wf_header hs" and "distinct (map fst (acc @ hs))"
  shows "parse_headers (render_headers hs @ crlf @ rest) acc = acc @ hs"
  using assms
proof (induction hs arbitrary: acc)
  case Nil
  then show ?case by (simp add: render_headers_def)
next
  case (Cons h hs)
  obtain k v where h: "h = (k, v)" by (cases h)
  with Cons.prems have w: "wf_header (k, v)" and k: "k \<notin> fst ` set acc" by auto
  from Cons.IH [of "acc @ [(k, v)]"] Cons.prems h
  have "parse_headers (render_headers hs @ crlf @ rest) (acc @ [(k, v)]) = acc @ h # hs" by simp
  with parse_headers_line [OF w, of "render_headers hs @ crlf @ rest" acc] update_new [OF k] h
  show ?case by (simp add: render_headers_def)
qed

section \<open>What the parser accepts, returns and throws\<close>

text \<open>The shape of a request line the parser accepts.\<close>

definition request_line_shape :: "string \<Rightarrow> string \<Rightarrow> string \<Rightarrow> string \<Rightarrow> bool" where
  "request_line_shape line m u v \<longleftrightarrow>
     line = m @ '' '' @ u @ '' '' @ v \<and> CHR '' '' \<notin> set m \<and> CHR '' '' \<notin> set u
       \<and> take 5 v = ''RTSP/''"

lemma parse_request_shape:
  assumes "request_line_shape (fst (next_line raw)) m u v"
  shows "parse_request iter raw =
     (let hs = iter (parse_headers (snd (next_line raw)) []) in
      case extract_cseq hs of
        Inl e \<Rightarrow> Inl e
      | Inr n \<Rightarrow> Inr (Some \<lparr>req_method = string_to_method m, uri = u, cseq = n, headers = hs\<rparr>))"
proof -
  obtain line rest where nl: "next_line raw = (line, rest)" by force
  with assms have line: "line = m @ CHR '' '' # u @ CHR '' '' # v"
    and m: "CHR '' '' \<notin> set m" and u: "CHR '' '' \<notin> set u" and v: "take 5 v = ''RTSP/''"
    by (auto simp: request_line_shape_def)
  have "raw \<noteq> []" using nl line by (auto simp: next_line_def split: option.splits)
  moreover have "find_idx (\<lambda>c. c = CHR '' '') line = Some (length m)"
    unfolding line using m by (intro find_idx_hit) auto
  moreover have "find_idx (\<lambda>c. c = CHR '' '') (u @ CHR '' '' # v) = Some (length u)"
    using u by (intro find_idx_hit) auto
  ultimately show ?thesis
    using nl v line by (simp add: parse_request_def Let_def cong del: sum.case_cong_weak)
qed

lemma find_space_split:
  assumes "find_idx (\<lambda>c. c = CHR '' '') s = Some n"
  shows "s = take n s @ '' '' @ drop (n + 1) s" and "CHR '' '' \<notin> set (take n s)"
proof -
  from find_idx_Some [OF assms] have n: "n < length s" "s ! n = CHR '' ''"
    "\<forall>c \<in> set (take n s). c \<noteq> CHR '' ''" by simp_all
  have "s = take n s @ s ! n # drop (Suc n) s" by (rule id_take_nth_drop [OF n(1)])
  also have "\<dots> = take n s @ '' '' @ drop (n + 1) s" using n(2) by simp
  finally show "s = take n s @ '' '' @ drop (n + 1) s" .
  from n(3) show "CHR '' '' \<notin> set (take n s)" by blast
qed

lemma parse_request_no_shape:
  assumes "\<nexists>m u v. request_line_shape (fst (next_line raw)) m u v"
  shows "parse_request iter raw = Inr None"
proof (rule ccontr)
  assume not: "parse_request iter raw \<noteq> Inr None"
  obtain line rest where nl: "next_line raw = (line, rest)" by force
  from not nl obtain n where n: "find_idx (\<lambda>c. c = CHR '' '') line = Some n"
    by (auto simp: parse_request_def split: if_splits option.splits)
  from not nl n obtain k where k: "find_idx (\<lambda>c. c = CHR '' '') (drop (n + 1) line) = Some k"
    by (cases "find_idx (\<lambda>c. c = CHR '' '') (drop (n + 1) line)")
      (auto simp: parse_request_def split: if_splits)
  from not nl n k have "take 5 (drop (k + 1) (drop (n + 1) line)) = ''RTSP/''"
    by (auto simp: parse_request_def Let_def split: if_splits)
  with find_space_split [OF n] find_space_split [OF k]
  have "request_line_shape line (take n line) (take k (drop (n + 1) line))
          (drop (k + 1) (drop (n + 1) line))"
    unfolding request_line_shape_def by metis
  with assms nl show False by auto
qed

lemma render_shape:
  assumes "wf_request_line m u v"
  shows "request_line_shape (fst (next_line (render_request m u v hs))) m u v"
    "snd (next_line (render_request m u v hs)) = render_headers hs @ crlf"
  using assms next_line_hit [of "m @ '' '' @ u @ '' '' @ v" "render_headers hs @ crlf"]
  by (auto simp: render_request_def request_line_shape_def wf_request_line_def)

lemma parse_rendered:
  assumes "wf_request_line m u v" and "list_all wf_header hs" and "distinct (map fst hs)"
  shows "parse_request iter (render_request m u v hs) =
     (case extract_cseq (iter hs) of
        Inl e \<Rightarrow> Inl e
      | Inr n \<Rightarrow> Inr (Some \<lparr>req_method = string_to_method m, uri = u, cseq = n, headers = iter hs\<rparr>))"
  unfolding parse_request_shape [OF render_shape(1) [OF assms(1)]] render_shape(2) [OF assms(1)]
  using parse_render_headers [of hs "[]" "[]"] assms(2,3) by (simp add: Let_def)

lemma parse_rendered_cseq:
  assumes "wf_request_line m u v" and "list_all wf_header hs" and "distinct (map fst hs)"
    and "iterates iter" and "only_value hs ''CSeq'' c"
  shows "parse_request iter (render_request m u v hs) =
     (case stoi c of
        Inl e \<Rightarrow> Inl e
      | Inr n \<Rightarrow> Inr (Some \<lparr>req_method = string_to_method m, uri = u, cseq = n, headers = iter hs\<rparr>))"
proof -
  have "only_value (iter hs) ''CSeq'' c"
    using assms(4,5) only_value_cong [of "iter hs" hs] by simp
  then show ?thesis using parse_rendered [OF assms(1-3)] extract_cseq_only by metis
qed

text \<open>
  a request is refused with \<open>nullopt\<close> exactly when its first line is not of the form method,
  space, URI, space, a version that starts with \<open>RTSP/\<close>; nothing in the headers can make it so.
\<close>

theorem parse_request_refuses:
  "parse_request iter raw = Inr None \<longleftrightarrow> (\<nexists>m u v. request_line_shape (fst (next_line raw)) m u v)"
proof
  show "\<nexists>m u v. request_line_shape (fst (next_line raw)) m u v \<Longrightarrow> parse_request iter raw = Inr None"
    by (rule parse_request_no_shape)
next
  assume none: "parse_request iter raw = Inr None"
  show "\<nexists>m u v. request_line_shape (fst (next_line raw)) m u v"
  proof (intro notI, elim exE)
    fix m u v assume "request_line_shape (fst (next_line raw)) m u v"
    from parse_request_shape [OF this, of iter] none show False
      by (auto simp: Let_def split: sum.splits)
  qed
qed

text \<open>What a client writes for each method (RFC 2326, 10); case does not matter.\<close>

fun method_name :: "Method \<Rightarrow> string" where
  "method_name OPTIONS = ''OPTIONS''"
| "method_name DESCRIBE = ''DESCRIBE''"
| "method_name SETUP = ''SETUP''"
| "method_name PLAY = ''PLAY''"
| "method_name PAUSE = ''PAUSE''"
| "method_name TEARDOWN = ''TEARDOWN''"
| "method_name GET_PARAMETER = ''GET_PARAMETER''"
| "method_name UNKNOWN = []"

definition names_method :: "string \<Rightarrow> Method \<Rightarrow> bool" where
  "names_method m mt \<longleftrightarrow> mt \<noteq> UNKNOWN \<and> map tolower m = map tolower (method_name mt)"

lemma names_read: "\<forall>mt. mt \<noteq> UNKNOWN \<longrightarrow> string_to_method (method_name mt) = mt"
  by code_simp

lemma string_to_method_named: "names_method m mt \<Longrightarrow> string_to_method m = mt"
proof -
  assume h: "names_method m mt"
  then have "string_to_method m = string_to_method (method_name mt)"
    by (simp add: string_to_method_def iequals_iff names_method_def)
  with h names_read show "string_to_method m = mt" by (simp add: names_method_def)
qed

lemma string_to_method_unnamed:
  assumes "\<forall>mt. \<not> names_method m mt"
  shows "string_to_method m = UNKNOWN"
proof -
  have "\<not> iequals m (method_name mt)" if "mt \<noteq> UNKNOWN" for mt
    using assms that by (auto simp: names_method_def iequals_iff)
  from this [of OPTIONS] this [of DESCRIBE] this [of SETUP] this [of PLAY] this [of PAUSE] this [of TEARDOWN]
    this [of GET_PARAMETER] show ?thesis by (simp add: string_to_method_def)
qed

text \<open>
  C34: a request that a client writes is read back: the method is the one that was written, in any
  case, and \<open>UNKNOWN\<close> when none of the seven was; the URI and the sequence number are the ones written,
  and looking any header up under any spelling of its name gives the value written, in whatever order
  the header table is iterated over.
\<close>

theorem parse_request_roundtrip:
  assumes "wf_request_line m u v" and "list_all wf_header hs" and "distinct (map fst hs)"
    and "iterates iter" and "only_value hs ''CSeq'' (show_int n)" and "int32 n"
  shows "\<exists>r. parse_request iter (render_request m u v hs) = Inr (Some r)
     \<and> (\<forall>mt. names_method m mt \<longrightarrow> req_method r = mt)
     \<and> ((\<forall>mt. \<not> names_method m mt) \<longrightarrow> req_method r = UNKNOWN) \<and> uri r = u \<and> cseq r = n
     \<and> (\<forall>name x. only_value hs name x \<longrightarrow> header r name = Some x)"
proof -
  let ?r = "\<lparr>req_method = string_to_method m, uri = u, cseq = n, headers = iter hs\<rparr>"
  have "parse_request iter (render_request m u v hs) = Inr (Some ?r)"
    using parse_rendered_cseq [OF assms(1-5)] stoi_show_int [OF assms(6), of "[]"] by simp
  moreover have "header ?r name = Some x" if "only_value hs name x" for name x
    using that only_value_cong [of "iter hs" hs] assms(4) by (intro header_only) simp
  ultimately show ?thesis using string_to_method_named string_to_method_unnamed
    by (intro exI [of _ ?r]) auto
qed

lemma parse_request_roundtrip_witness:
  "\<exists>r. parse_request rev (render_request ''pause'' ''rtsp://h/s'' ''RTSP/1.0''
            [(''cseq'', ''-12''), (''Session'', ''AB'')]) = Inr (Some r)
     \<and> req_method r = PAUSE \<and> cseq r = -12 \<and> header r ''SESSION'' = Some ''AB''"
proof -
  let ?hs = "[(''cseq'', ''-12''), (''Session'', ''AB'')]"
  have 1: "wf_request_line ''pause'' ''rtsp://h/s'' ''RTSP/1.0''" by code_simp
  have 2: "list_all wf_header ?hs" by code_simp
  have 3: "iterates rev" by (simp add: iterates_def)
  have n: "show_int (-12) = ''-12''" by code_simp
  have 4: "only_value ?hs ''CSeq'' (show_int (-12))"
    unfolding n by (simp add: only_value_def) code_simp
  have 5: "only_value ?hs ''SESSION'' ''AB''" by (simp add: only_value_def) code_simp
  have 6: "names_method ''pause'' PAUSE" by code_simp
  from parse_request_roundtrip [OF 1 2 _ 3 4] 5 6 show ?thesis by (auto simp: int32_def)
qed

end
