(* ===== verification/Response.thy ===== *)
theory Response
  imports Parsing
begin

text \<open>
  The responses (src/rtsp/response.cpp) as the strings the code assembles, and a client that reads
  them back off the connection: status line, header fields up to the empty line, and a body of as
  many bytes as \<open>Content-Length\<close> says.
\<close>

section \<open>The code\<close>

definition response_ok :: "int \<Rightarrow> string" where
  "response_ok cs =
     ''RTSP/1.0 200 OK'' @ crlf
     @ ''CSeq: '' @ show_int cs @ crlf
     @ crlf"

definition response_ok_session :: "int \<Rightarrow> string \<Rightarrow> string" where
  "response_ok_session cs session_id =
     ''RTSP/1.0 200 OK'' @ crlf
     @ ''CSeq: '' @ show_int cs @ crlf
     @ ''Session: '' @ session_id @ crlf
     @ crlf"

definition response_options :: "int \<Rightarrow> string" where
  "response_options cs =
     ''RTSP/1.0 200 OK'' @ crlf
     @ ''CSeq: '' @ show_int cs @ crlf
     @ ''Public: OPTIONS, DESCRIBE, SETUP, PLAY, PAUSE, TEARDOWN, GET_PARAMETER'' @ crlf
     @ crlf"

definition response_describe :: "int \<Rightarrow> string \<Rightarrow> string \<Rightarrow> string" where
  "response_describe cs sdp content_base =
     ''RTSP/1.0 200 OK'' @ crlf
     @ ''CSeq: '' @ show_int cs @ crlf
     @ ''Content-Type: application/sdp'' @ crlf
     @ ''Content-Base: '' @ content_base @ crlf
     @ ''Content-Length: '' @ show_nat (length sdp) @ crlf
     @ crlf
     @ sdp"

definition response_setup :: "int \<Rightarrow> string \<Rightarrow> int \<Rightarrow> int \<Rightarrow> int \<Rightarrow> int \<Rightarrow> string" where
  "response_setup cs session_id client_rtp_port client_rtcp_port server_rtp_port server_rtcp_port =
     ''RTSP/1.0 200 OK'' @ crlf
     @ ''CSeq: '' @ show_int cs @ crlf
     @ ''Session: '' @ session_id @ crlf
     @ ''Transport: RTP/AVP;unicast;''
     @ ''client_port='' @ show_int client_rtp_port @ ''-'' @ show_int client_rtcp_port @ '';''
     @ ''server_port='' @ show_int server_rtp_port @ ''-'' @ show_int server_rtcp_port @ crlf
     @ crlf"

definition response_play :: "int \<Rightarrow> string \<Rightarrow> string" where
  "response_play cs session_id =
     ''RTSP/1.0 200 OK'' @ crlf
     @ ''CSeq: '' @ show_int cs @ crlf
     @ ''Session: '' @ session_id @ crlf
     @ ''Range: npt=0.000-'' @ crlf
     @ crlf"

definition response_teardown :: "int \<Rightarrow> string \<Rightarrow> string" where
  "response_teardown cs session_id =
     ''RTSP/1.0 200 OK'' @ crlf
     @ ''CSeq: '' @ show_int cs @ crlf
     @ ''Session: '' @ session_id @ crlf
     @ crlf"

definition response_error :: "int \<Rightarrow> int \<Rightarrow> string \<Rightarrow> string" where
  "response_error cs status_code reason =
     ''RTSP/1.0 '' @ show_int status_code @ '' '' @ reason @ crlf
     @ ''CSeq: '' @ show_int cs @ crlf
     @ crlf"

section \<open>The client's side\<close>

record reply =
  reply_status :: int
  reply_reason :: string
  reply_fields :: header_table
  reply_body :: string

fun strip_prefix :: "string \<Rightarrow> string \<Rightarrow> string option" where
  "strip_prefix [] s = Some s"
| "strip_prefix (p # ps) [] = None"
| "strip_prefix (p # ps) (c # s) = (if p = c then strip_prefix ps s else None)"

lemma strip_prefix_append [simp]: "strip_prefix p (p @ s) = Some s"
  by (induction p) auto

lemma strip_prefix_self [simp]: "strip_prefix p p = Some []"
  using strip_prefix_append [of p "[]"] by simp

lemma strip_prefix_append_left:
  "strip_prefix (p @ q) s = Option.bind (strip_prefix p s) (strip_prefix q)"
  by (induction p s rule: strip_prefix.induct) auto

text \<open>The header fields and what follows the empty line; \<open>None\<close> when there is none.\<close>

function read_fields :: "string \<Rightarrow> header_table \<Rightarrow> (header_table \<times> string) option" where
  "read_fields s fs =
     (if s = [] then None
      else (case next_line s of
              (line, rest) \<Rightarrow>
                if line = [] then Some (fs, rest)
                else (case find_idx (\<lambda>c. c = CHR '':'') line of
                        None \<Rightarrow> None
                      | Some k \<Rightarrow>
                          read_fields rest
                            (fs @ [(trim (take k line), trim (drop (k + 1) line))]))))"
  by pat_completeness auto
termination
  by (relation "measure (\<lambda>(s, _). length s)") (auto dest: next_line_shrinks [OF _ sym])

declare read_fields.simps [simp del]

definition content_length :: "header_table \<Rightarrow> nat option" where
  "content_length fs =
     (case map_of fs ''Content-Length'' of
        None \<Rightarrow> Some 0
      | Some v \<Rightarrow> (case stoi v of Inr n \<Rightarrow> if 0 \<le> n then Some (nat n) else None | Inl _ \<Rightarrow> None))"

definition read_reply :: "string \<Rightarrow> (reply \<times> string) option" where
  "read_reply s =
     (case next_line s of (line, rest) \<Rightarrow>
        case strip_prefix ''RTSP/1.0 '' line of
          None \<Rightarrow> None
        | Some st \<Rightarrow>
            (case (stoi st, find_idx (\<lambda>c. c = CHR '' '') st, read_fields rest []) of
               (Inr code, Some k, Some (fs, rest)) \<Rightarrow>
                 (case content_length fs of
                    None \<Rightarrow> None
                  | Some n \<Rightarrow>
                      if length rest < n then None
                      else Some (\<lparr>reply_status = code, reply_reason = drop (k + 1) st, reply_fields = fs,
                                  reply_body = take n rest\<rparr>, drop n rest))
             | _ \<Rightarrow> None))"

section \<open>Reading back what was written\<close>

definition render_reply :: "int \<Rightarrow> string \<Rightarrow> header_table \<Rightarrow> string \<Rightarrow> string" where
  "render_reply code why fs content =
     ''RTSP/1.0 '' @ show_int code @ '' '' @ why @ crlf @ render_headers fs @ crlf @ content"

lemma read_fields_end: "read_fields (crlf @ rest) fs = Some (fs, rest)"
  using next_line_hit [of "[]" rest] by (subst read_fields.simps) (simp add: crlf_def)

lemma read_fields_line:
  assumes "wf_header (k, v)"
  shows "read_fields (k @ '': '' @ v @ crlf @ rest) fs = read_fields rest (fs @ [(k, v)])"
proof -
  have nl: "next_line ((k @ '': '' @ v) @ crlf @ rest) = (k @ '': '' @ v, rest)"
    using assms by (intro next_line_hit) (auto simp: wf_header_def)
  have "find_idx (\<lambda>c. c = CHR '':'') (k @ '': '' @ v) = Some (length k)"
    using assms find_idx_hit [of k "\<lambda>c. c = CHR '':''" "CHR '':''"] by (auto simp: wf_header_def)
  then show ?thesis
    using nl assms by (subst read_fields.simps) (simp add: wf_header_def)
qed

lemma read_render_fields:
  "list_all wf_header fs \<Longrightarrow>
     read_fields (render_headers fs @ crlf @ rest) acc = Some (acc @ fs, rest)"
proof (induction fs arbitrary: acc)
  case Nil
  then show ?case by (simp add: render_headers_def read_fields_end)
next
  case (Cons f fs)
  obtain k v where f: "f = (k, v)" by (cases f)
  with Cons.prems have "wf_header (k, v)" by simp
  from read_fields_line [OF this, of "render_headers fs @ crlf @ rest" acc] Cons f
  show ?case by (simp add: render_headers_def)
qed

lemma show_int_no_cr [simp]: "CHR 0x0D \<notin> set (show_int i)"
  using show_int_no_space by (metis isspace_crlf(1))

lemma read_render_reply:
  assumes "int32 code" and "no_cr why" and "list_all wf_header fs"
    and "content_length fs = Some (length content)"
  shows "read_reply (render_reply code why fs content @ rest) =
     Some (\<lparr>reply_status = code, reply_reason = why, reply_fields = fs, reply_body = content\<rparr>, rest)"
proof -
  have nl: "next_line ((''RTSP/1.0 '' @ show_int code @ '' '' @ why) @ crlf
       @ render_headers fs @ crlf @ content @ rest)
     = (''RTSP/1.0 '' @ show_int code @ '' '' @ why, render_headers fs @ crlf @ content @ rest)"
    using assms(2) by (intro next_line_hit) auto
  have sp: "find_idx (\<lambda>c. c = CHR '' '') (show_int code @ CHR '' '' # why) = Some (length (show_int code))"
    using show_int_no_space by (intro find_idx_hit) (auto simp: isspace_def)
  have num: "stoi (show_int code @ CHR '' '' # why) = Inr code"
    by (rule stoi_show_int [OF assms(1)]) (auto simp: isdigit_def)
  show ?thesis
    using nl sp num read_render_fields [OF assms(3), of "content @ rest" "[]"] assms(4)
    by (simp add: render_reply_def read_reply_def)
qed

section \<open>The responses of the server\<close>

definition wf_value :: "string \<Rightarrow> bool" where
  "wf_value v \<longleftrightarrow> no_cr v \<and> trim v = v"

lemma wf_value_plain: "(\<And>c. c \<in> set v \<Longrightarrow> \<not> isspace c) \<Longrightarrow> wf_value v"
  by (auto simp: wf_value_def trim_id) (metis isspace_crlf(1))

lemma wf_value_show_int [simp]: "wf_value (show_int i)"
  by (intro wf_value_plain show_int_no_space)

lemma wf_header_field: "wf_value v \<Longrightarrow> no_cr k \<Longrightarrow> CHR '':'' \<notin> set k \<Longrightarrow> trim k = k \<Longrightarrow> wf_header (k, v)"
  by (simp add: wf_header_def wf_value_def)

lemma trim_names [simp]:
  "trim ''CSeq'' = ''CSeq''" "trim ''Session'' = ''Session''" "trim ''Public'' = ''Public''"
  "trim ''Transport'' = ''Transport''" "trim ''Range'' = ''Range''"
  "trim ''Content-Type'' = ''Content-Type''" "trim ''Content-Base'' = ''Content-Base''"
  "trim ''Content-Length'' = ''Content-Length''"
  by code_simp+

definition public_methods :: string where
  "public_methods = ''OPTIONS, DESCRIBE, SETUP, PLAY, PAUSE, TEARDOWN, GET_PARAMETER''"

definition transport_value :: "int \<Rightarrow> int \<Rightarrow> int \<Rightarrow> int \<Rightarrow> string" where
  "transport_value c1 c2 s1 s2 =
     ''RTP/AVP;unicast;client_port='' @ show_int c1 @ ''-'' @ show_int c2
     @ '';server_port='' @ show_int s1 @ ''-'' @ show_int s2"

lemma wf_transport_value [simp]: "wf_value (transport_value a b c d)"
  by (rule wf_value_plain) (auto simp: transport_value_def isspace_def dest: show_int_no_space)

lemma wf_fixed_values [simp]:
  "wf_value public_methods" "wf_value ''npt=0.000-''" "wf_value ''application/sdp''"
  by code_simp+

lemma show_codes: "show_int 200 = ''200''"
  by code_simp

lemma show_int_nat: "show_int (int n) = show_nat n"
  by (simp add: show_int_def)

lemmas as_rendered = render_reply_def render_headers_def show_codes

lemma renderings:
  "response_ok cs = render_reply 200 ''OK'' [(''CSeq'', show_int cs)] []"
  "response_ok_session cs sid =
     render_reply 200 ''OK'' [(''CSeq'', show_int cs), (''Session'', sid)] []"
  "response_options cs =
     render_reply 200 ''OK'' [(''CSeq'', show_int cs), (''Public'', public_methods)] []"
  "response_describe cs sdp base =
     render_reply 200 ''OK'' [(''CSeq'', show_int cs), (''Content-Type'', ''application/sdp''),
       (''Content-Base'', base), (''Content-Length'', show_int (int (length sdp)))] sdp"
  "response_setup cs sid c1 c2 s1 s2 =
     render_reply 200 ''OK'' [(''CSeq'', show_int cs), (''Session'', sid),
       (''Transport'', transport_value c1 c2 s1 s2)] []"
  "response_play cs sid =
     render_reply 200 ''OK'' [(''CSeq'', show_int cs), (''Session'', sid),
       (''Range'', ''npt=0.000-'')] []"
  "response_teardown cs sid =
     render_reply 200 ''OK'' [(''CSeq'', show_int cs), (''Session'', sid)] []"
  "response_error cs code why = render_reply code why [(''CSeq'', show_int cs)] []"
  unfolding response_ok_def response_ok_session_def response_options_def response_describe_def
    response_setup_def response_play_def response_teardown_def response_error_def
    public_methods_def transport_value_def
  by (simp_all add: as_rendered show_int_nat)

lemma wf_fields:
  "wf_value v \<Longrightarrow> wf_header (''CSeq'', v)" "wf_value v \<Longrightarrow> wf_header (''Session'', v)"
  "wf_value v \<Longrightarrow> wf_header (''Public'', v)" "wf_value v \<Longrightarrow> wf_header (''Transport'', v)"
  "wf_value v \<Longrightarrow> wf_header (''Range'', v)" "wf_value v \<Longrightarrow> wf_header (''Content-Type'', v)"
  "wf_value v \<Longrightarrow> wf_header (''Content-Base'', v)" "wf_value v \<Longrightarrow> wf_header (''Content-Length'', v)"
  by (rule wf_header_field; simp)+

lemma content_length_absent: "map_of fs ''Content-Length'' = None \<Longrightarrow> content_length fs = Some 0"
  by (simp add: content_length_def)

lemma content_length_present:
  "map_of fs ''Content-Length'' = Some (show_int (int n)) \<Longrightarrow> int32 (int n) \<Longrightarrow> content_length fs = Some n"
  using stoi_show_int [of "int n" "[]"] by (simp add: content_length_def)

lemma int32_small: "0 \<le> i \<Longrightarrow> i < 1000 \<Longrightarrow> int32 i"
  by (simp add: int32_def)

text \<open>The fields a client sees in each kind of response without a body.\<close>

lemma read_bodyless:
  assumes "int32 code" and "no_cr why" and "list_all wf_header fs"
    and "map_of fs ''Content-Length'' = None"
  shows "read_reply (render_reply code why fs [] @ rest) =
     Some (\<lparr>reply_status = code, reply_reason = why, reply_fields = fs, reply_body = []\<rparr>, rest)"
  using read_render_reply [OF assms(1-3), of "[]"] content_length_absent [OF assms(4)] by simp

text \<open>
  a client that reads a response without a body off the connection, with any bytes behind it,
  finds the status, the sequence number of its request and the session, port and range fields, and
  the bytes that were behind are what is left to read.
\<close>

theorem replies_read_back:
  assumes "wf_value sid" and "no_cr why" and "int32 code"
  shows "read_reply (response_ok cs @ rest) =
       Some (\<lparr>reply_status = 200, reply_reason = ''OK'', reply_fields = [(''CSeq'', show_int cs)],
              reply_body = []\<rparr>, rest)
     \<and> read_reply (response_ok_session cs sid @ rest) =
       Some (\<lparr>reply_status = 200, reply_reason = ''OK'',
              reply_fields = [(''CSeq'', show_int cs), (''Session'', sid)], reply_body = []\<rparr>, rest)
     \<and> read_reply (response_options cs @ rest) =
       Some (\<lparr>reply_status = 200, reply_reason = ''OK'',
              reply_fields = [(''CSeq'', show_int cs), (''Public'', public_methods)],
              reply_body = []\<rparr>, rest)
     \<and> read_reply (response_setup cs sid c1 c2 s1 s2 @ rest) =
       Some (\<lparr>reply_status = 200, reply_reason = ''OK'',
              reply_fields = [(''CSeq'', show_int cs), (''Session'', sid),
                              (''Transport'', transport_value c1 c2 s1 s2)],
              reply_body = []\<rparr>, rest)
     \<and> read_reply (response_play cs sid @ rest) =
       Some (\<lparr>reply_status = 200, reply_reason = ''OK'',
              reply_fields = [(''CSeq'', show_int cs), (''Session'', sid), (''Range'', ''npt=0.000-'')],
              reply_body = []\<rparr>, rest)
     \<and> read_reply (response_teardown cs sid @ rest) =
       Some (\<lparr>reply_status = 200, reply_reason = ''OK'',
              reply_fields = [(''CSeq'', show_int cs), (''Session'', sid)], reply_body = []\<rparr>, rest)
     \<and> read_reply (response_error cs code why @ rest) =
       Some (\<lparr>reply_status = code, reply_reason = why, reply_fields = [(''CSeq'', show_int cs)],
              reply_body = []\<rparr>, rest)"
  unfolding renderings using assms int32_small [of 200]
  by (intro conjI read_bodyless; simp add: wf_fields)+

lemma replies_read_back_witness:
  "read_reply (response_setup 3 ''0A1B2C3D'' 5000 5001 0 0 @ response_error 4 455 ''No'') =
     Some (\<lparr>reply_status = 200, reply_reason = ''OK'',
            reply_fields = [(''CSeq'', show_int 3), (''Session'', ''0A1B2C3D''),
                            (''Transport'', transport_value 5000 5001 0 0)],
            reply_body = []\<rparr>, response_error 4 455 ''No'')"
proof -
  have "wf_value ''0A1B2C3D''" by code_simp
  from replies_read_back [OF this, of "''No''" 455 3] show ?thesis by (simp add: int32_def)
qed

text \<open>
  the \<open>DESCRIBE\<close> response is framed: its declared length is that of the session description,
  which the client gets as the body, whole, whatever bytes it holds, and nothing of the next
  response with it.
\<close>

theorem describe_read_back:
  assumes "wf_value base" and "length sdp < 2 ^ 31"
  shows "read_reply (response_describe cs sdp base @ rest) =
     Some (\<lparr>reply_status = 200, reply_reason = ''OK'',
            reply_fields = [(''CSeq'', show_int cs), (''Content-Type'', ''application/sdp''),
                            (''Content-Base'', base),
                            (''Content-Length'', show_int (int (length sdp)))],
            reply_body = sdp\<rparr>, rest)"
  unfolding renderings using assms int32_small [of 200]
  by (intro read_render_reply) (simp_all add: wf_fields content_length_present int32_def)

lemma describe_read_back_witness:
  "read_reply (response_describe 2 ''v=0'' ''rtsp://h/s/'' @ crlf) =
     Some (\<lparr>reply_status = 200, reply_reason = ''OK'',
            reply_fields = [(''CSeq'', show_int 2), (''Content-Type'', ''application/sdp''),
                            (''Content-Base'', ''rtsp://h/s/''),
                            (''Content-Length'', show_int 3)],
            reply_body = ''v=0''\<rparr>, crlf)"
proof -
  have "wf_value ''rtsp://h/s/''" by code_simp
  from describe_read_back [OF this, of "''v=0''" 2 crlf] show ?thesis by simp
qed

end
