(* ===== verification/Sdp.thy ===== *)
theory Sdp
  imports Response
begin

text \<open>
  The session description (src/sdp/builder.cpp), and a client that finds in it what it needs to
  receive the stream: the payload type of the media line, the clock rate of the rtpmap line of that
  type, and the parameter sets of its fmtp line.
\<close>

section \<open>The code\<close>

record VideoStreamInfo =
  info_payload_type :: int
  info_clock_rate :: int
  info_sprop_parameter_sets :: string

definition VideoStreamInfo_default :: VideoStreamInfo where
  "VideoStreamInfo_default =
     \<lparr>info_payload_type = 96, info_clock_rate = 90000, info_sprop_parameter_sets = []\<rparr>"

definition build :: "VideoStreamInfo \<Rightarrow> string" where
  "build info =
     ''v=0'' @ crlf
     @ ''o=- 0 0 IN IP4 0.0.0.0'' @ crlf
     @ ''s=VEDA RTSP Stream'' @ crlf
     @ ''c=IN IP4 0.0.0.0'' @ crlf
     @ ''t=0 0'' @ crlf
     @ ''a=control:*'' @ crlf
     @ ''m=video 0 RTP/AVP '' @ show_int (info_payload_type info) @ crlf
     @ ''a=rtpmap:'' @ show_int (info_payload_type info)
         @ '' H264/'' @ show_int (info_clock_rate info) @ crlf
     @ ''a=fmtp:'' @ show_int (info_payload_type info) @ '' packetization-mode=1''
         @ (if info_sprop_parameter_sets info \<noteq> []
            then '';sprop-parameter-sets='' @ info_sprop_parameter_sets info else [])
         @ crlf
     @ ''a=control:track0'' @ crlf"

section \<open>The client's side\<close>

function text_lines :: "string \<Rightarrow> string list" where
  "text_lines s =
     (if s = [] then [] else (case next_line s of (line, rest) \<Rightarrow> line # text_lines rest))"
  by pat_completeness auto
termination
  by (relation "measure length") (auto dest: next_line_shrinks [OF _ sym])

declare text_lines.simps [simp del]

fun line_value :: "string \<Rightarrow> string list \<Rightarrow> string option" where
  "line_value p [] = None"
| "line_value p (l # ls) =
     (case strip_prefix p l of Some v \<Rightarrow> Some v | None \<Rightarrow> line_value p ls)"

definition number :: "string \<Rightarrow> int option" where
  "number s = (case stoi s of Inr n \<Rightarrow> Some n | Inl _ \<Rightarrow> None)"

definition read_sdp :: "string \<Rightarrow> VideoStreamInfo option" where
  "read_sdp s =
     Option.bind (Option.bind (line_value ''m=video 0 RTP/AVP '' (text_lines s)) number) (\<lambda>pt.
     Option.bind (Option.bind (line_value (''a=rtpmap:'' @ show_int pt @ '' H264/'') (text_lines s)) number)
       (\<lambda>clock.
     map_option
       (\<lambda>opts. \<lparr>info_payload_type = pt, info_clock_rate = clock,
                info_sprop_parameter_sets =
                  (case strip_prefix '';sprop-parameter-sets='' opts of Some v \<Rightarrow> v | None \<Rightarrow> [])\<rparr>)
       (line_value (''a=fmtp:'' @ show_int pt @ '' packetization-mode=1'') (text_lines s))))"

section \<open>Reading the description back\<close>

lemma text_lines_line: "no_cr line \<Longrightarrow> text_lines (line @ crlf @ rest) = line # text_lines rest"
  by (subst text_lines.simps) (simp add: next_line_hit crlf_def [symmetric], simp add: crlf_def)

lemma text_lines_concat:
  "\<forall>l \<in> set ls. no_cr l \<Longrightarrow> text_lines (concat (map (\<lambda>l. l @ crlf) ls)) = ls"
proof (induction ls)
  case Nil
  show ?case by (subst text_lines.simps) simp
next
  case (Cons l ls)
  then show ?case by (simp add: text_lines_line)
qed

definition sdp_lines :: "VideoStreamInfo \<Rightarrow> string list" where
  "sdp_lines info =
     [''v=0'', ''o=- 0 0 IN IP4 0.0.0.0'', ''s=VEDA RTSP Stream'', ''c=IN IP4 0.0.0.0'', ''t=0 0'',
      ''a=control:*'', ''m=video 0 RTP/AVP '' @ show_int (info_payload_type info),
      ''a=rtpmap:'' @ show_int (info_payload_type info) @ '' H264/'' @ show_int (info_clock_rate info),
      ''a=fmtp:'' @ show_int (info_payload_type info) @ '' packetization-mode=1''
        @ (if info_sprop_parameter_sets info \<noteq> []
           then '';sprop-parameter-sets='' @ info_sprop_parameter_sets info else []),
      ''a=control:track0'']"

lemma build_lines: "build info = concat (map (\<lambda>l. l @ crlf) (sdp_lines info))"
  by (simp add: build_def sdp_lines_def)

lemma text_lines_build:
  "no_cr (info_sprop_parameter_sets info) \<Longrightarrow> text_lines (build info) = sdp_lines info"
  unfolding build_lines by (rule text_lines_concat) (auto simp: sdp_lines_def)

lemma number_show_int: "int32 i \<Longrightarrow> number (show_int i) = Some i"
  using stoi_show_int [of i "[]"] by (simp add: number_def)

lemma sdp_values:
  "line_value ''m=video 0 RTP/AVP '' (sdp_lines info) = Some (show_int (info_payload_type info))"
  "line_value (''a=rtpmap:'' @ show_int (info_payload_type info) @ '' H264/'') (sdp_lines info)
     = Some (show_int (info_clock_rate info))"
  "line_value (''a=fmtp:'' @ show_int (info_payload_type info) @ '' packetization-mode=1'')
      (sdp_lines info)
     = Some (if info_sprop_parameter_sets info \<noteq> []
             then '';sprop-parameter-sets='' @ info_sprop_parameter_sets info else [])"
  by (simp_all add: sdp_lines_def strip_prefix_append_left)

text \<open>
  a client that reads the description gets the payload type, the clock rate and the parameter
  sets that it was built from; in particular the empty parameter sets leave no trace in it.
\<close>

theorem sdp_roundtrip:
  assumes "int32 (info_payload_type info)" and "int32 (info_clock_rate info)"
    and "no_cr (info_sprop_parameter_sets info)"
  shows "read_sdp (build info) = Some info"
  using assms sdp_values [of info]
  by (cases info) (simp add: read_sdp_def text_lines_build number_show_int)

lemma sdp_roundtrip_witness:
  "read_sdp (build (VideoStreamInfo_default \<lparr>info_sprop_parameter_sets := ''Z0IAH+KQ,aM4xUg==''\<rparr>))
     = Some (VideoStreamInfo_default \<lparr>info_sprop_parameter_sets := ''Z0IAH+KQ,aM4xUg==''\<rparr>)"
  by (rule sdp_roundtrip) (simp_all add: VideoStreamInfo_default_def int32_def)

end
