(* ===== verification/Session.thy ===== *)
theory Session
  imports Hub Sdp
begin

text \<open>
  \<open>rtsp::Session\<close> (src/rtsp/session.cpp): one client's protocol state machine.  It takes bytes in,
  cuts them into requests, checks each against the state and the session id, and gives strings to
  the send function.  The operations return the strings sent, in order.
\<close>

section \<open>State\<close>

datatype State = INIT | READY | PLAYING | CLOSED

instantiation State :: enum
begin
definition "enum_class.enum = [INIT, READY, PLAYING, CLOSED]"
definition "enum_class.enum_all P \<longleftrightarrow> list_all P [INIT, READY, PLAYING, CLOSED]"
definition "enum_class.enum_ex P \<longleftrightarrow> list_ex P [INIT, READY, PLAYING, CLOSED]"
instance
proof
  have all: "x \<in> set [INIT, READY, PLAYING, CLOSED]" for x by (cases x) simp_all
  show "UNIV = set (enum_class.enum :: State list)" unfolding enum_State_def using all by blast
  show "distinct (enum_class.enum :: State list)" by (simp add: enum_State_def)
  show "enum_class.enum_all P \<longleftrightarrow> Ball (UNIV :: State set) P" for P
    unfolding enum_all_State_def list_all_iff using all by blast
  show "enum_class.enum_ex P \<longleftrightarrow> Bex (UNIV :: State set) P" for P
    unfolding enum_ex_State_def list_ex_iff using all by blast
qed
end

record Session =
  client_ip :: string
  has_hub :: bool
  rx_buffer :: string
  state :: State
  session_id :: string
  client_rtp_port :: int
  client_rtcp_port :: int
  streamer :: "nat option"

definition Session_new :: "string \<Rightarrow> bool \<Rightarrow> Session" where
  "Session_new ip hub_given =
     \<lparr>client_ip = ip, has_hub = hub_given, rx_buffer = [], state = INIT, session_id = [],
      client_rtp_port = 0, client_rtcp_port = 0, streamer = None\<rparr>"

definition kMaxRxBuffer :: nat where
  "kMaxRxBuffer = 64 * 1024"

section \<open>Helpers\<close>

text \<open>\<open>std::hex\<close>, \<open>std::uppercase\<close>, \<open>std::setfill('0')\<close> and \<open>std::setw(8)\<close> on an unsigned value.\<close>

function show_hex :: "nat \<Rightarrow> string" where
  "show_hex n =
     (if n < 16 then [''0123456789ABCDEF'' ! n]
      else show_hex (n div 16) @ [''0123456789ABCDEF'' ! (n mod 16)])"
  by pat_completeness auto
termination
  by (relation "measure id") auto

declare show_hex.simps [simp del]

definition generate_session_id :: "os \<Rightarrow> string \<times> os" where
  "generate_session_id w =
     (let (r, w) = draw w; digits = show_hex (unat r)
      in (replicate (8 - length digits) (CHR ''0'') @ digits, w))"

text \<open>Signed overflow of \<open>+ 1\<close> is undefined in C++; it is taken to wrap around.\<close>

definition wrap32 :: "int \<Rightarrow> int" where
  "wrap32 i = (i + 2 ^ 31) mod 2 ^ 32 - 2 ^ 31"

text \<open>
  The two ports are reference parameters, assigned one after the other: the result carries their
  values whether or not the parse succeeds.
\<close>

definition parse_transport :: "string \<Rightarrow> int \<Rightarrow> int \<Rightarrow> bool \<times> int \<times> int" where
  "parse_transport transport rtp rtcp =
     (case find_sub ''client_port='' transport of
        None \<Rightarrow> (False, rtp, rtcp)
      | Some pos \<Rightarrow>
          (let ports = takeWhile (\<lambda>c. c \<noteq> CHR '';'' \<and> c \<noteq> CHR '','') (drop (pos + 12) transport) in
           case find_idx (\<lambda>c. c = CHR ''-'') ports of
             None \<Rightarrow>
               (case stoi ports of
                  Inl _ \<Rightarrow> (False, rtp, rtcp)
                | Inr p \<Rightarrow> (0 < p \<and> p \<le> 65535, p, wrap32 (p + 1)))
           | Some dash \<Rightarrow>
               (case stoi (take dash ports) of
                  Inl _ \<Rightarrow> (False, rtp, rtcp)
                | Inr p \<Rightarrow>
                    (case stoi (drop (dash + 1) ports) of
                       Inl _ \<Rightarrow> (False, p, rtcp)
                     | Inr q \<Rightarrow> (0 < p \<and> p \<le> 65535, p, q)))))"

definition session_id_of :: "string \<Rightarrow> string" where
  "session_id_of v =
     (case find_idx (\<lambda>c. c = CHR '';'') v of None \<Rightarrow> v | Some semi \<Rightarrow> take semi v)"

section \<open>The handlers\<close>

text \<open>
  When a session lets go of its streamer no other reference is left (the hub has just dropped its
  own), so the object is deleted and leaves the store.
\<close>

definition streamer_release :: "nat \<Rightarrow> media \<Rightarrow> media" where
  "streamer_release r m =
     (case heap m r of
        None \<Rightarrow> m
      | Some st \<Rightarrow> m\<lparr>heap := (heap m)(r := None), host := Streamer_delete st (host m)\<rparr>)"

definition stop_streaming :: "Session \<Rightarrow> media \<Rightarrow> Session \<times> media" where
  "stop_streaming s m =
     (case streamer s of
        None \<Rightarrow> (s, m)
      | Some r \<Rightarrow>
          (let m = (if has_hub s then hub_unsubscribe r m else m)
           in (s\<lparr>streamer := None\<rparr>, streamer_release r m)))"

definition on_disconnect :: "Session \<Rightarrow> media \<Rightarrow> Session \<times> media" where
  "on_disconnect s m = (let (s, m) = stop_streaming s m in (s\<lparr>state := CLOSED\<rparr>, m))"

definition method_allowed :: "State \<Rightarrow> Method \<Rightarrow> bool" where
  "method_allowed st m =
     (case m of
        OPTIONS \<Rightarrow> True
      | GET_PARAMETER \<Rightarrow> True
      | DESCRIBE \<Rightarrow> True
      | SETUP \<Rightarrow> st = INIT \<or> st = READY
      | PLAY \<Rightarrow> st = READY
      | PAUSE \<Rightarrow> st = PLAYING
      | TEARDOWN \<Rightarrow> st = READY \<or> st = PLAYING
      | UNKNOWN \<Rightarrow> False)"

text \<open>
  A handler's result: the response, empty when it has sent one itself; the calls of the send function
  it made on its way, each with what was around at the moment of the call; the state.
\<close>

type_synonym handled = "string \<times> (string \<times> media) list \<times> Session \<times> media"

definition handle_describe :: "Request \<Rightarrow> Session \<Rightarrow> media \<Rightarrow> handled" where
  "handle_describe req s m =
     (let video_info = \<lparr>info_payload_type = 96, info_clock_rate = 90000,
            info_sprop_parameter_sets = (if has_hub s then sprop_parameter_sets (hub m) else [])\<rparr>;
          sdp = build video_info
      in (response_describe (cseq req) sdp (uri req @ ''/''), [], s, m))"

definition handle_setup :: "Request \<Rightarrow> Session \<Rightarrow> media \<Rightarrow> handled" where
  "handle_setup req s m =
     (case header req ''Transport'' of
        None \<Rightarrow> (response_error (cseq req) 400 ''Bad Request - No Transport'', [], s, m)
      | Some transport_hdr \<Rightarrow>
          (let (ok, rtp, rtcp) = parse_transport transport_hdr (client_rtp_port s) (client_rtcp_port s);
               s = s\<lparr>client_rtp_port := rtp, client_rtcp_port := rtcp\<rparr>
           in if \<not> ok then (response_error (cseq req) 461 ''Unsupported Transport'', [], s, m)
              else (let (sid, w) = (if session_id s = [] then generate_session_id (host m)
                                    else (session_id s, host m));
                        s = s\<lparr>session_id := sid, state := READY\<rparr>
                    in (response_setup (cseq req) sid rtp rtcp 6970 6971, [], s, m\<lparr>host := w\<rparr>))))"

definition session_header_matches :: "Request \<Rightarrow> Session \<Rightarrow> bool" where
  "session_header_matches req s \<longleftrightarrow>
     (case header req ''Session'' of None \<Rightarrow> False | Some v \<Rightarrow> session_id_of v = session_id s)"

definition handle_play :: "Request \<Rightarrow> Session \<Rightarrow> media \<Rightarrow> handled" where
  "handle_play req s m =
     (if \<not> session_header_matches req s
      then (response_error (cseq req) 454 ''Session Not Found'', [], s, m)
      else (let (st, w) = Streamer_new (host m);
                (ok, st, w) = streamer_connect st (client_ip s) (word_of_int (client_rtp_port s)) w;
                m = m\<lparr>host := w\<rparr>
            in if \<not> ok
               then (response_error (cseq req) 500 ''Internal Server Error'', [], s, m\<lparr>host := Streamer_delete st w\<rparr>)
               else (let sent = [(response_play (cseq req) (session_id s), m)];
                         r = next_ref m;
                         m = m\<lparr>heap := (heap m)(r \<mapsto> st), next_ref := Suc r\<rparr>;
                         (ok, m) = (if has_hub s then hub_subscribe (Some r) m else (False, m))
                     in if \<not> ok then ([], sent, s, streamer_release r m)
                        else ([], sent, s\<lparr>streamer := Some r, state := PLAYING\<rparr>, m))))"

definition handle_pause :: "Request \<Rightarrow> Session \<Rightarrow> media \<Rightarrow> handled" where
  "handle_pause req s m =
     (if \<not> session_header_matches req s
      then (response_error (cseq req) 454 ''Session Not Found'', [], s, m)
      else (let (s, m) = stop_streaming s m; s = s\<lparr>state := READY\<rparr>
            in (response_ok_session (cseq req) (session_id s), [], s, m)))"

definition handle_teardown :: "Request \<Rightarrow> Session \<Rightarrow> media \<Rightarrow> handled" where
  "handle_teardown req s m =
     (if \<not> session_header_matches req s
      then (response_error (cseq req) 454 ''Session Not Found'', [], s, m)
      else (let (s, m) = stop_streaming s m; s = s\<lparr>state := CLOSED\<rparr>
            in (response_teardown (cseq req) (session_id s), [], s, m)))"

definition handle :: "Request \<Rightarrow> Session \<Rightarrow> media \<Rightarrow> handled" where
  "handle req s m =
     (if req_method req = UNKNOWN
      then (response_error (cseq req) 501 ''Not Implemented'', [], s, m)
      else if \<not> method_allowed (state s) (req_method req)
      then (response_error (cseq req) 455 ''Method Not Valid in This State'', [], s, m)
      else (case req_method req of
              OPTIONS \<Rightarrow> (response_options (cseq req), [], s, m)
            | DESCRIBE \<Rightarrow> handle_describe req s m
            | SETUP \<Rightarrow> handle_setup req s m
            | PLAY \<Rightarrow> handle_play req s m
            | PAUSE \<Rightarrow> handle_pause req s m
            | TEARDOWN \<Rightarrow> handle_teardown req s m
            | GET_PARAMETER \<Rightarrow>
                ((if session_id s = [] then response_ok (cseq req)
                  else response_ok_session (cseq req) (session_id s)), [], s, m)
            | UNKNOWN \<Rightarrow> (response_error (cseq req) 500 ''Internal Server Error'', [], s, m)))"

section \<open>Feeding bytes\<close>

lemma stop_streaming_fields [state_simps]:
  "rx_buffer (fst (stop_streaming s m)) = rx_buffer s" "state (fst (stop_streaming s m)) = state s"
  "session_id (fst (stop_streaming s m)) = session_id s" "client_ip (fst (stop_streaming s m)) = client_ip s"
  "has_hub (fst (stop_streaming s m)) = has_hub s" "streamer (fst (stop_streaming s m)) = None"
  by (auto simp: stop_streaming_def Let_def split: option.split)

lemma handle_rx:
  assumes "handle req s m = (resp, sent, s', m')"
  shows "rx_buffer s' = rx_buffer s"
proof -
  obtain t n where st: "stop_streaming s m = (t, n)" by fastforce
  with stop_streaming_fields(1) [of s m] have "rx_buffer t = rx_buffer s" by simp
  with st assms show ?thesis
    by (auto simp: handle_def handle_describe_def handle_setup_def handle_play_def handle_pause_def
        handle_teardown_def Let_def split: if_splits Method.splits option.splits prod.splits)
qed

definition blank_line :: string where
  "blank_line = crlf @ crlf"

lemma length_blank_line [simp]: "length blank_line = 4"
  by (simp add: blank_line_def crlf_def)

lemma blank_line_cut: "find_sub blank_line b = Some n \<Longrightarrow> n + 4 \<le> length b"
  using find_sub_Some_at [of blank_line b n] by simp

text \<open>\<open>Inl\<close> in the second component is an exception that leaves \<open>feed\<close>; else its return value.\<close>

function feed_loop :: "(header_table \<Rightarrow> header_table) \<Rightarrow> Session \<Rightarrow> media \<Rightarrow>
    string list \<times> (stoi_exn + bool) \<times> Session \<times> media" where
  "feed_loop iter s m =
     (case find_sub blank_line (rx_buffer s) of
        None \<Rightarrow> ([], Inr True, s, m)
      | Some end_pos \<Rightarrow>
          (let raw_request = take (end_pos + 4) (rx_buffer s);
               s = s\<lparr>rx_buffer := drop (end_pos + 4) (rx_buffer s)\<rparr> in
           case parse_request iter raw_request of
             Inl e \<Rightarrow> ([], Inl e, s, m)
           | Inr None \<Rightarrow>
               (case feed_loop iter s m of
                  (out, res) \<Rightarrow> (response_error 0 400 ''Bad Request'' # out, res))
           | Inr (Some req) \<Rightarrow>
               (case handle req s m of
                  (response, sent, s, m) \<Rightarrow>
                    (let sent = map fst sent @ (if response \<noteq> [] then [response] else []) in
                     if state s = CLOSED then (sent, Inr False, s, m)
                     else (case feed_loop iter s m of (out, res) \<Rightarrow> (sent @ out, res))))))"
  by pat_completeness auto
termination
proof (relation "measure (\<lambda>(_, s, _). length (rx_buffer s))", goal_cases)
  case 2
  then show ?case by (auto dest: blank_line_cut)
next
  case 3
  then show ?case by (auto dest!: blank_line_cut handle_rx [OF sym])
qed simp

declare feed_loop.simps [simp del]

definition feed :: "(header_table \<Rightarrow> header_table) \<Rightarrow> string \<Rightarrow> Session \<Rightarrow> media \<Rightarrow>
    string list \<times> (stoi_exn + bool) \<times> Session \<times> media" where
  "feed iter data s m =
     (let s = s\<lparr>rx_buffer := rx_buffer s @ data\<rparr> in
      if length (rx_buffer s) > kMaxRxBuffer then ([], Inr False, s, m)
      else feed_loop iter s m)"

section \<open>The state table\<close>

text \<open>
  The table at the top of src/rtsp/session.hpp, and the moves of its diagram.  A closed session
  takes no methods.
\<close>

fun allowed_in :: "State \<Rightarrow> Method list" where
  "allowed_in INIT = [OPTIONS, DESCRIBE, SETUP, GET_PARAMETER]"
| "allowed_in READY = [OPTIONS, DESCRIBE, SETUP, PLAY, TEARDOWN, GET_PARAMETER]"
| "allowed_in PLAYING = [OPTIONS, DESCRIBE, PAUSE, TEARDOWN, GET_PARAMETER]"
| "allowed_in CLOSED = []"

inductive moves :: "State \<Rightarrow> Method \<Rightarrow> State \<Rightarrow> bool" where
  to_ready: "st = INIT \<or> st = READY \<Longrightarrow> moves st SETUP READY"
| to_playing: "moves READY PLAY PLAYING"
| back_to_ready: "moves PLAYING PAUSE READY"
| to_closed: "st = READY \<or> st = PLAYING \<Longrightarrow> moves st TEARDOWN CLOSED"

inductive_simps moves_simps: "moves st m st'"

code_pred moves .

text \<open>The guard of the code is the table, and the diagram keeps to it and is deterministic, by evaluation.\<close>

lemma method_table:
  "\<forall>st m. st \<noteq> CLOSED \<longrightarrow> method_allowed st m = (m \<in> set (allowed_in st))"
  by code_simp

lemmas method_allowed_table = method_table [rule_format]

lemma moves_allowed: "\<forall>st m st'. moves st m st' \<longrightarrow> m \<in> set (allowed_in st)"
  by code_simp

lemma moves_deterministic: "\<forall>st m a b. moves st m a \<longrightarrow> moves st m b \<longrightarrow> a = b"
  by code_simp

text \<open>\<open>answers out code c\<close>: the output is one response, with that status and that \<open>CSeq\<close>.\<close>

definition answers :: "string list \<Rightarrow> int \<Rightarrow> int \<Rightarrow> bool" where
  "answers out code c \<longleftrightarrow>
     (\<exists>why fs content. out = [render_reply code why fs content] \<and> map_of fs ''CSeq'' = Some (show_int c))"

definition outputs :: "string \<Rightarrow> (string \<times> media) list \<Rightarrow> string list" where
  "outputs response sent = map fst sent @ (if response \<noteq> [] then [response] else [])"

lemma render_reply_nonempty [simp]: "render_reply code why fs content \<noteq> []"
  by (simp add: render_reply_def)

lemma outputs_simps [simp]:
  "outputs [] sent = map fst sent" "outputs (render_reply code why fs content) [] = [render_reply code why fs content]"
  by (simp_all add: outputs_def)


lemma answers_intro:
  "map_of fs ''CSeq'' = Some (show_int c) \<Longrightarrow> answers [render_reply code why fs content] code c"
  by (auto simp: answers_def)

text \<open>The status of the response to each request, from the state, the ids and the transport.\<close>

definition play_connects :: "Session \<Rightarrow> media \<Rightarrow> bool" where
  "play_connects s m =
     (let (st, w) = Streamer_new (host m)
      in fst (streamer_connect st (client_ip s) (word_of_int (client_rtp_port s)) w))"

definition expected_status :: "Request \<Rightarrow> Session \<Rightarrow> media \<Rightarrow> int" where
  "expected_status req s m =
     (if req_method req = UNKNOWN then 501
      else if req_method req \<notin> set (allowed_in (state s)) then 455
      else if req_method req \<in> {PLAY, PAUSE, TEARDOWN} \<and> \<not> session_header_matches req s then 454
      else if req_method req = SETUP
      then (case header req ''Transport'' of
              None \<Rightarrow> 400
            | Some t \<Rightarrow> if fst (parse_transport t (client_rtp_port s) (client_rtcp_port s)) then 200 else 461)
      else if req_method req = PLAY \<and> \<not> play_connects s m then 500
      else 200)"

lemma handle_describe_answers:
  "handle_describe req s m = (resp, sent, s', m') \<Longrightarrow>
     answers (outputs resp sent) 200 (cseq req) \<and> s' = s \<and> m' = m"
  by (auto simp: handle_describe_def renderings Let_def intro!: answers_intro)

lemma handle_setup_answers:
  assumes "handle_setup req s m = (resp, sent, s', m')"
  shows "answers (outputs resp sent)
      (case header req ''Transport'' of None \<Rightarrow> 400
       | Some t \<Rightarrow> if fst (parse_transport t (client_rtp_port s) (client_rtcp_port s)) then 200 else 461)
      (cseq req)"
    and "streamer s' = streamer s" "heap m' = heap m" "hub m' = hub m"
    and "state s' = state s \<or> state s' = READY"
  using assms
  by (auto simp: handle_setup_def renderings Let_def split: option.splits prod.splits if_splits
      intro!: answers_intro)

lemma handle_play_answers:
  assumes "handle_play req s m = (resp, sent, s', m')"
  shows "answers (outputs resp sent)
      (if \<not> session_header_matches req s then 454 else if \<not> play_connects s m then 500 else 200) (cseq req)"
    and "state s' = state s \<or> state s' = PLAYING"
    and "\<not> session_header_matches req s \<or> \<not> play_connects s m \<Longrightarrow> s' = s"
  using assms
  by (auto simp: handle_play_def play_connects_def renderings Let_def split: prod.splits if_splits
      intro!: answers_intro)

lemma handle_stop_answers:
  "handle_pause req s m = (resp, sent, s', m') \<Longrightarrow>
     answers (outputs resp sent) (if \<not> session_header_matches req s then 454 else 200) (cseq req) \<and>
     (if session_header_matches req s
      then s' = (fst (stop_streaming s m))\<lparr>state := READY\<rparr> \<and> m' = snd (stop_streaming s m)
      else s' = s \<and> m' = m)"
  "handle_teardown req s m = (resp, sent, s', m') \<Longrightarrow>
     answers (outputs resp sent) (if \<not> session_header_matches req s then 454 else 200) (cseq req) \<and>
     (if session_header_matches req s
      then s' = (fst (stop_streaming s m))\<lparr>state := CLOSED\<rparr> \<and> m' = snd (stop_streaming s m)
      else s' = s \<and> m' = m)"
  by (auto simp: handle_pause_def handle_teardown_def renderings Let_def split: prod.splits if_splits
      intro!: answers_intro)

lemma answers_error: "answers (outputs (response_error cs code why) []) code cs"
  by (simp add: renderings answers_intro)

lemma handle_refuses:
  "req_method req = UNKNOWN \<Longrightarrow>
     handle req s m = (response_error (cseq req) 501 ''Not Implemented'', [], s, m)"
  "req_method req \<noteq> UNKNOWN \<Longrightarrow> \<not> method_allowed (state s) (req_method req) \<Longrightarrow>
     handle req s m = (response_error (cseq req) 455 ''Method Not Valid in This State'', [], s, m)"
  by (simp_all add: handle_def)

text \<open>Which handler runs.\<close>

lemma handle_runs:
  assumes "method_allowed (state s) (req_method req)"
  shows "req_method req = OPTIONS \<Longrightarrow> handle req s m = (response_options (cseq req), [], s, m)"
    and "req_method req = GET_PARAMETER \<Longrightarrow> handle req s m =
      ((if session_id s = [] then response_ok (cseq req)
        else response_ok_session (cseq req) (session_id s)), [], s, m)"
    and "req_method req = DESCRIBE \<Longrightarrow> handle req s m = handle_describe req s m"
    and "req_method req = SETUP \<Longrightarrow> handle req s m = handle_setup req s m"
    and "req_method req = PLAY \<Longrightarrow> handle req s m = handle_play req s m"
    and "req_method req = PAUSE \<Longrightarrow> handle req s m = handle_pause req s m"
    and "req_method req = TEARDOWN \<Longrightarrow> handle req s m = handle_teardown req s m"
  using assms by (simp_all add: handle_def)

lemma answers_ok:
  "answers (outputs (response_options c) []) 200 c" "answers (outputs (response_ok c) []) 200 c"
  "answers (outputs (response_ok_session c sid) []) 200 c"
  by (simp_all add: renderings answers_intro)

lemma handle_refused_cases:
  assumes "handle req s m = (resp, sent, s', m')" and "req_method req = UNKNOWN \<or> \<not> method_allowed (state s) (req_method req)"
  shows "answers (outputs resp sent) (if req_method req = UNKNOWN then 501 else 455) (cseq req) \<and> s' = s \<and> m' = m"
  using assms answers_error handle_refuses [of req s m] by (auto split: if_splits)

lemma handle_allowed_cases:
  assumes "handle req s m = (resp, sent, s', m')" and "method_allowed (state s) (req_method req)"
    and "req_method req \<in> set (allowed_in (state s))" and "req_method req \<noteq> UNKNOWN"
  shows "answers (outputs resp sent) (expected_status req s m) (cseq req) \<and>
     (state s' = state s \<or> expected_status req s m = 200 \<and> moves (state s) (req_method req) (state s')) \<and>
     (expected_status req s m \<noteq> 200 \<longrightarrow> streamer s' = streamer s \<and> hub m' = hub m \<and> heap m' = heap m)"
proof (cases "req_method req")
  case OPTIONS
  with handle_runs(1) [OF assms(2)] assms(1,3) answers_ok show ?thesis by (auto simp: expected_status_def)
next
  case GET_PARAMETER
  with handle_runs(2) [OF assms(2)] assms(1,3) answers_ok show ?thesis
    by (auto simp: expected_status_def split: if_splits)
next
  case DESCRIBE
  with handle_runs(3) [OF assms(2)] assms(1) have "handle_describe req s m = (resp, sent, s', m')" by simp
  from handle_describe_answers [OF this] show ?thesis using assms(3) DESCRIBE by (simp add: expected_status_def)
next
  case SETUP
  with handle_runs(4) [OF assms(2)] assms(1) have h: "handle_setup req s m = (resp, sent, s', m')" by simp
  have "state s = INIT \<or> state s = READY" using assms(2) SETUP by (simp add: method_allowed_def)
  moreover have "expected_status req s m \<noteq> 200 \<Longrightarrow> state s' = state s"
    using h assms(3) SETUP
    by (auto simp: handle_setup_def expected_status_def Let_def split: option.splits prod.splits if_splits)
  ultimately show ?thesis
    using handle_setup_answers [OF h] assms(3) SETUP by (auto simp: expected_status_def moves_simps)
next
  case PLAY
  with handle_runs(5) [OF assms(2)] assms(1) have h: "handle_play req s m = (resp, sent, s', m')" by simp
  have "state s = READY" using assms(2) PLAY by (simp add: method_allowed_def)
  moreover have "expected_status req s m \<noteq> 200 \<Longrightarrow> hub m' = hub m \<and> heap m' = heap m"
    using h assms(3) PLAY
    by (auto simp: handle_play_def expected_status_def play_connects_def Let_def split: prod.splits if_splits)
  ultimately show ?thesis
    using handle_play_answers [OF h] assms(3) PLAY by (auto simp: expected_status_def moves_simps)
next
  case PAUSE
  with handle_runs(6) [OF assms(2)] assms(1) have h: "handle_pause req s m = (resp, sent, s', m')" by simp
  from assms(2) PAUSE handle_stop_answers(1) [OF h] assms(3) show ?thesis
    by (auto simp: method_allowed_def expected_status_def moves_simps split: if_splits)
next
  case TEARDOWN
  with handle_runs(7) [OF assms(2)] assms(1) have h: "handle_teardown req s m = (resp, sent, s', m')" by simp
  from assms(2) TEARDOWN handle_stop_answers(2) [OF h] assms(3) show ?thesis
    by (auto simp: method_allowed_def expected_status_def moves_simps split: if_splits)
qed (use assms(4) in simp)

lemma handle_cases:
  assumes "handle req s m = (resp, sent, s', m')" and "state s \<noteq> CLOSED"
  shows "answers (outputs resp sent) (expected_status req s m) (cseq req) \<and>
     (state s' = state s \<or> expected_status req s m = 200 \<and> moves (state s) (req_method req) (state s')) \<and>
     (expected_status req s m \<noteq> 200 \<longrightarrow> streamer s' = streamer s \<and> hub m' = hub m \<and> heap m' = heap m)"
proof (cases "req_method req = UNKNOWN \<or> \<not> method_allowed (state s) (req_method req)")
  case True
  then have "expected_status req s m = (if req_method req = UNKNOWN then 501 else 455)"
    using method_allowed_table [OF assms(2)]
    by (cases "req_method req = UNKNOWN") (simp_all add: expected_status_def)
  with handle_refused_cases [OF assms(1) True] show ?thesis by simp
next
  case False
  with handle_allowed_cases [OF assms(1)] method_allowed_table [OF assms(2)] show ?thesis by simp
qed

text \<open>
  C7: every request gets exactly one response, with its own sequence number and the status the
  protocol asks for: 501 for a method that is not known, 455 for one that the state table does not
  list, 454 for a wrong or missing session id, 400 and 461 for a missing or unusable transport, 500
  when the streamer cannot be connected, and 200 otherwise.  The state changes only on a 200 and
  only along the diagram, and a refusal leaves the stream as it is.
\<close>

theorem handle_answers:
  assumes "handle req s m = (resp, sent, s', m')" and "state s \<noteq> CLOSED"
  shows "answers (outputs resp sent) (expected_status req s m) (cseq req) \<and>
     (state s' = state s \<or> expected_status req s m = 200 \<and> moves (state s) (req_method req) (state s')) \<and>
     (expected_status req s m \<noteq> 200 \<longrightarrow> streamer s' = streamer s \<and> hub m' = hub m \<and> heap m' = heap m)"
  using handle_cases [OF assms] .

definition sample_session :: Session where
  "sample_session = (Session_new ''10.0.0.2'' True)\<lparr>state := READY, session_id := ''0000000A'',
     client_rtp_port := 5000, client_rtcp_port := 5001\<rparr>"

definition sample_request :: "Method \<Rightarrow> Request" where
  "sample_request m = \<lparr>req_method = m, uri = ''rtsp://h/s'', cseq = 7,
     headers = [(''session'', ''0000000A;timeout=60'')]\<rparr>"

lemma sample_matches: "session_header_matches (sample_request m) sample_session"
  by (simp add: session_header_matches_def sample_request_def sample_session_def Session_new_def
      header_def) code_simp

lemma handle_answers_witness:
  "\<exists>resp sent s' m'. handle (sample_request TEARDOWN) sample_session sample_media = (resp, sent, s', m') \<and>
     answers (outputs resp sent) 200 7"
proof -
  obtain resp sent s' m' where
    h: "handle (sample_request TEARDOWN) sample_session sample_media = (resp, sent, s', m')"
    by (metis prod_cases4)
  have ready: "state sample_session = READY" "req_method (sample_request TEARDOWN) = TEARDOWN"
    "cseq (sample_request TEARDOWN) = 7"
    by (simp_all add: sample_session_def sample_request_def)
  then have "expected_status (sample_request TEARDOWN) sample_session sample_media = 200"
    using sample_matches by (simp add: expected_status_def)
  with handle_answers [OF h] ready h show ?thesis by auto
qed

section \<open>Sessions and the hub\<close>

text \<open>
  The effect of an operation of a session on what it shares with the others: the hub's list and the
  store change by the session's own streamer only, a new streamer has a new reference, the sockets of
  the others stay as they are, and no datagram is sent.
\<close>

definition owned :: "Session \<Rightarrow> nat set" where
  "owned s = set_option (streamer s)"

definition streams_step :: "Session \<Rightarrow> media \<Rightarrow> Session \<Rightarrow> media \<Rightarrow> bool" where
  "streams_step s m s' m' \<longleftrightarrow>
     hub_ok m' \<and> has_hub s' = has_hub s \<and> next_ref m \<le> next_ref m' \<and>
     set (hub_subscribers (hub m')) = set (hub_subscribers (hub m)) - owned s \<union> owned s' \<and>
     dom (heap m') = dom (heap m) - owned s \<union> owned s' \<and>
     (\<forall>r \<in> owned s' - owned s. next_ref m \<le> r) \<and>
     (\<forall>r \<in> dom (heap m) - owned s. map_option socket (heap m' r) = map_option socket (heap m r)) \<and>
     wire (host m') = wire (host m)"

text \<open>Where a streamer sends to.\<close>

definition peer_of :: "media \<Rightarrow> nat \<Rightarrow> address option" where
  "peer_of m r = Option.bind (heap m r) (\<lambda>st. udp_peer (socket st))"

lemma peer_of_cong: "map_option socket (heap m' r) = map_option socket (heap m r) \<Longrightarrow> peer_of m' r = peer_of m r"
  by (cases "heap m r"; cases "heap m' r") (simp_all add: peer_of_def)

text \<open>
  A session has a streamer exactly while it is playing, the streamer is on the hub's list and sends to
  the client's address and port, and the session id is there from the first \<open>SETUP\<close> on.
\<close>

definition session_ok :: "Session \<Rightarrow> media \<Rightarrow> bool" where
  "session_ok s m \<longleftrightarrow>
     (state s = PLAYING \<longleftrightarrow> streamer s \<noteq> None) \<and>
     owned s \<subseteq> set (hub_subscribers (hub m)) \<and> (streamer s \<noteq> None \<longrightarrow> has_hub s) \<and>
     (\<forall>r \<in> owned s. peer_of m r = Some (client_ip s, word_of_int (client_rtp_port s))) \<and>
     (state s = INIT \<longrightarrow> session_id s = []) \<and>
     (state s \<in> {READY, PLAYING} \<longrightarrow> length (session_id s) = 8)"

lemma streams_step_refl: "hub_ok m \<Longrightarrow> owned s \<subseteq> set (hub_subscribers (hub m)) \<Longrightarrow>
    has_hub s' = has_hub s \<Longrightarrow> streamer s' = streamer s \<Longrightarrow> streams_step s m s' m"
  using hub_ok_refs [of m] by (auto simp: streams_step_def owned_def)

lemma hub_ok_fresh: "hub_ok m \<Longrightarrow> next_ref m \<le> r \<Longrightarrow> r \<notin> set (hub_subscribers (hub m)) \<and> r \<notin> dom (heap m)"
proof -
  assume ok: "hub_ok m" and r: "next_ref m \<le> r"
  then have "r \<notin> dom (heap m)" unfolding hub_ok_def by (meson linorder_not_le)
  with hub_ok_refs [OF ok] show ?thesis by blast
qed

lemma replace_twice:
  assumes "B = A - p \<union> q" and "C = B - q \<union> r" and "\<forall>x \<in> q - p. x \<notin> A"
  shows "C = A - p \<union> r"
  unfolding assms(1,2) using assms(3) by auto

lemma streams_step_trans:
  assumes "hub_ok m" and "streams_step s m s1 m1" and "streams_step s1 m1 s2 m2"
  shows "streams_step s m s2 m2"
proof -
  have "\<forall>r \<in> owned s1 - owned s. next_ref m \<le> r" using assms(2) by (simp add: streams_step_def)
  then have new: "\<forall>r \<in> owned s1 - owned s. r \<notin> set (hub_subscribers (hub m))"
    "\<forall>r \<in> owned s1 - owned s. r \<notin> dom (heap m)"
    using hub_ok_fresh [OF assms(1)] by blast+
  have "\<forall>r \<in> owned s2 - owned s. next_ref m \<le> r"
  proof
    fix r assume r: "r \<in> owned s2 - owned s"
    have le: "next_ref m \<le> next_ref m1" using assms(2) by (simp add: streams_step_def)
    show "next_ref m \<le> r"
    proof (cases "r \<in> owned s1")
      case True
      with r assms(2) show ?thesis by (simp add: streams_step_def)
    next
      case False
      with r assms(3) have "next_ref m1 \<le> r" by (simp add: streams_step_def)
      with le show ?thesis by (rule le_trans)
    qed
  qed
  moreover have "set (hub_subscribers (hub m2)) = set (hub_subscribers (hub m)) - owned s \<union> owned s2"
    by (rule replace_twice [OF _ _ new(1)]) (use assms(2,3) in \<open>simp_all add: streams_step_def\<close>)
  moreover have "dom (heap m2) = dom (heap m) - owned s \<union> owned s2"
    by (rule replace_twice [OF _ _ new(2)]) (use assms(2,3) in \<open>simp_all add: streams_step_def\<close>)
  moreover have "map_option socket (heap m2 r) = map_option socket (heap m r)" if "r \<in> dom (heap m) - owned s" for r
  proof -
    have "r \<in> dom (heap m1)" using that assms(2) by (simp add: streams_step_def)
    moreover have "r \<notin> owned s1" using new(2) that by blast
    ultimately have "map_option socket (heap m2 r) = map_option socket (heap m1 r)"
      using assms(3) unfolding streams_step_def by blast
    also have "\<dots> = map_option socket (heap m r)" using that assms(2) unfolding streams_step_def by blast
    finally show ?thesis .
  qed
  ultimately show ?thesis using assms(2,3) by (simp add: streams_step_def)
qed

lemma streamer_release_fields [simp]:
  "hub (streamer_release r m) = hub m" "heap (streamer_release r m) = (heap m)(r := None)"
  "next_ref (streamer_release r m) = next_ref m" "wire (host (streamer_release r m)) = wire (host m)"
  "same_host (host m) (host (streamer_release r m))" "tick (host (streamer_release r m)) = tick (host m)"
  by (auto simp: streamer_release_def fun_upd_idem split: option.split)

lemma hub_ok_delete:
  assumes "hub_ok m" and "r \<notin> set (hub_subscribers (hub m))"
  shows "hub_ok (streamer_release r m)"
  using assms by (auto simp: hub_ok_def ready_def)

lemma stop_streaming_step:
  assumes "hub_ok m" and "owned s \<subseteq> set (hub_subscribers (hub m))" and "streamer s \<noteq> None \<longrightarrow> has_hub s"
    and "stop_streaming s m = (s', m')"
  shows "streams_step s m s' m' \<and> streamer s' = None"
proof (cases "streamer s")
  case None
  with assms(4) have "s' = s" "m' = m" by (simp_all add: stop_streaming_def)
  then show ?thesis using None assms(1,2) streams_step_refl by simp
next
  case (Some r)
  let ?m = "hub_unsubscribe r m"
  have ok: "hub_ok ?m" by (rule hub_unsubscribe_ok [OF assms(1)])
  have subs: "set (hub_subscribers (hub ?m)) = set (hub_subscribers (hub m)) - {r}"
    by (rule hub_list.leave_members)
  from assms(3,4) Some have m': "m' = streamer_release r ?m" "s' = s\<lparr>streamer := None\<rparr>"
    by (simp_all add: stop_streaming_def Let_def)
  show ?thesis
    using hub_ok_delete [OF ok, of r] subs Some hub_unsubscribe_heap(1,3,6) [of r m] hub_unsubscribe_wire [of r m]
    by (auto simp: m' streams_step_def owned_def)
qed

lemma streamer_connect_ready:
  "streamer_connect st ip port w = (True, st', w') \<Longrightarrow>
     connected st' \<and> udp_peer (socket st') = Some (ip, port) \<and> st_timestamp st' = st_timestamp st"
  by (auto simp: streamer_connect_def udp_connect_to_def Let_def split: if_splits)

lemma hub_ok_host [simp]: "hub_ok (m\<lparr>host := w\<rparr>) = hub_ok m"
  by (simp add: hub_ok_def)

lemma hub_ok_alloc:
  assumes "hub_ok m" and "m' = m\<lparr>heap := (heap m)(next_ref m \<mapsto> st), next_ref := Suc (next_ref m)\<rparr>"
  shows "hub_ok m'"
  using assms hub_ok_fresh [OF assms(1), of "next_ref m"]
  by (auto simp: hub_ok_def ready_def less_SucI)

text \<open>What \<open>PLAY\<close> does when the session id matches and the streamer is connected.\<close>

lemma fresh_streamer:
  assumes "Streamer_new w = (st0, w0)" and "streamer_connect st0 ip port w0 = (ok, st, w')"
  shows "wire w' = wire w" and "ok \<Longrightarrow> connected st \<and> st_timestamp st = 0 \<and> udp_peer (socket st) = Some (ip, port)"
proof -
  have new: "wire w0 = wire w" "st_timestamp st0 = 0"
    using assms(1) by (auto simp: Streamer_new_def UdpSocket_new_def draw_def Let_def split: prod.splits if_splits)
  then show "wire w' = wire w"
    using assms(2) by (auto simp: streamer_connect_def udp_connect_to_def Let_def split: if_splits prod.splits)
  show "ok \<Longrightarrow> connected st \<and> st_timestamp st = 0 \<and> udp_peer (socket st) = Some (ip, port)"
    using assms(2) streamer_connect_ready new(2) by auto
qed

lemma handle_play_effect:
  assumes "hub_ok m" and "streamer s = None" and "handle_play req s m = (resp, sent, s', m')"
  shows "streams_step s m s' m' \<and> wire (host m') = wire (host m) \<and>
     (if streamer s' = None then s' = s else state s' = PLAYING \<and> has_hub s \<and>
        s' = s\<lparr>streamer := Some (next_ref m), state := PLAYING\<rparr> \<and>
        hub_running (hub m') \<and> hub_subscribers (hub m') = hub_subscribers (hub m) @ [next_ref m] \<and>
        (\<exists>st. heap m' (next_ref m) = Some st \<and> connected st \<and> st_timestamp st = 0 \<and>
           udp_peer (socket st) = Some (client_ip s, word_of_int (client_rtp_port s))))"
proof -
  have same: "owned s = {}" using assms(2) by (simp add: owned_def)
  obtain st0 w0 where new: "Streamer_new (host m) = (st0, w0)" by fastforce
  obtain ok st w where con: "streamer_connect st0 (client_ip s) (word_of_int (client_rtp_port s)) w0 = (ok, st, w)"
    by (metis prod_cases3)
  note fresh = fresh_streamer [OF new con]
  let ?m = "m\<lparr>host := w\<rparr>"
  let ?a = "?m\<lparr>heap := (heap m)(next_ref m \<mapsto> st), next_ref := Suc (next_ref m)\<rparr>"
  show ?thesis
  proof (cases "session_header_matches req s \<and> ok")
    case False
    with assms(3) new con have "s' = s" "m' = m \<or> m' = m\<lparr>host := Streamer_delete st w\<rparr>"
      by (auto simp: handle_play_def Let_def split: if_splits)
    then show ?thesis
      using assms(1,2) same fresh(1) by (auto simp: streams_step_def)
  next
    case True
    have ready: "ready (heap ?a) (next_ref m)" "connected st" "st_timestamp st = 0"
      "udp_peer (socket st) = Some (client_ip s, word_of_int (client_rtp_port s))"
      using fresh(2) True by (auto simp: ready_def)
    have a: "hub_ok ?a" using hub_ok_alloc [of ?m] assms(1) by simp
    have new_ref: "next_ref m \<notin> set (hub_subscribers (hub m))" "next_ref m \<notin> dom (heap m)"
      using hub_ok_fresh [OF assms(1)] by auto
    obtain k b where sub: "(if has_hub s then hub_subscribe (Some (next_ref m)) ?a else (False, ?a)) = (k, b)"
      by fastforce
    have eff: "heap b = heap ?a" "next_ref b = Suc (next_ref m)" "wire (host b) = wire w"
      "hub_subscribers (hub b) = hub_subscribers (hub m) @ (if k then [next_ref m] else [])"
      using sub hub_subscribe_effect [of "next_ref m" ?a k b] by (auto split: if_splits)
    have b: "hub_ok b" "k \<Longrightarrow> hub_running (hub b)"
      using sub a ready(1) new_ref(1) hub_subscribe_ok [of ?a "next_ref m" k b] by (auto split: if_splits)
    show ?thesis
    proof (cases k)
      case True
      then have "s' = s\<lparr>streamer := Some (next_ref m), state := PLAYING\<rparr>" "m' = b" "has_hub s"
        using assms(3) new con \<open>session_header_matches req s \<and> ok\<close> sub
        by (auto simp: handle_play_def Let_def split: if_splits)
      then show ?thesis
        using True eff b same ready fresh(1) new_ref(2) by (auto simp: streams_step_def owned_def)
    next
      case False
      then have "s' = s" "m' = streamer_release (next_ref m) b"
        using assms(3) new con \<open>session_header_matches req s \<and> ok\<close> sub
        by (auto simp: handle_play_def Let_def split: if_splits)
      moreover have "hub_ok (streamer_release (next_ref m) b)"
        by (rule hub_ok_delete [OF b(1)]) (use eff(4) False new_ref(1) in simp)
      moreover have "dom (heap m) - {next_ref m} = dom (heap m)" using new_ref(2) by blast
      ultimately show ?thesis
        using False eff same fresh(1) assms(2) by (auto simp: streams_step_def)
    qed
  qed
qed

section \<open>The session id\<close>

lemma length_show_hex: "n < 16 ^ Suc k \<Longrightarrow> length (show_hex n) \<le> Suc k"
proof (induction k arbitrary: n)
  case 0
  then show ?case by (subst show_hex.simps) simp
next
  case (Suc k)
  show ?case
  proof (cases "n < 16")
    case True
    then show ?thesis by (subst show_hex.simps) simp
  next
    case False
    have "n div 16 < 16 ^ Suc k" using Suc.prems by (simp add: less_mult_imp_div_less mult.commute)
    with Suc.IH have "length (show_hex (n div 16)) \<le> Suc k" by blast
    then show ?thesis using False by (subst show_hex.simps) simp
  qed
qed

lemma hex_digit_chars: "d < 16 \<Longrightarrow> ''0123456789ABCDEF'' ! d \<in> set ''0123456789ABCDEF''"
  by (rule nth_mem) simp

lemma set_show_hex: "set (show_hex n) \<subseteq> set ''0123456789ABCDEF''"
proof (induction n rule: show_hex.induct)
  case (1 n)
  show ?case
  proof (cases "n < 16")
    case True
    then show ?thesis using hex_digit_chars [of n] by (subst show_hex.simps) simp
  next
    case False
    have "''0123456789ABCDEF'' ! (n mod 16) \<in> set ''0123456789ABCDEF''"
      by (rule hex_digit_chars) simp
    then show ?thesis using 1 False by (subst show_hex.simps) (simp del: nth_Cons')
  qed
qed

lemma generate_session_id_shape:
  assumes "generate_session_id w = (sid, w')"
  shows "length sid = 8" and "set sid \<subseteq> set ''0123456789ABCDEF''" and "wire w' = wire w"
proof -
  obtain r where sid: "sid = replicate (8 - length (show_hex (unat r))) (CHR ''0'') @ show_hex (unat r)"
    and r: "(r :: 32 word) = fst (draw w)" "w' = snd (draw w)"
    using assms by (auto simp: generate_session_id_def Let_def split: prod.splits)
  have "unat r < 16 ^ Suc 7" using unsigned_less [of r] by simp
  from length_show_hex [OF this] sid show "length sid = 8" by simp
  show "set sid \<subseteq> set ''0123456789ABCDEF''" using set_show_hex sid by auto
  show "wire w' = wire w" using r by (simp add: draw_def)
qed

section \<open>The session invariant\<close>

lemma session_ok_step:
  assumes "streams_step s m s' m'" and "state s' = PLAYING \<longleftrightarrow> streamer s' \<noteq> None"
    and "\<forall>r \<in> owned s'. peer_of m' r = Some (client_ip s', word_of_int (client_rtp_port s'))"
    and "streamer s' \<noteq> None \<longrightarrow> has_hub s" and "state s' = INIT \<longrightarrow> session_id s' = []"
    and "state s' \<in> {READY, PLAYING} \<longrightarrow> length (session_id s') = 8"
  shows "session_ok s' m'"
  using assms by (simp add: session_ok_def streams_step_def)

lemma handle_setup_keeps:
  assumes "hub_ok m" and "session_ok s m" and "state s = INIT \<or> state s = READY"
    and "handle_setup req s m = (resp, sent, s', m')"
  shows "streams_step s m s' m' \<and> session_ok s' m' \<and> wire (host m') = wire (host m)"
proof -
  note eff = handle_setup_answers(2-4) [OF assms(4)]
  have none: "streamer s = None" using assms(2,3) by (auto simp: session_ok_def)
  have hh: "has_hub s' = has_hub s" "next_ref m' = next_ref m"
    using assms(4) by (auto simp: handle_setup_def Let_def split: option.splits prod.splits if_splits)
  have hub': "hub_ok m'" using assms(1) eff hh(2) by (simp add: hub_ok_def)
  have wire: "wire (host m') = wire (host m)"
    using assms(4) generate_session_id_shape(3)
    by (auto simp: handle_setup_def Let_def split: option.splits prod.splits if_splits)
  have step: "streams_step s m s' m'"
    using hub' eff hh none wire by (simp add: streams_step_def owned_def)
  have sid: "(state s' = INIT \<longrightarrow> session_id s' = []) \<and> (state s' = READY \<longrightarrow> length (session_id s') = 8)
      \<and> (state s' = INIT \<or> state s' = READY)"
    using assms(2-4) generate_session_id_shape(1)
    by (auto simp: handle_setup_def session_ok_def Let_def split: option.splits prod.splits if_splits)
  show ?thesis using step session_ok_step [OF step] sid eff(1) none wire by (auto simp: owned_def)
qed

lemma handle_stop_keeps:
  assumes "hub_ok m" and "session_ok s m" and "stop_streaming s m = (s1, m')" and "s' = s1\<lparr>state := st\<rparr>"
    and "st \<noteq> PLAYING" and "st = INIT \<longrightarrow> session_id s = []" and "st = READY \<longrightarrow> length (session_id s) = 8"
  shows "streams_step s m s' m' \<and> session_ok s' m'"
proof -
  from stop_streaming_step [OF assms(1) _ _ assms(3)] assms(2)
  have step: "streams_step s m s1 m'" "streamer s1 = None" by (auto simp: session_ok_def)
  then have step': "streams_step s m s' m'" by (simp add: streams_step_def owned_def assms(4))
  have sid: "session_id s' = session_id s" using stop_streaming_fields(3) [of s m] assms(3,4) by simp
  show ?thesis using step' session_ok_step [OF step'] step(2) assms(4-7) sid by (auto simp: owned_def)
qed

lemma handle_play_keeps:
  assumes "hub_ok m" and "session_ok s m" and "state s = READY" and "handle_play req s m = (resp, sent, s', m')"
  shows "streams_step s m s' m' \<and> session_ok s' m'"
proof -
  have none: "streamer s = None" using assms(2,3) by (auto simp: session_ok_def)
  note eff = handle_play_effect [OF assms(1) none assms(4)]
  show ?thesis
  proof (cases "streamer s' = None")
    case True
    with eff have "s' = s" by simp
    with eff assms(2,3) none show ?thesis by (auto simp: session_ok_def streams_step_def owned_def)
  next
    case False
    with eff have "s' = s\<lparr>streamer := Some (next_ref m), state := PLAYING\<rparr>" "has_hub s" by simp_all
    with eff assms(2,3) show ?thesis by (auto simp: session_ok_def streams_step_def owned_def peer_of_def)
  qed
qed

lemma handle_keeps:
  assumes "hub_ok m" and "session_ok s m" and "handle req s m = (resp, sent, s', m')"
  shows "streams_step s m s' m' \<and> session_ok s' m'"
proof (cases "req_method req = UNKNOWN \<or> \<not> method_allowed (state s) (req_method req)")
  case True
  with handle_refused_cases [OF assms(3)] streams_step_refl [OF assms(1)] assms(2) show ?thesis
    by (simp add: session_ok_def)
next
  case False
  then have runs: "method_allowed (state s) (req_method req)" by simp
  have same: "s' = s \<Longrightarrow> m' = m \<Longrightarrow> ?thesis"
    using streams_step_refl [OF assms(1)] assms(2) by (simp add: session_ok_def)
  note stop = handle_stop_keeps [OF assms(1,2), of "fst (stop_streaming s m)" m' s']
  show ?thesis
  proof (cases "req_method req")
    case SETUP
    with handle_runs(4) [OF runs] assms(3) have "handle_setup req s m = (resp, sent, s', m')" by simp
    moreover have "state s = INIT \<or> state s = READY" using runs SETUP by (simp add: method_allowed_def)
    ultimately show ?thesis using handle_setup_keeps assms(1,2) by blast
  next
    case PLAY
    with handle_runs(5) [OF runs] assms(3) have "handle_play req s m = (resp, sent, s', m')" by simp
    moreover have "state s = READY" using runs PLAY by (simp add: method_allowed_def)
    ultimately show ?thesis using handle_play_keeps assms(1,2) by blast
  next
    case PAUSE
    with handle_runs(6) [OF runs] assms(3) have h: "handle_pause req s m = (resp, sent, s', m')" by simp
    have "length (session_id s) = 8" using runs PAUSE assms(2) by (simp add: method_allowed_def session_ok_def)
    then show ?thesis
      using handle_stop_answers(1) [OF h] stop [of READY] same by (auto split: if_splits simp: prod_eq_iff)
  next
    case TEARDOWN
    with handle_runs(7) [OF runs] assms(3) have h: "handle_teardown req s m = (resp, sent, s', m')" by simp
    then show ?thesis
      using handle_stop_answers(2) [OF h] stop [of CLOSED] same by (auto split: if_splits simp: prod_eq_iff)
  qed (use False assms(3) same handle_runs(1-3) [OF runs] in \<open>auto simp: handle_describe_def Let_def split: if_splits\<close>)
qed

section \<open>What feeding keeps\<close>

lemma session_ok_rx [simp]: "session_ok (s\<lparr>rx_buffer := b\<rparr>) m = session_ok s m"
  by (simp add: session_ok_def owned_def)

lemma owned_rx [simp]: "owned (s\<lparr>rx_buffer := b\<rparr>) = owned s"
  by (simp add: owned_def)

lemma streams_step_rx [simp]: "streams_step (s\<lparr>rx_buffer := b\<rparr>) m s' m' = streams_step s m s' m'"
  by (simp add: streams_step_def)

text \<open>One turn of the loop, for each outcome of the cut and the parse.\<close>

lemma feed_loop_cases:
  shows "find_sub blank_line (rx_buffer s) = None \<Longrightarrow> feed_loop iter s m = ([], Inr True, s, m)"
    and "find_sub blank_line (rx_buffer s) = Some n \<Longrightarrow>
      parse_request iter (take (n + 4) (rx_buffer s)) = Inl e \<Longrightarrow>
      feed_loop iter s m = ([], Inl e, s\<lparr>rx_buffer := drop (n + 4) (rx_buffer s)\<rparr>, m)"
    and "find_sub blank_line (rx_buffer s) = Some n \<Longrightarrow>
      parse_request iter (take (n + 4) (rx_buffer s)) = Inr None \<Longrightarrow>
      feed_loop iter s m =
        (case feed_loop iter (s\<lparr>rx_buffer := drop (n + 4) (rx_buffer s)\<rparr>) m of
           (out, res) \<Rightarrow> (response_error 0 400 ''Bad Request'' # out, res))"
    and "find_sub blank_line (rx_buffer s) = Some n \<Longrightarrow>
      parse_request iter (take (n + 4) (rx_buffer s)) = Inr (Some req) \<Longrightarrow>
      handle req (s\<lparr>rx_buffer := drop (n + 4) (rx_buffer s)\<rparr>) m = (resp, sent, s1, m1) \<Longrightarrow>
      feed_loop iter s m =
        (if state s1 = CLOSED then (outputs resp sent, Inr False, s1, m1)
         else (case feed_loop iter s1 m1 of (out, res) \<Rightarrow> (outputs resp sent @ out, res)))"
  by (simp_all add: feed_loop.simps [of iter s m] Let_def outputs_def)

text \<open>Induction over the requests in the buffer.\<close>

lemma feed_loop_rule [consumes 1, case_names wait throw bad closed more]:
  assumes "feed_loop iter s m = (out, res, s', m')"
    and "\<And>s m. find_sub blank_line (rx_buffer s) = None \<Longrightarrow> P s m [] (Inr True) s m"
    and "\<And>s m n e. find_sub blank_line (rx_buffer s) = Some n \<Longrightarrow>
      parse_request iter (take (n + 4) (rx_buffer s)) = Inl e \<Longrightarrow>
      P s m [] (Inl e) (s\<lparr>rx_buffer := drop (n + 4) (rx_buffer s)\<rparr>) m"
    and "\<And>s m n out res s' m'. find_sub blank_line (rx_buffer s) = Some n \<Longrightarrow>
      parse_request iter (take (n + 4) (rx_buffer s)) = Inr None \<Longrightarrow>
      P (s\<lparr>rx_buffer := drop (n + 4) (rx_buffer s)\<rparr>) m out res s' m' \<Longrightarrow>
      P s m (response_error 0 400 ''Bad Request'' # out) res s' m'"
    and "\<And>s m n req resp sent s1 m1. find_sub blank_line (rx_buffer s) = Some n \<Longrightarrow>
      parse_request iter (take (n + 4) (rx_buffer s)) = Inr (Some req) \<Longrightarrow>
      handle req (s\<lparr>rx_buffer := drop (n + 4) (rx_buffer s)\<rparr>) m = (resp, sent, s1, m1) \<Longrightarrow>
      state s1 = CLOSED \<Longrightarrow> P s m (outputs resp sent) (Inr False) s1 m1"
    and "\<And>s m n req resp sent s1 m1 out res s' m'. find_sub blank_line (rx_buffer s) = Some n \<Longrightarrow>
      parse_request iter (take (n + 4) (rx_buffer s)) = Inr (Some req) \<Longrightarrow>
      handle req (s\<lparr>rx_buffer := drop (n + 4) (rx_buffer s)\<rparr>) m = (resp, sent, s1, m1) \<Longrightarrow>
      state s1 \<noteq> CLOSED \<Longrightarrow> P s1 m1 out res s' m' \<Longrightarrow>
      P s m (outputs resp sent @ out) res s' m'"
  shows "P s m out res s' m'"
  using assms(1)
proof (induction "length (rx_buffer s)" arbitrary: s m out res s' m' rule: less_induct)
  case less
  show ?case
  proof (cases "find_sub blank_line (rx_buffer s)")
    case None
    with less.prems assms(2) show ?thesis by (simp add: feed_loop_cases(1))
  next
    case (Some n)
    then have n: "n + 4 \<le> length (rx_buffer s)" by (rule blank_line_cut)
    let ?s = "s\<lparr>rx_buffer := drop (n + 4) (rx_buffer s)\<rparr>"
    have short: "length (rx_buffer ?s) < length (rx_buffer s)" using n by simp
    show ?thesis
    proof (cases "parse_request iter (take (n + 4) (rx_buffer s))")
      case (Inl e)
      with less.prems feed_loop_cases(2) [OF Some Inl, of m]
      have "out = []" "res = Inl e" "s' = ?s" "m' = m" by simp_all
      with assms(3) [OF Some Inl] show ?thesis by blast
    next
      case (Inr r)
      show ?thesis
      proof (cases r)
        case None
        obtain o1 r1 s1 m1 where l: "feed_loop iter ?s m = (o1, r1, s1, m1)" by (metis prod_cases4)
        from assms(4) [OF Some _ less.hyps [OF short l]] Inr None less.prems l show ?thesis
          by (simp add: feed_loop_cases(3) [OF Some])
      next
        case req: (Some req)
        obtain resp sent s1 m1 where h: "handle req ?s m = (resp, sent, s1, m1)" by (metis prod_cases4)
        have short1: "length (rx_buffer s1) < length (rx_buffer s)" using handle_rx [OF h] short by simp
        show ?thesis
        proof (cases "state s1 = CLOSED")
          case True
          with assms(5) [OF Some _ h True] Inr req less.prems show ?thesis
            by (simp add: feed_loop_cases(4) [OF Some _ h])
        next
          case False
          obtain o2 r2 s2 m2 where l: "feed_loop iter s1 m1 = (o2, r2, s2, m2)" by (metis prod_cases4)
          from assms(6) [OF Some _ h False less.hyps [OF short1 l]] Inr req False less.prems l show ?thesis
            by (simp add: feed_loop_cases(4) [OF Some _ h])
        qed
      qed
    qed
  qed
qed

lemma feed_loop_keeps:
  assumes "feed_loop iter s m = (out, res, s', m')" and "hub_ok m" and "session_ok s m"
  shows "streams_step s m s' m' \<and> session_ok s' m'"
  using assms
proof (induction rule: feed_loop_rule)
  case (wait s m)
  then show ?case by (auto intro: streams_step_refl simp: session_ok_def)
next
  case (throw s m n e)
  then show ?case by (auto intro!: streams_step_refl simp: session_ok_def owned_def)
next
  case (bad s m n out res s' m')
  then show ?case by simp
next
  case (closed s m n req resp sent s1 m1)
  then show ?case using handle_keeps [of m "s\<lparr>rx_buffer := drop (n + 4) (rx_buffer s)\<rparr>"] by auto
next
  case (more s m n req resp sent s1 m1 out res s' m')
  then have h: "streams_step s m s1 m1" "session_ok s1 m1"
    using handle_keeps [of m "s\<lparr>rx_buffer := drop (n + 4) (rx_buffer s)\<rparr>" req resp sent s1 m1] by auto
  then have "hub_ok m1" by (simp add: streams_step_def)
  with more h streams_step_trans show ?case by blast
qed

lemma feed_loop_buffer:
  assumes "feed_loop iter s m = (out, res, s', m')"
  shows "length (rx_buffer s') \<le> length (rx_buffer s) \<and>
     (res = Inr True \<longrightarrow> find_sub blank_line (rx_buffer s') = None) \<and>
     (res = Inr False \<longrightarrow> state s' = CLOSED)"
  using assms by (induction rule: feed_loop_rule) (auto dest!: handle_rx)

lemma feed_keeps:
  assumes "feed iter data s m = (out, res, s', m')" and "hub_ok m" and "session_ok s m"
  shows "streams_step s m s' m' \<and> session_ok s' m'"
proof (cases "length (rx_buffer s @ data) > kMaxRxBuffer")
  case True
  with assms have "s' = s\<lparr>rx_buffer := rx_buffer s @ data\<rparr>" "m' = m" by (auto simp: feed_def Let_def)
  with assms(2,3) show ?thesis by (auto intro!: streams_step_refl simp: session_ok_def owned_def)
next
  case False
  with assms(1) have "feed_loop iter (s\<lparr>rx_buffer := rx_buffer s @ data\<rparr>) m = (out, res, s', m')"
    by (simp add: feed_def Let_def)
  from feed_loop_keeps [OF this assms(2)] assms(3) show ?thesis by simp
qed

lemma on_disconnect_keeps:
  assumes "hub_ok m" and "session_ok s m" and "on_disconnect s m = (s', m')"
  shows "streams_step s m s' m' \<and> streamer s' = None"
proof -
  obtain s1 m1 where st: "stop_streaming s m = (s1, m1)" by fastforce
  have "owned s \<subseteq> set (hub_subscribers (hub m))" "streamer s \<noteq> None \<longrightarrow> has_hub s"
    using assms(2) by (simp_all add: session_ok_def)
  from stop_streaming_step [OF assms(1) this st]
  have step: "streams_step s m s1 m1" "streamer s1 = None" by blast+
  have "s' = s1\<lparr>state := CLOSED\<rparr>" "m' = m1" using assms(3) st by (simp_all add: on_disconnect_def)
  then show ?thesis using step by (simp add: streams_step_def owned_def)
qed

end
