(* ===== verification/Dialogue.thy ===== *)
theory Dialogue
  imports Session
begin

text \<open>
  What a client sees of a session over a TCP connection: the requests do not depend on how the bytes
  arrive, each is answered once, and the stream follows the requests.
\<close>

section \<open>Cutting requests off the buffer\<close>

definition request_cut :: "string \<Rightarrow> (string \<times> string) option" where
  "request_cut b = map_option (\<lambda>n. (take (n + 4) b, drop (n + 4) b)) (find_sub blank_line b)"

interpretation requests: splitter request_cut
proof (unfold_locales, goal_cases)
  case (1 b y r c)
  then obtain n where n: "find_sub blank_line b = Some n" "y = take (n + 4) b" "r = drop (n + 4) b"
    by (auto simp: request_cut_def)
  with blank_line_cut [OF n(1)] find_sub_append [OF n(1), of c] show ?case
    by (simp add: request_cut_def)
next
  case (2 b y r)
  then show ?case by (auto simp: request_cut_def dest!: blank_line_cut)
qed

lemma stop_streaming_rx: "stop_streaming (s\<lparr>rx_buffer := b\<rparr>) m =
    (case stop_streaming s m of (s', m') \<Rightarrow> (s'\<lparr>rx_buffer := b\<rparr>, m'))"
  by (cases "streamer s") (simp_all add: stop_streaming_def Let_def)

definition with_rx :: "string \<Rightarrow> handled \<Rightarrow> handled" where
  "with_rx b h = (case h of (resp, sent, s, m) \<Rightarrow> (resp, sent, s\<lparr>rx_buffer := b\<rparr>, m))"

lemma handlers_rx:
  "handle_describe req (s\<lparr>rx_buffer := b\<rparr>) m = with_rx b (handle_describe req s m)"
  "handle_setup req (s\<lparr>rx_buffer := b\<rparr>) m = with_rx b (handle_setup req s m)"
  "handle_pause req (s\<lparr>rx_buffer := b\<rparr>) m = with_rx b (handle_pause req s m)"
  "handle_teardown req (s\<lparr>rx_buffer := b\<rparr>) m = with_rx b (handle_teardown req s m)"
  "handle_play req (s\<lparr>rx_buffer := b\<rparr>) m = with_rx b (handle_play req s m)"
proof -
  have match: "session_header_matches req (s\<lparr>rx_buffer := b\<rparr>) = session_header_matches req s"
    by (simp add: session_header_matches_def split: option.split)
  show "handle_describe req (s\<lparr>rx_buffer := b\<rparr>) m = with_rx b (handle_describe req s m)"
    by (simp add: handle_describe_def with_rx_def Let_def)
  show "handle_setup req (s\<lparr>rx_buffer := b\<rparr>) m = with_rx b (handle_setup req s m)"
    by (simp add: handle_setup_def with_rx_def Let_def split: option.split prod.split)
  show "handle_pause req (s\<lparr>rx_buffer := b\<rparr>) m = with_rx b (handle_pause req s m)"
    by (simp add: handle_pause_def with_rx_def match stop_streaming_rx split: prod.split)
  show "handle_teardown req (s\<lparr>rx_buffer := b\<rparr>) m = with_rx b (handle_teardown req s m)"
    by (simp add: handle_teardown_def with_rx_def match stop_streaming_rx split: prod.split)
  show "handle_play req (s\<lparr>rx_buffer := b\<rparr>) m = with_rx b (handle_play req s m)"
    by (simp add: handle_play_def with_rx_def match Let_def split: prod.split)
qed

lemma handle_with_rx: "handle req (s\<lparr>rx_buffer := b\<rparr>) m = with_rx b (handle req s m)"
proof (cases "req_method req = UNKNOWN \<or> \<not> method_allowed (state s) (req_method req)")
  case True
  then show ?thesis
    using handle_refuses [of req s m] handle_refuses [of req "s\<lparr>rx_buffer := b\<rparr>" m]
    by (cases "req_method req = UNKNOWN") (simp_all add: with_rx_def)
next
  case False
  then show ?thesis
    by (cases "req_method req") (simp_all add: handle_def handlers_rx, simp_all add: with_rx_def)
qed

lemma feed_loop_append:
  assumes "feed_loop iter s m = (o1, Inr True, s1, m1)"
  shows "feed_loop iter (s\<lparr>rx_buffer := rx_buffer s @ b\<rparr>) m =
    (case feed_loop iter (s1\<lparr>rx_buffer := rx_buffer s1 @ b\<rparr>) m1 of (o2, res) \<Rightarrow> (o1 @ o2, res))"
proof -
  have "res = Inr True \<longrightarrow> feed_loop iter (s\<lparr>rx_buffer := rx_buffer s @ b\<rparr>) m =
      (case feed_loop iter (s1\<lparr>rx_buffer := rx_buffer s1 @ b\<rparr>) m1 of (o2, res) \<Rightarrow> (o1 @ o2, res))"
    if "feed_loop iter s m = (o1, res, s1, m1)" for res
    using that
  proof (induction rule: feed_loop_rule)
    case (wait s m)
    then show ?case by simp
  next
    case (throw s m n e)
    then show ?case by simp
  next
    case (bad s m n out res s' m')
    have n: "n + 4 \<le> length (rx_buffer s)" by (rule blank_line_cut [OF bad(1)])
    with bad feed_loop_cases(3) [where s = "s\<lparr>rx_buffer := rx_buffer s @ b\<rparr>" and n = n and iter = iter and m = m] find_sub_append [OF bad(1), of b]
    show ?case by (auto split: prod.split)
  next
    case (closed s m n req resp sent s1 m1)
    then show ?case by simp
  next
    case (more s m n req resp sent s1 m1 out res s' m')
    have n: "n + 4 \<le> length (rx_buffer s)" by (rule blank_line_cut [OF more(1)])
    let ?b = "drop (n + 4) (rx_buffer s)"
    from handle_rx [OF more(3)] have rx: "rx_buffer s1 = ?b" by simp
    have h: "handle req (s\<lparr>rx_buffer := ?b @ b\<rparr>) m = (resp, sent, s1\<lparr>rx_buffer := ?b @ b\<rparr>, m1)"
      using handle_with_rx [where req = req and s = "s\<lparr>rx_buffer := ?b\<rparr>" and b = "?b @ b" and m = m] more(3) by (simp add: with_rx_def)
    show ?case
      using more(2,4,5) feed_loop_cases(4) [where s = "s\<lparr>rx_buffer := rx_buffer s @ b\<rparr>" and n = n and iter = iter
          and req = req and m = m and resp = resp and sent = sent
          and ?s1.0 = "s1\<lparr>rx_buffer := ?b @ b\<rparr>" and ?m1.0 = m1] find_sub_append [OF more(1), of b] n h rx
      by (auto split: prod.split)
  qed
  with assms show ?thesis by blast
qed

text \<open>
  C20: it makes no difference how the bytes of a connection are cut into reads.  When a first piece
  leaves the connection open, feeding it and then a second gives the same responses, session and
  streams as feeding both at once, so a request may be split anywhere and requests may be pipelined.
  This holds as long as what is waiting and the two pieces are within the 64 KiB of the buffer together;
  beyond them the code looks at the size before it serves, so that one large read ends a connection
  that two smaller ones do not.
\<close>

theorem feed_split:
  assumes "feed iter a s m = (o1, Inr True, s1, m1)" and "length (rx_buffer s @ a @ b) \<le> 65536"
  shows "feed iter (a @ b) s m = (case feed iter b s1 m1 of (o2, res) \<Rightarrow> (o1 @ o2, res))"
proof -
  let ?s = "s\<lparr>rx_buffer := rx_buffer s @ a\<rparr>"
  have l: "feed_loop iter ?s m = (o1, Inr True, s1, m1)"
    using assms by (simp add: feed_def kMaxRxBuffer_def Let_def)
  from feed_loop_buffer [OF l] have "length (rx_buffer s1) \<le> length (rx_buffer s @ a)" by simp
  with assms(2) feed_loop_append [OF l, of b] show ?thesis
    by (simp add: feed_def kMaxRxBuffer_def Let_def)
qed

lemma feed_split_witness:
  "let req = render_request ''OPTIONS'' ''*'' ''RTSP/1.0'' [(''CSeq'', ''1'')] in
   feed id (''OPT'' @ drop 3 req) (Session_new ''10.0.0.2'' True) sample_media =
     (case feed id (drop 3 req) ((Session_new ''10.0.0.2'' True)\<lparr>rx_buffer := ''OPT''\<rparr>) sample_media of
        (o2, res) \<Rightarrow> ([] @ o2, res))"
proof -
  let ?s = "Session_new ''10.0.0.2'' True"
  have "find_sub blank_line ''OPT'' = None" by code_simp
  then have "feed id ''OPT'' ?s sample_media = ([], Inr True, ?s\<lparr>rx_buffer := ''OPT''\<rparr>, sample_media)"
    by (simp add: feed_def Session_new_def kMaxRxBuffer_def feed_loop_cases(1))
  from feed_split [OF this] show ?thesis
    by (simp add: Let_def Session_new_def render_request_def render_headers_def crlf_def)
qed

section \<open>Serving the requests in order\<close>

text \<open>The session with its requests already cut apart.\<close>

fun serve :: "(header_table \<Rightarrow> header_table) \<Rightarrow> string list \<Rightarrow> Session \<Rightarrow> media \<Rightarrow>
    string list \<times> (stoi_exn + bool) \<times> Session \<times> media" where
  "serve iter [] s m = ([], Inr True, s, m)"
| "serve iter (raw # raws) s m =
     (case parse_request iter raw of
        Inl e \<Rightarrow> ([], Inl e, s, m)
      | Inr None \<Rightarrow>
          (case serve iter raws s m of (out, res) \<Rightarrow> (response_error 0 400 ''Bad Request'' # out, res))
      | Inr (Some req) \<Rightarrow>
          (case handle req s m of
             (resp, sent, s, m) \<Rightarrow>
               if state s = CLOSED then (outputs resp sent, Inr False, s, m)
               else (case serve iter raws s m of (out, res) \<Rightarrow> (outputs resp sent @ out, res))))"

lemma serve_rx: "serve iter raws (s\<lparr>rx_buffer := b\<rparr>) m =
    (case serve iter raws s m of (out, res, s', m') \<Rightarrow> (out, res, s'\<lparr>rx_buffer := b\<rparr>, m'))"
proof (induction raws arbitrary: s m)
  case Nil
  then show ?case by simp
next
  case (Cons raw raws)
  show ?case
  proof (cases "parse_request iter raw")
    case (Inl e)
    then show ?thesis by simp
  next
    case (Inr r)
    show ?thesis
    proof (cases r)
      case None
      then show ?thesis using Inr Cons.IH [of s m] by (simp split: prod.split)
    next
      case (Some req)
      obtain resp sent s1 m1 where h: "handle req s m = (resp, sent, s1, m1)" by (metis prod_cases4)
      then show ?thesis
        using Inr Some Cons.IH [of s1 m1] handle_with_rx [where req = req and s = s and b = b and m = m]
        by (simp add: with_rx_def split: prod.split)
    qed
  qed
qed

lemma feed_loop_serves:
  assumes "drains request_cut (rx_buffer s) raws rest"
  shows "\<exists>b. feed_loop iter s m =
     (case serve iter raws s m of (out, res, s', m') \<Rightarrow> (out, res, s'\<lparr>rx_buffer := b\<rparr>, m')) \<and>
     (fst (snd (serve iter raws s m)) = Inr True \<longrightarrow> b = rest)"
  using assms
proof (induction "rx_buffer s" raws rest arbitrary: s m rule: drains.induct)
  case stop
  then have "find_sub blank_line (rx_buffer s) = None" by (simp add: request_cut_def)
  then show ?case by (intro exI [of _ "rx_buffer s"]) (simp add: feed_loop_cases(1))
next
  case (item raw r raws rest)
  from item.hyps(1) obtain n where n: "find_sub blank_line (rx_buffer s) = Some n"
    "raw = take (n + 4) (rx_buffer s)" "r = drop (n + 4) (rx_buffer s)"
    by (auto simp: request_cut_def)
  let ?s = "s\<lparr>rx_buffer := r\<rparr>"
  show ?case
  proof (cases "parse_request iter raw")
    case (Inl e)
    then show ?thesis using n feed_loop_cases(2) [OF n(1)] by (intro exI [of _ r]) simp
  next
    case (Inr p)
    show ?thesis
    proof (cases p)
      case None
      from item.hyps(3) [of ?s m] obtain b where "feed_loop iter ?s m =
         (case serve iter raws ?s m of (out, res, s', m') \<Rightarrow> (out, res, s'\<lparr>rx_buffer := b\<rparr>, m'))"
        "fst (snd (serve iter raws ?s m)) = Inr True \<longrightarrow> b = rest" by auto
      then show ?thesis
        using n Inr None feed_loop_cases(3) [OF n(1), of iter m] serve_rx [where raws = raws and s = s and b = r and m = m]
        by (intro exI [of _ b]) (auto split: prod.splits)
    next
      case (Some req)
      obtain resp sent s1 m1 where h: "handle req s m = (resp, sent, s1, m1)" by (metis prod_cases4)
      let ?s1 = "s1\<lparr>rx_buffer := r\<rparr>"
      have h': "handle req ?s m = (resp, sent, ?s1, m1)"
        using handle_with_rx [where req = req and s = s and b = r and m = m] h by (simp add: with_rx_def)
      from item.hyps(3) [of ?s1 m1] obtain b where "feed_loop iter ?s1 m1 =
         (case serve iter raws ?s1 m1 of (out, res, s', m') \<Rightarrow> (out, res, s'\<lparr>rx_buffer := b\<rparr>, m'))"
        "fst (snd (serve iter raws ?s1 m1)) = Inr True \<longrightarrow> b = rest" by auto
      then show ?thesis
        using n Inr Some h h' feed_loop_cases(4) [OF n(1), of iter req m resp sent ?s1 m1]
          serve_rx [where raws = raws and s = s1 and b = r and m = m1]
        by (cases "state s1 = CLOSED") (auto split: prod.splits)
    qed
  qed
qed

text \<open>
  C8: the buffer is served as a queue of requests.  There is one way to cut it into complete
  requests and an incomplete rest; the responses are those to the requests one after the other, up
  to one that ends the session; and while the connection goes on exactly the rest is kept.  (What is
  beyond 64 KiB in the buffer is not served: that is the guard of the code.)
\<close>

theorem feed_serves_requests:
  assumes "length (rx_buffer s @ data) \<le> 65536" and "feed iter data s m = (out, res, s', m')"
  shows "\<exists>raws rest. (\<forall>ys r. drains request_cut (rx_buffer s @ data) ys r \<longleftrightarrow> ys = raws \<and> r = rest) \<and>
     (\<exists>t b. serve iter raws s m = (out, res, t, m') \<and> s' = t\<lparr>rx_buffer := b\<rparr> \<and>
        (res = Inr True \<longrightarrow> b = rest \<and> find_sub blank_line b = None))"
proof -
  let ?s = "s\<lparr>rx_buffer := rx_buffer s @ data\<rparr>"
  obtain raws rest where d: "drains request_cut (rx_buffer s @ data) raws rest"
    using requests.drains_total by blast
  have one: "\<forall>ys r. drains request_cut (rx_buffer s @ data) ys r \<longleftrightarrow> ys = raws \<and> r = rest"
    using d requests.drains_deterministic by blast
  have none: "find_sub blank_line rest = None"
    using requests.drains_rest [OF d] by (simp add: request_cut_def)
  have l: "feed_loop iter ?s m = (out, res, s', m')"
    using assms by (simp add: feed_def kMaxRxBuffer_def Let_def)
  obtain out1 res1 t m1 where v: "serve iter raws s m = (out1, res1, t, m1)" by (metis prod_cases4)
  from feed_loop_serves [of ?s raws rest iter m] d obtain b where
    b: "feed_loop iter ?s m = (case serve iter raws ?s m of (out, res, s', m') \<Rightarrow> (out, res, s'\<lparr>rx_buffer := b\<rparr>, m'))"
      "fst (snd (serve iter raws ?s m)) = Inr True \<longrightarrow> b = rest" by auto
  have "serve iter raws ?s m = (out1, res1, t\<lparr>rx_buffer := rx_buffer s @ data\<rparr>, m1)"
    using serve_rx [where raws = raws and s = s and b = "rx_buffer s @ data" and m = m] v by simp
  with b l have "out1 = out" "res1 = res" "m1 = m'" "s' = t\<lparr>rx_buffer := b\<rparr>" "res = Inr True \<longrightarrow> b = rest"
    by simp_all
  with v one none show ?thesis by blast
qed

lemma feed_serves_requests_witness:
  "let data = ''OPTIONS * RTSP/1.0'' @ crlf @ ''CSeq: 1'' @ blank_line @ ''PLAY'' in
   \<exists>raws rest. drains request_cut data raws rest \<and>
     fst (feed id data (Session_new ''10.0.0.2'' True) sample_media) =
     fst (serve id raws (Session_new ''10.0.0.2'' True) sample_media)"
proof -
  let ?s = "Session_new ''10.0.0.2'' True"
  let ?data = "''OPTIONS * RTSP/1.0'' @ crlf @ ''CSeq: 1'' @ blank_line @ ''PLAY''"
  obtain out res s' m' where f: "feed id ?data ?s sample_media = (out, res, s', m')"
    by (metis prod_cases4)
  have rx: "rx_buffer ?s = []" by (simp add: Session_new_def)
  have "length (rx_buffer ?s @ ?data) \<le> 65536" by (simp add: rx crlf_def)
  from feed_serves_requests [OF this f] obtain raws rest t where
    d: "drains request_cut (rx_buffer ?s @ ?data) raws rest"
    and v: "serve id raws ?s sample_media = (out, res, t, m')" by blast
  have "drains request_cut ?data raws rest" using d unfolding rx append_Nil .
  with v show ?thesis unfolding Let_def f fst_conv by (intro exI conjI) (assumption, simp)
qed

section \<open>One request\<close>

lemma find_sub_blank_later:
  assumes "no_cr line" and "line \<noteq> []" and "find_sub blank_line rest = Some n" and "hd rest \<noteq> CHR 0x0D"
    and "rest \<noteq> []"
  shows "find_sub blank_line (line @ crlf @ rest) = Some (length line + 2 + n)"
proof -
  obtain c t where rest: "rest = c # t" "c \<noteq> CHR 0x0D" using assms(4,5) by (cases rest) auto
  have step1: "find_sub blank_line (crlf @ rest) = Some (2 + n)"
    using assms(3) rest by (simp add: crlf_def blank_line_def)
  have "find_sub blank_line (l @ crlf @ rest) = Some (length l + 2 + n)" if "no_cr l" for l
    using that
  proof (induction l)
    case Nil
    with step1 show ?case by simp
  next
    case (Cons x l)
    then show ?case by (auto simp: blank_line_def crlf_def)
  qed
  then show ?thesis using assms(1) by blast
qed

lemma find_sub_blank_end:
  assumes "no_cr line" and "line \<noteq> []"
  shows "find_sub blank_line (line @ crlf @ crlf @ rest) = Some (length line)"
  using assms(1)
proof (induction line)
  case Nil
  show ?case by (simp add: blank_line_def crlf_def)
next
  case (Cons x l)
  then show ?case by (auto simp: blank_line_def crlf_def)
qed

lemma find_sub_blank_headers:
  "list_all wf_header hs \<Longrightarrow> no_cr line \<Longrightarrow> line \<noteq> [] \<Longrightarrow>
     find_sub blank_line (line @ crlf @ render_headers hs @ crlf @ rest)
       = Some (length line + length (render_headers hs))"
proof (induction hs arbitrary: line)
  case Nil
  then show ?case using find_sub_blank_end by (simp add: render_headers_def)
next
  case (Cons h hs)
  obtain k v where h: "h = (k, v)" by (cases h)
  let ?l = "k @ '': '' @ v"
  have l: "no_cr ?l" "?l \<noteq> []" using Cons.prems(1) h by (auto simp: wf_header_def)
  have split: "render_headers (h # hs) @ crlf @ rest = ?l @ crlf @ render_headers hs @ crlf @ rest"
    by (simp add: render_headers_def h)
  have hd: "hd (?l @ crlf @ render_headers hs @ crlf @ rest) \<noteq> CHR 0x0D"
    using l by (cases k) auto
  from Cons.IH [OF _ l] Cons.prems(1)
  have "find_sub blank_line (?l @ crlf @ render_headers hs @ crlf @ rest)
      = Some (length ?l + length (render_headers hs))" by simp
  from find_sub_blank_later [OF Cons.prems(2,3) this hd] show ?case
    unfolding split by (simp add: render_headers_def h crlf_def)
qed

lemma rendered_is_one_request:
  assumes "wf_request_line m u v" and "list_all wf_header hs"
  shows "find_sub blank_line (render_request m u v hs) = Some (length (render_request m u v hs) - 4)"
  using find_sub_blank_headers [OF assms(2), of "m @ '' '' @ u @ '' '' @ v" "[]"] assms(1)
  by (simp add: render_request_def wf_request_line_def crlf_def)

lemma feed_rendered:
  assumes "wf_request_line m u v" and "list_all wf_header hs" and "rx_buffer s = []"
    and "length (render_request m u v hs) \<le> 65536"
  shows "feed iter (render_request m u v hs) s md =
     (case parse_request iter (render_request m u v hs) of
        Inl e \<Rightarrow> ([], Inl e, s, md)
      | Inr None \<Rightarrow> ([response_error 0 400 ''Bad Request''], Inr True, s, md)
      | Inr (Some req) \<Rightarrow>
          (case handle req s md of
             (resp, sent, s', md') \<Rightarrow> (outputs resp sent, Inr (state s' \<noteq> CLOSED), s', md')))"
proof -
  let ?r = "render_request m u v hs"
  let ?s = "s\<lparr>rx_buffer := ?r\<rparr>"
  note cut = rendered_is_one_request [OF assms(1,2)]
  have n: "length ?r - 4 + 4 = length ?r" using blank_line_cut [OF cut] by simp
  have s: "s\<lparr>rx_buffer := []\<rparr> = s" using assms(3) by (cases s) simp
  have f: "feed iter ?r s md = feed_loop iter ?s md"
    using assms(3,4) by (simp add: feed_def kMaxRxBuffer_def)
  have idle: "rx_buffer t = [] \<Longrightarrow> feed_loop iter t md' = ([], Inr True, t, md')" for t md'
    by (rule feed_loop_cases(1)) (simp add: blank_line_def crlf_def)
  show ?thesis
  proof (cases "parse_request iter ?r")
    case (Inl e)
    then show ?thesis
      using f cut n s by (simp add: feed_loop_cases(2) [where n = "length ?r - 4"])
  next
    case (Inr p)
    show ?thesis
    proof (cases p)
      case None
      then show ?thesis
        using f Inr cut n s idle [OF assms(3)] by (simp add: feed_loop_cases(3) [where n = "length ?r - 4"])
    next
      case (Some req)
      obtain resp sent s1 m1 where h: "handle req s md = (resp, sent, s1, m1)" by (metis prod_cases4)
      from handle_rx [OF h] assms(3) have rx: "rx_buffer s1 = []" by simp
      from feed_loop_cases(4) [where s = ?s and n = "length ?r - 4" and iter = iter and req = req and m = md]
      show ?thesis
        using f Inr Some cut n s h idle [OF rx] by simp
    qed
  qed
qed

lemma feed_request:
  assumes "wf_request_line m u v" and "list_all wf_header hs" and "distinct (map fst hs)"
    and "iterates iter" and "only_value hs ''CSeq'' (show_int n)" and "int32 n"
    and "length (render_request m u v hs) \<le> 65536" and "rx_buffer s = []" and "state s \<noteq> CLOSED"
    and "feed iter (render_request m u v hs) s md = (out, res, s', md')"
  shows "\<exists>req. req_method req = string_to_method m \<and> uri req = u \<and> cseq req = n \<and>
     answers out (expected_status req s md) n \<and> res = Inr (state s' \<noteq> CLOSED) \<and>
     (state s' = state s \<or> moves (state s) (req_method req) (state s'))"
proof -
  let ?req = "\<lparr>req_method = string_to_method m, uri = u, cseq = n, headers = iter hs\<rparr>"
  have parse: "parse_request iter (render_request m u v hs) = Inr (Some ?req)"
    using parse_rendered_cseq [OF assms(1-5)] stoi_show_int [OF assms(6), of "[]"] by simp
  obtain resp sent s1 m1 where h: "handle ?req s md = (resp, sent, s1, m1)" by (metis prod_cases4)
  from feed_rendered [OF assms(1,2,8,7), of iter md] parse h assms(10)
  have "out = outputs resp sent" "res = Inr (state s' \<noteq> CLOSED)" "s' = s1" by simp_all
  with handle_cases [OF h assms(9)] show ?thesis by (intro exI [of _ ?req]) auto
qed

text \<open>
  a request that a client writes to a session that waits for one is answered by exactly one
  response, with the request's sequence number and the status the protocol asks for, and the
  connection stays open unless the session is closed by it.
\<close>

theorem feed_one_request:
  assumes "wf_request_line m u v" and "list_all wf_header hs" and "distinct (map fst hs)"
    and "iterates iter" and "only_value hs ''CSeq'' (show_int n)" and "int32 n"
    and "length (render_request m u v hs) \<le> 65536" and "rx_buffer s = []" and "state s \<noteq> CLOSED"
    and "feed iter (render_request m u v hs) s md = (out, res, s', md')"
  shows "\<exists>req. req_method req = string_to_method m \<and> uri req = u \<and> cseq req = n \<and>
     answers out (expected_status req s md) n \<and> res = Inr (state s' \<noteq> CLOSED) \<and>
     (state s' = state s \<or> moves (state s) (req_method req) (state s'))"
  by (rule feed_request [OF assms])

lemma feed_one_request_witness:
  "\<exists>out res s' md'. feed rev (render_request ''options'' ''*'' ''RTSP/1.0'' [(''Cseq'', show_int 42)])
        sample_session sample_media = (out, res, s', md') \<and>
     answers out 200 42 \<and> res = Inr True"
proof -
  let ?r = "render_request ''options'' ''*'' ''RTSP/1.0'' [(''Cseq'', show_int 42)]"
  have n: "show_int 42 = ''42''" by code_simp
  have 1: "wf_request_line ''options'' ''*'' ''RTSP/1.0''" by code_simp
  have 2: "list_all wf_header [(''Cseq'', show_int 42)]" unfolding n by code_simp
  have 3: "iterates rev" by (simp add: iterates_def)
  have c: "iequals ''Cseq'' ''CSeq''" by code_simp
  then have 4: "only_value [(''Cseq'', show_int 42)] ''CSeq'' (show_int 42)" by (simp add: only_value_def)
  have 5: "length ?r \<le> 65536" by (simp add: render_request_def render_headers_def n crlf_def)
  have 6: "rx_buffer sample_session = []" "state sample_session = READY"
    by (simp_all add: sample_session_def Session_new_def)
  have 7: "string_to_method ''options'' = OPTIONS" by code_simp
  obtain out res s' md' where f: "feed rev ?r sample_session sample_media = (out, res, s', md')"
    by (metis prod_cases4)
  from feed_one_request [OF 1 2 _ 3 4 _ 5 6(1) _ f] 6 obtain req where
    r: "req_method req = string_to_method ''options''" "answers out (expected_status req sample_session sample_media) 42"
      "res = Inr (state s' \<noteq> CLOSED)" "state s' = READY \<or> moves READY (req_method req) (state s')"
    by (auto simp: int32_def)
  have "expected_status req sample_session sample_media = 200"
    using r(1) 6(2) by (simp add: expected_status_def 7)
  with r f 7 show ?thesis by (auto simp: moves_simps)
qed

text \<open>
  A request with a \<open>CSeq\<close> that is no number: the exception leaves \<open>feed\<close> before anything is answered.
\<close>

lemma feed_throws:
  assumes "wf_request_line m u v" and "list_all wf_header hs" and "distinct (map fst hs)"
    and "iterates iter" and "only_value hs ''CSeq'' (c # rest)"
    and "\<not> isspace c" and "\<not> isdigit c" and "c \<noteq> CHR ''-''" and "c \<noteq> CHR ''+''"
    and "length (render_request m u v hs) \<le> 65536" and "rx_buffer s = []"
  shows "feed iter (render_request m u v hs) s md = ([], Inl invalid_argument, s, md)"
proof -
  have "stoi (c # rest) = Inl invalid_argument" using assms(6-9) by (simp add: stoi_def)
  then have "parse_request iter (render_request m u v hs) = Inl invalid_argument"
    using parse_rendered_cseq [OF assms(1-5)] by simp
  then show ?thesis using feed_rendered [OF assms(1,2,11,10), of iter md] by simp
qed

text \<open>
  C35: the receive buffer never holds more than 64 KiB between two calls: \<open>feed\<close> asks for the
  connection to be closed, without answering anything, exactly when the bytes kept and the new ones
  together exceed that, before looking at them; else the buffer only shrinks, and while the
  connection goes on it holds no complete request.
\<close>

theorem feed_buffer_bounded:
  assumes "feed iter data s m = (out, res, s', m')"
  shows "if length (rx_buffer s @ data) > 65536 then out = [] \<and> res = Inr False \<and> m' = m
     else length (rx_buffer s') \<le> 65536 \<and>
       (res = Inr True \<longrightarrow> find_sub blank_line (rx_buffer s') = None) \<and>
       (res = Inr False \<longrightarrow> state s' = CLOSED)"
proof (cases "length (rx_buffer s @ data) > kMaxRxBuffer")
  case True
  with assms show ?thesis by (auto simp: feed_def Let_def kMaxRxBuffer_def)
next
  case False
  with assms have "feed_loop iter (s\<lparr>rx_buffer := rx_buffer s @ data\<rparr>) m = (out, res, s', m')"
    by (simp add: feed_def Let_def)
  from feed_loop_buffer [OF this] False show ?thesis by (auto simp: kMaxRxBuffer_def)
qed

lemma feed_buffer_bounded_witness:
  "feed id (replicate 65537 (CHR ''A'')) sample_session sample_media =
     ([], Inr False, sample_session\<lparr>rx_buffer := replicate 65537 (CHR ''A'')\<rparr>, sample_media)"
proof -
  obtain out res s' m' where f: "feed id (replicate 65537 (CHR ''A'')) sample_session sample_media = (out, res, s', m')"
    by (metis prod_cases4)
  have len: "length (rx_buffer sample_session @ replicate 65537 (CHR ''A'')) > 65536" by simp
  have "s' = sample_session\<lparr>rx_buffer := replicate 65537 (CHR ''A'')\<rparr>"
    using f len by (auto simp: feed_def kMaxRxBuffer_def sample_session_def Session_new_def Let_def)
  with feed_buffer_bounded [OF f] len f show ?thesis by (simp split: if_splits)
qed

section \<open>The transport\<close>

lemma find_client_port:
  assumes "CHR ''='' \<notin> set pre"
  shows "find_sub ''client_port='' (pre @ ''client_port='' @ t) = Some (length pre)"
proof (rule find_sub_eq_SomeI)
  show "take (length ''client_port='') (drop (length pre) (pre @ ''client_port='' @ t)) = ''client_port=''"
    by simp
next
  fix k assume k: "k < length pre"
  show "take (length ''client_port='') (drop k (pre @ ''client_port='' @ t)) \<noteq> ''client_port=''"
  proof
    assume h: "take (length ''client_port='') (drop k (pre @ ''client_port='' @ t)) = ''client_port=''"
    have "length ''client_port='' = 12" by simp
    with h have h': "take 12 (drop k (pre @ ''client_port='' @ t)) = ''client_port=''" by (simp only:)
    have aux: "i < 12 \<Longrightarrow> k \<le> length u \<Longrightarrow> take 12 (drop k u) ! i = u ! (k + i)" for i and u :: string
      by simp
    have at: "(pre @ ''client_port='' @ t) ! (k + i) = ''client_port='' ! i" if "i < 12" for i
    proof -
      have "k \<le> length (pre @ ''client_port='' @ t)" using k by simp
      from aux [OF that this] show ?thesis by (simp only: h')
    qed
    show False
    proof (cases "k + 11 < length pre")
      case True
      with at [of 11] have "CHR ''='' \<in> set pre" by (simp add: nth_append in_set_conv_nth) blast
      with assms show False by contradiction
    next
      case False
      then have i: "length pre - k < 12" "0 < length pre - k" using k by auto
      from at [OF i(1)] k have "''client_port='' ! (length pre - k) = CHR ''c''" by (simp add: nth_append)
      moreover have "\<forall>i < 12. 0 < i \<longrightarrow> ''client_port='' ! i \<noteq> CHR ''c''" by code_simp
      ultimately show False using i by blast
    qed
  qed
qed (simp_all)

definition ends_ports :: "string \<Rightarrow> bool" where
  "ends_ports rest \<longleftrightarrow> (rest = [] \<or> hd rest \<in> {CHR '';'', CHR '',''})"

lemma ports_cut:
  assumes "CHR '';'' \<notin> set ports" and "CHR '','' \<notin> set ports" and "ends_ports rest"
  shows "takeWhile (\<lambda>c. c \<noteq> CHR '';'' \<and> c \<noteq> CHR '','') (ports @ rest) = ports"
proof -
  let ?P = "\<lambda>c. c \<noteq> CHR '';'' \<and> c \<noteq> CHR '',''"
  have "takeWhile ?P (ports @ rest) = ports @ takeWhile ?P rest"
    by (rule takeWhile_append2) (use assms(1,2) in blast)
  moreover have "takeWhile ?P rest = []" using assms(3) by (cases rest) (auto simp: ends_ports_def)
  ultimately show ?thesis by simp
qed

lemma show_int_plain: "CHR '';'' \<notin> set (show_int i)" "CHR '','' \<notin> set (show_int i)"
  using show_int_chars [of "CHR '';''" i] show_int_chars [of "CHR '',''" i] by (auto simp: isdigit_def)

lemma show_int_pos_no_dash: "0 \<le> i \<Longrightarrow> CHR ''-'' \<notin> set (show_int i)"
proof -
  assume "0 \<le> i"
  then have "show_int i = show_nat (nat i)" by (simp add: show_int_def)
  moreover have "\<not> isdigit (CHR ''-'')" by code_simp
  ultimately show ?thesis using show_nat_digits [of "nat i"] by metis
qed

lemma parse_transport_pair:
  assumes "CHR ''='' \<notin> set pre" and "ends_ports rest" and "0 \<le> p" and "int32 p" and "int32 q"
  shows "parse_transport (pre @ ''client_port='' @ show_int p @ ''-'' @ show_int q @ rest) r c
     = (0 < p \<and> p \<le> 65535, p, q)"
proof -
  let ?ports = "show_int p @ ''-'' @ show_int q"
  have cut: "takeWhile (\<lambda>c. c \<noteq> CHR '';'' \<and> c \<noteq> CHR '','') (?ports @ rest) = ?ports"
    by (rule ports_cut) (use show_int_plain assms(2) in auto)
  have dash: "find_idx (\<lambda>c. c = CHR ''-'') ?ports = Some (length (show_int p))"
    using show_int_pos_no_dash [OF assms(3)] find_idx_hit [of "show_int p" "\<lambda>c. c = CHR ''-''" "CHR ''-''"]
    by auto
  show ?thesis
    using find_client_port [OF assms(1), of "?ports @ rest"] cut dash
      stoi_show_int [OF assms(4), of "[]"] stoi_show_int [OF assms(5), of "[]"]
    by (simp add: parse_transport_def)
qed

lemma parse_transport_single:
  assumes "CHR ''='' \<notin> set pre" and "ends_ports rest" and "0 \<le> p" and "int32 p"
  shows "parse_transport (pre @ ''client_port='' @ show_int p @ rest) r c
     = (0 < p \<and> p \<le> 65535, p, wrap32 (p + 1))"
proof -
  have cut: "takeWhile (\<lambda>c. c \<noteq> CHR '';'' \<and> c \<noteq> CHR '','') (show_int p @ rest) = show_int p"
    by (rule ports_cut) (use show_int_plain assms(2) in auto)
  have dash: "find_idx (\<lambda>c. c = CHR ''-'') (show_int p) = None"
    using show_int_pos_no_dash [OF assms(3)] by (auto simp: find_idx_None_iff)
  show ?thesis
    using find_client_port [OF assms(1), of "show_int p @ rest"] cut dash
      stoi_show_int [OF assms(4), of "[]"]
    by (simp add: parse_transport_def)
qed

text \<open>
  the transport header is understood wherever the port pair stands in it: for any parameters
  before and after, the ports found are the ones written, a single port brings the next one along,
  and the header is refused exactly when the RTP port is not a port number.
\<close>

theorem transport_roundtrip:
  assumes "CHR ''='' \<notin> set pre" and "ends_ports rest" and "0 \<le> p" and "int32 p" and "int32 q"
  shows "parse_transport (pre @ ''client_port='' @ show_int p @ ''-'' @ show_int q @ rest) r c
       = (p \<in> {1..65535}, p, q) \<and>
     (p \<in> {1..65535} \<longrightarrow>
       parse_transport (pre @ ''client_port='' @ show_int p @ rest) r c = (True, p, p + 1))"
proof -
  have "p \<in> {1..65535} \<Longrightarrow> wrap32 (p + 1) = p + 1" by (simp add: wrap32_def)
  then show ?thesis
    using parse_transport_pair [OF assms] parse_transport_single [OF assms(1-4)] by auto
qed

lemma transport_roundtrip_witness:
  "parse_transport (''RTP/AVP;unicast;'' @ ''client_port='' @ show_int 5000 @ ''-'' @ show_int 5001 @ '';mode=play'') 0 0
     = (True, 5000, 5001)"
  using transport_roundtrip [of "''RTP/AVP;unicast;''" "'';mode=play''" 5000 5001 0 0]
  by (simp add: ends_ports_def int32_def)

section \<open>Streams\<close>

text \<open>
  C25: \<open>PLAY\<close> answers before it streams.  The response goes out by the handler's one call of the send
  function, with nothing left to be sent when it returns, and at the moment of that call the hub is
  still as it was: the streamer is not on its list, the source has not been started, and no datagram
  has left.  When the session is playing afterwards, a fresh streamer, connected to the client's address
  and the negotiated port with its timestamp at zero, is the last on the hub's list and the pump runs;
  when the source cannot be started the response has gone out all the same, and the session is as it was.
\<close>

theorem play_starts_stream:
  assumes "hub_ok m" and "session_ok s m" and "req_method req = PLAY" and "state s = READY"
    and "handle req s m = (resp, sent, s', m')" and "expected_status req s m = 200"
  shows "resp = [] \<and> (\<exists>m1. sent = [(response_play (cseq req) (session_id s), m1)] \<and>
        hub m1 = hub m \<and> heap m1 = heap m \<and> wire (host m1) = wire (host m)) \<and>
     wire (host m') = wire (host m) \<and>
     (if state s' = PLAYING
      then s' = s\<lparr>streamer := Some (next_ref m), state := PLAYING\<rparr> \<and> hub_running (hub m') \<and>
        hub_subscribers (hub m') = hub_subscribers (hub m) @ [next_ref m] \<and>
        (\<exists>st. heap m' (next_ref m) = Some st \<and> connected st \<and> st_timestamp st = 0 \<and>
           udp_peer (socket st) = Some (client_ip s, word_of_int (client_rtp_port s)))
      else s' = s)"
proof -
  have h: "handle_play req s m = (resp, sent, s', m')"
    using assms(3-5) by (simp add: handle_def method_allowed_def)
  have ok: "session_header_matches req s" "play_connects s m"
    using assms(3,4,6) by (auto simp: expected_status_def split: if_splits)
  have none: "streamer s = None" using assms(2,4) by (auto simp: session_ok_def)
  obtain st0 w0 where new: "Streamer_new (host m) = (st0, w0)" by fastforce
  obtain st w where con: "streamer_connect st0 (client_ip s) (word_of_int (client_rtp_port s)) w0 = (True, st, w)"
    using ok(2) new
    by (cases "streamer_connect st0 (client_ip s) (word_of_int (client_rtp_port s)) w0") (auto simp: play_connects_def)
  have "resp = []" "sent = [(response_play (cseq req) (session_id s), m\<lparr>host := w\<rparr>)]"
    using h ok(1) new con by (auto simp: handle_play_def Let_def split: prod.splits if_splits)
  with fresh_streamer(1) [OF new con] have "resp = [] \<and> (\<exists>m1. sent = [(response_play (cseq req) (session_id s), m1)] \<and>
      hub m1 = hub m \<and> heap m1 = heap m \<and> wire (host m1) = wire (host m))" by simp
  with handle_play_effect [OF assms(1) none h] assms(4) show ?thesis
    by (cases "streamer s' = None") auto
qed

lemma sample_session_ok: "session_ok sample_session sample_media"
  by (simp add: session_ok_def owned_def sample_session_def Session_new_def)

text \<open>A blank line on its own is answered with 400 and leaves the session as it was.\<close>

lemma feed_blank:
  "feed id (crlf @ crlf) sample_session m =
     ([response_error 0 400 ''Bad Request''], Inr True, sample_session, m)"
proof -
  let ?s = "sample_session\<lparr>rx_buffer := crlf @ crlf\<rparr>"
  have s: "rx_buffer sample_session = []" by (simp add: sample_session_def Session_new_def)
  then have id: "?s\<lparr>rx_buffer := []\<rparr> = sample_session" by simp
  have "find_sub blank_line (crlf @ crlf) = Some 0" by code_simp
  then have cut: "find_sub blank_line (rx_buffer ?s) = Some 0" by simp
  have "parse_request id (take (0 + 4) (crlf @ crlf)) = Inr None" by code_simp
  then have "parse_request id (take (0 + 4) (rx_buffer ?s)) = Inr None" by simp
  note bad = feed_loop_cases(3) [OF cut this]
  have "find_sub blank_line [] = None" by code_simp
  then have rest: "feed_loop id sample_session m = ([], Inr True, sample_session, m)" for m
    using s by (intro feed_loop_cases(1)) simp
  have "length (crlf @ crlf) = 4" by (simp add: crlf_def)
  then show ?thesis
    using s bad [of m] id rest by (simp add: feed_def kMaxRxBuffer_def Let_def)
qed

lemma play_starts_stream_witness:
  "\<exists>resp sent s' m'. handle (sample_request PLAY) sample_session sample_media = (resp, sent, s', m') \<and>
     resp = [] \<and> map fst sent = [response_play 7 ''0000000A''] \<and> hub (snd (hd sent)) = hub sample_media \<and>
     wire (host m') = []"
proof -
  obtain resp sent s' m' where
    h: "handle (sample_request PLAY) sample_session sample_media = (resp, sent, s', m')"
    by (metis prod_cases4)
  have r: "req_method (sample_request PLAY) = PLAY" "cseq (sample_request PLAY) = 7"
    "state sample_session = READY" "session_id sample_session = ''0000000A''"
    by (simp_all add: sample_request_def sample_session_def)
  have "play_connects sample_session sample_media"
    by (simp add: play_connects_def Streamer_new_def UdpSocket_new_def draw_def streamer_connect_def
        udp_connect_to_def sample_session_def Session_new_def sample_media_def sample_os_def ticked_def
        Let_def)
  then have "expected_status (sample_request PLAY) sample_session sample_media = 200"
    using r sample_matches by (simp add: expected_status_def)
  from play_starts_stream [OF sample_media_ok sample_session_ok r(1,3) h this] h r show ?thesis
    by (auto simp: sample_media_def sample_os_def)
qed

text \<open>
  C26: \<open>PAUSE\<close> and \<open>TEARDOWN\<close> stop the stream for good.  Afterwards the session has no streamer, the
  one it had is off the hub's list and deleted, and stays so however long the pump goes on; the
  streams of the other sessions stay on the list, connected.
\<close>

theorem stop_ends_stream:
  assumes "hub_ok m" and "session_ok s m" and "streamer s = Some r" and "session_header_matches req s"
    and "req_method req = PAUSE \<or> req_method req = TEARDOWN"
    and "handle req s m = (resp, sent, s', m')"
  shows "streamer s' = None \<and> state s' = (if req_method req = PAUSE then READY else CLOSED) \<and>
     heap ((pump_step ^^ n) m') r = None \<and> r \<notin> set (hub_subscribers (hub ((pump_step ^^ n) m'))) \<and>
     set (hub_subscribers (hub m')) = set (hub_subscribers (hub m)) - {r} \<and>
     (\<forall>q \<in> set (hub_subscribers (hub m')). ready (heap m') q)"
proof -
  have playing: "state s = PLAYING" using assms(2,3) by (simp add: session_ok_def)
  have own: "owned s \<subseteq> set (hub_subscribers (hub m))" "streamer s \<noteq> None \<longrightarrow> has_hub s"
    using assms(2) by (simp_all add: session_ok_def)
  obtain s1 m1 where st: "stop_streaming s m = (s1, m1)" by fastforce
  from stop_streaming_step [OF assms(1) own st] have
    step: "streams_step s m s1 m1" "streamer s1 = None" by blast+
  have res: "m' = m1 \<and> s' = s1\<lparr>state := (if req_method req = PAUSE then READY else CLOSED)\<rparr>"
  proof (cases "req_method req = PAUSE")
    case True
    then have "handle_pause req s m = (resp, sent, s', m')"
      using assms(6) playing by (simp add: handle_def method_allowed_def)
    from handle_stop_answers(1) [OF this] assms(4) st True show ?thesis by simp
  next
    case False
    then have "handle_teardown req s m = (resp, sent, s', m')"
      using assms(5,6) playing by (simp add: handle_def method_allowed_def)
    from handle_stop_answers(2) [OF this] assms(4) st False show ?thesis by simp
  qed
  have subs: "set (hub_subscribers (hub m')) = set (hub_subscribers (hub m)) - {r}"
    using step res assms(3) by (simp add: streams_step_def owned_def)
  have gone: "heap m' r = None"
    using st assms(3) own(2) res by (auto simp: stop_streaming_def Let_def)
  have k: "kept m' ((pump_step ^^ n) m')" by (rule pump_steps_kept)
  have "heap ((pump_step ^^ n) m') r = None" "r \<notin> set (hub_subscribers (hub ((pump_step ^^ n) m')))"
    using k subs gone by (simp_all add: kept_def)
  then show ?thesis
    using res step subs by (simp add: streams_step_def hub_ok_def)
qed

lemma stop_ends_stream_witness:
  "let s = sample_session\<lparr>state := PLAYING, streamer := Some 2\<rparr>;
       (_, _, s', m') = handle (sample_request PAUSE) s sample_media
   in streamer s' = None \<and> state s' = READY \<and> heap ((pump_step ^^ 5) m') 2 = None"
proof -
  let ?s = "sample_session\<lparr>state := PLAYING, streamer := Some 2\<rparr>"
  obtain resp sent s' m' where h: "handle (sample_request PAUSE) ?s sample_media = (resp, sent, s', m')"
    by (metis prod_cases4)
  have ok: "session_ok ?s sample_media"
    by (simp add: session_ok_def owned_def peer_of_def sample_session_def Session_new_def sample_media_def
        sample_streamer_def)
  have "session_header_matches (sample_request PAUSE) ?s"
    using sample_matches [of PAUSE] by (simp add: session_header_matches_def cong: option.case_cong)
  from stop_ends_stream [OF sample_media_ok ok _ this _ h, of 2 5] h show ?thesis
    by (simp add: sample_request_def)
qed

text \<open>
  C31: a \<open>SETUP\<close> that is refused with 461 nevertheless changes the session: the port it named is
  kept, and a \<open>PLAY\<close> that follows streams to it, reduced modulo \<open>2 ^ 16\<close>, instead of to the port
  that was negotiated.
\<close>

theorem refused_setup_moves_port:
  assumes "hub_ok m" and "session_ok s m" and "state s = READY" and "req_method req = SETUP"
    and "header req ''Transport'' = Some (''RTP/AVP;unicast;client_port='' @ show_int p)"
    and "65535 < p" and "int32 p"
    and "handle req s m = (resp, sent, s1, m1)"
    and "req_method req' = PLAY" and "handle req' s1 m1 = (resp', sent', s2, m2)" and "state s2 = PLAYING"
  shows "answers (outputs resp sent) 461 (cseq req) \<and> state s1 = READY \<and>
     (\<exists>r st. streamer s2 = Some r \<and> heap m2 r = Some st \<and>
        udp_peer (socket st) = Some (client_ip s, word_of_int p))"
proof -
  have t: "parse_transport (''RTP/AVP;unicast;client_port='' @ show_int p) (client_rtp_port s) (client_rtcp_port s)
      = (False, p, wrap32 (p + 1))"
    using parse_transport_single [of "''RTP/AVP;unicast;''" "[]" p] assms(6,7) by (simp add: ends_ports_def)
  have h: "handle_setup req s m = (resp, sent, s1, m1)"
    using assms(3,4,8) by (simp add: handle_def method_allowed_def)
  have s1: "s1 = s\<lparr>client_rtp_port := p, client_rtcp_port := wrap32 (p + 1)\<rparr>" "m1 = m"
    "resp = response_error (cseq req) 461 ''Unsupported Transport''" "sent = []"
    using h assms(5) t by (simp_all add: handle_setup_def)
  have h': "handle_play req' s1 m1 = (resp', sent', s2, m2)"
    using assms(3,9,10) s1(1) by (simp add: handle_def method_allowed_def)
  have none: "streamer s1 = None" using assms(2,3) s1(1) by (auto simp: session_ok_def)
  have ready: "state s1 = READY" "client_ip s1 = client_ip s" "client_rtp_port s1 = p"
    using s1(1) assms(3) by simp_all
  have "hub_ok m1" using assms(1) s1(2) by simp
  note eff = handle_play_effect [OF this none h']
  have "streamer s2 \<noteq> None"
  proof
    assume "streamer s2 = None"
    with eff have "s2 = s1" by simp
    with ready(1) assms(11) show False by simp
  qed
  with eff have "streamer s2 = Some (next_ref m1)" "\<exists>st. heap m2 (next_ref m1) = Some st \<and>
      udp_peer (socket st) = Some (client_ip s1, word_of_int (client_rtp_port s1))" by auto
  then show ?thesis unfolding s1(3,4) using ready answers_error by simp
qed

definition sample_setup :: Request where
  "sample_setup = (sample_request SETUP)
     \<lparr>headers := [(''Transport'', ''RTP/AVP;unicast;client_port='' @ show_int 70000)]\<rparr>"

definition camera_media :: media where
  "camera_media = sample_media\<lparr>host := sample_os\<lparr>sys_popen := \<lambda>_ _. Some (fopened [])\<rparr>\<rparr>"

lemma refused_setup_moves_port_witness:
  "\<exists>resp sent s1 m1 resp' sent' s2 m2 r st.
     handle sample_setup sample_session camera_media = (resp, sent, s1, m1) \<and>
     handle (sample_request PLAY) s1 m1 = (resp', sent', s2, m2) \<and>
     streamer s2 = Some r \<and> heap m2 r = Some st \<and> udp_peer (socket st) = Some (''10.0.0.2'', 4464)"
proof -
  have ok: "hub_ok camera_media" "session_ok sample_session camera_media"
    using sample_media_ok sample_session_ok by (simp_all add: camera_media_def session_ok_def peer_of_def)
  obtain resp sent s1 m1 where h: "handle sample_setup sample_session camera_media = (resp, sent, s1, m1)"
    by (metis prod_cases4)
  obtain resp' sent' s2 m2 where h': "handle (sample_request PLAY) s1 m1 = (resp', sent', s2, m2)"
    by (metis prod_cases4)
  have i: "iequals ''Transport'' ''Transport''" by (simp add: iequals_iff)
  have hdr: "header sample_setup ''Transport'' = Some (''RTP/AVP;unicast;client_port='' @ show_int 70000)"
    using i by (simp add: header_def sample_setup_def)
  have t: "parse_transport (''RTP/AVP;unicast;client_port='' @ show_int 70000) r c = (False, 70000, 70001)" for r c
    using parse_transport_single [of "''RTP/AVP;unicast;''" "[]" 70000] by (simp add: ends_ports_def int32_def wrap32_def)
  have m: "req_method sample_setup = SETUP" "req_method (sample_request PLAY) = PLAY" "state sample_session = READY"
    by (simp_all add: sample_setup_def sample_request_def sample_session_def)
  have s1: "s1 = sample_session\<lparr>client_rtp_port := 70000, client_rtcp_port := 70001\<rparr>" "m1 = camera_media"
    using h m hdr t by (simp_all add: handle_def method_allowed_def handle_setup_def)
  have "session_header_matches (sample_request PLAY) s1"
    using sample_matches [of PLAY] by (simp add: s1 session_header_matches_def cong: option.case_cong)
  then have "state s2 = PLAYING"
    using h' m by (auto simp: s1 handle_def method_allowed_def handle_play_def Streamer_new_def UdpSocket_new_def
        draw_def streamer_connect_def udp_connect_to_def camera_media_def sample_session_def Session_new_def
        sample_media_def sample_os_def ticked_def hub_subscribe_def hub_start_pump_def hub_new_def
        SourceConfig_default_def make_source_def CameraSource_new_def camera_start_def Let_def)
  from refused_setup_moves_port [OF ok m(3,1) hdr _ _ h m(2) h' this] h h' show ?thesis
    by (auto simp: int32_def sample_session_def Session_new_def)
qed

end
