(* ===== verification/Server.thy ===== *)
theory Server
  imports Dialogue "HOL-Library.Multiset"
begin

text \<open>
  \<open>rtsp::Server\<close> (src/rtsp/server.cpp): the event loop over the listener and the clients.  The kernel's
  part of an event, what \<open>epoll_wait\<close>, \<open>accept\<close>, \<open>getpeername\<close>, \<open>epoll_ctl\<close>, \<open>read\<close> and the calls of
  \<open>write\<close> return for it, is the record \<open>event\<close>.
\<close>

section \<open>State\<close>

text \<open>
  A \<open>Client\<close> is the descriptor, the key of the map, and the session.  \<open>sent_to\<close> lists what the kernel
  took of each response, \<open>opened\<close> and \<open>closed\<close> the descriptors of the listener, the epoll instance and
  the connections that the program has been given and has closed; these three are what an observer
  at the kernel sees.
\<close>

record server =
  listener_fd :: int
  epoll_fd :: int
  clients :: "int \<Rightarrow> Session option"
  interest :: "int set"
  plant :: media
  sent_to :: "(int \<times> string) list"
  opened :: "int list"
  closed :: "int list"

record event =
  ev_fd :: int
  ev_hangup :: bool
  ev_accept :: int
  ev_peername :: "string option"
  ev_epoll_add :: bool
  ev_read :: "sys_read list"
  ev_writes :: "sys_write list list"

definition server_new :: "int \<Rightarrow> int \<Rightarrow> string \<Rightarrow> os \<Rightarrow> server" where
  "server_new fd epoll source_path w =
     \<lparr>listener_fd = fd, epoll_fd = epoll, clients = (\<lambda>_. None), interest = {fd},
      plant = \<lparr>hub = hub_new (SourceConfig_default\<lparr>cfg_source := source_path\<rparr>) w,
               heap = (\<lambda>_. None), next_ref = 0, host = w\<rparr>,
      sent_to = [], opened = [fd, epoll], closed = []\<rparr>"

section \<open>The event loop\<close>

text \<open>
  The destructor of a \<open>Client\<close>: the session stops its streaming, the connection is closed.
\<close>

definition Client_delete :: "int \<Rightarrow> Session \<Rightarrow> server \<Rightarrow> server" where
  "Client_delete fd s srv =
     (let (_, m) = stop_streaming s (plant srv)
      in srv\<lparr>plant := m, closed := closed srv @ close_fd fd\<rparr>)"

definition drop_client :: "int \<Rightarrow> server \<Rightarrow> server" where
  "drop_client fd srv =
     (let srv = srv\<lparr>interest := interest srv - {fd}\<rparr> in
      case clients srv fd of
        None \<Rightarrow> srv
      | Some s \<Rightarrow>
          (let (s, m) = on_disconnect s (plant srv)
           in Client_delete fd s (srv\<lparr>clients := (clients srv)(fd := None), plant := m\<rparr>)))"

text \<open>The constructor of a \<open>Client\<close> takes the descriptor and asks for the peer's address.\<close>

definition Client_new :: "int \<Rightarrow> string option \<Rightarrow> Session" where
  "Client_new fd peername = Session_new (peer_ip fd peername) True"

text \<open>
  A client that cannot be watched, or whose key is taken, is destroyed again: \<open>emplace\<close> does not
  replace.
\<close>

definition accept_client :: "event \<Rightarrow> server \<Rightarrow> server" where
  "accept_client ev srv =
     (let client_fd = accept_one (ev_accept ev) in
      if client_fd < 0 then srv
      else (let client = Client_new client_fd (ev_peername ev);
                srv = srv\<lparr>opened := opened srv @ [client_fd]\<rparr> in
            if \<not> ev_epoll_add ev then Client_delete client_fd client srv
            else (let srv = srv\<lparr>interest := insert client_fd (interest srv)\<rparr> in
                  if clients srv client_fd = None
                  then srv\<lparr>clients := (clients srv)(client_fd \<mapsto> client)\<rparr>
                  else Client_delete client_fd client srv)))"

text \<open>
  How the loop can be brought to a halt from inside: by an exception that nothing catches, in a
  system call that does not come back, or by a signal that ends the process.
\<close>

datatype fate = Threw stoi_exn | Stuck | Died

text \<open>
  The send function of a client hands each response to \<open>TcpConnection::write\<close> and ignores the result;
  the list has the results of the system calls, one element per response.  The responses to one read
  are written together when the session has served it; the code writes each as it is made.
\<close>

fun write_responses :: "string list \<Rightarrow> sys_write list list \<Rightarrow> fate + string list" where
  "write_responses [] ws = Inr []"
| "write_responses (response # out) ws =
     (case tcp_write response (if ws = [] then [] else hd ws) of
        (Blocked, _) \<Rightarrow> Inl Stuck
      | (Killed, _) \<Rightarrow> Inl Died
      | (Returned _, taken) \<Rightarrow>
          (case write_responses out (tl ws) of
             Inl f \<Rightarrow> Inl f
           | Inr rest \<Rightarrow> Inr (taken # rest)))"

definition handle_event :: "(header_table \<Rightarrow> header_table) \<Rightarrow> event \<Rightarrow> server \<Rightarrow> fate + server" where
  "handle_event iter ev srv =
     (let fd = ev_fd ev in
      if fd = listener_fd srv then Inr (accept_client ev srv)
      else (case clients srv fd of
              None \<Rightarrow> Inr srv
            | Some s \<Rightarrow>
                if ev_hangup ev then Inr (drop_client fd srv)
                else (case tcp_read (ev_read ev) of
                        Blocked \<Rightarrow> Inl Stuck
                      | Killed \<Rightarrow> Inl Died
                      | Returned (r, buffer) \<Rightarrow>
                          if r \<le> 0 then Inr (drop_client fd srv)
                          else (case feed iter buffer s (plant srv) of
                                  (out, res, s, m) \<Rightarrow>
                                    (case write_responses out (ev_writes ev) of
                                       Inl f \<Rightarrow> Inl f
                                     | Inr taken \<Rightarrow>
                                         (let srv = srv\<lparr>clients := (clients srv)(fd \<mapsto> s), plant := m,
                                                sent_to := sent_to srv @ map (Pair fd) taken\<rparr> in
                                          case res of
                                            Inl e \<Rightarrow> Inl (Threw e)
                                          | Inr True \<Rightarrow> Inr srv
                                          | Inr False \<Rightarrow> Inr (drop_client fd srv)))))))"

text \<open>The batch that one \<open>epoll_wait\<close> returns.\<close>

fun handle_batch :: "(header_table \<Rightarrow> header_table) \<Rightarrow> event list \<Rightarrow> server \<Rightarrow> fate + server" where
  "handle_batch iter [] srv = Inr srv"
| "handle_batch iter (ev # evs) srv =
     (case handle_event iter ev srv of Inl f \<Rightarrow> Inl f | Inr srv \<Rightarrow> handle_batch iter evs srv)"

text \<open>
  After the loop \<open>clients.clear()\<close> destroys the clients, in the order \<open>fds\<close> the map is in; then the
  epoll descriptor is closed, and at the end of \<open>run\<close> the hub and the listener are destroyed.
\<close>

fun clear_clients :: "int list \<Rightarrow> server \<Rightarrow> server" where
  "clear_clients [] srv = srv"
| "clear_clients (fd # fds) srv =
     (case clients srv fd of
        None \<Rightarrow> clear_clients fds srv
      | Some s \<Rightarrow> clear_clients fds (Client_delete fd s (srv\<lparr>clients := (clients srv)(fd := None)\<rparr>)))"

definition shutdown :: "int list \<Rightarrow> server \<Rightarrow> server" where
  "shutdown fds srv =
     (let srv = clear_clients fds srv;
          srv = srv\<lparr>closed := closed srv @ [epoll_fd srv]\<rparr>;
          srv = srv\<lparr>plant := hub_delete (plant srv)\<rparr>
      in srv\<lparr>closed := closed srv @ close_fd (listener_fd srv)\<rparr>)"

text \<open>
  \<open>Server::run\<close>.  One turn of its loop is what \<open>epoll_wait\<close> returns; \<open>Stop_requested\<close> is the loop
  condition finding \<open>g_running\<close> cleared by the signal handler, and \<open>Pump_turn\<close> is a turn of the other
  thread that happens meanwhile.  When the turns are used up the loop is waiting in \<open>epoll_wait\<close>.
\<close>

datatype turn = Stop_requested | Wait_interrupted | Wait_failed | Wait_events "event list" | Pump_turn

fun run_loop :: "(header_table \<Rightarrow> header_table) \<Rightarrow> turn list \<Rightarrow> server \<Rightarrow> fate + server call" where
  "run_loop iter [] srv = Inr Blocked"
| "run_loop iter (Stop_requested # ts) srv = Inr (Returned srv)"
| "run_loop iter (Wait_interrupted # ts) srv = run_loop iter ts srv"
| "run_loop iter (Wait_failed # ts) srv = Inr (Returned srv)"
| "run_loop iter (Wait_events evs # ts) srv =
     (case handle_batch iter evs srv of Inl f \<Rightarrow> Inl f | Inr srv \<Rightarrow> run_loop iter ts srv)"
| "run_loop iter (Pump_turn # ts) srv = run_loop iter ts (srv\<lparr>plant := pump_step (plant srv)\<rparr>)"

text \<open>
  The start-up: \<open>Inl\<close> is the exit code of a start that failed, with the descriptors closed on the
  way out.  The arguments are the results of the listener's system calls, of \<open>epoll_create1\<close> and of
  adding the listener to the interest set.
\<close>

definition run_start ::
  "int \<Rightarrow> bool \<Rightarrow> bool \<Rightarrow> bool \<Rightarrow> int \<Rightarrow> bool \<Rightarrow> string \<Rightarrow> os \<Rightarrow> int \<times> int list + server" where
  "run_start socket_result setsockopt_ok bind_ok listen_ok epoll epoll_add_ok source_path w =
     (let (fd, gone) = TcpListener_new socket_result setsockopt_ok bind_ok listen_ok in
      if fd < 0 then Inl (1, gone @ close_fd fd)
      else if epoll < 0 then Inl (1, gone @ close_fd fd)
      else if \<not> epoll_add_ok then Inl (1, gone @ [epoll] @ close_fd fd)
      else Inr (server_new fd epoll source_path w))"

text \<open>The exit code and the final state; \<open>order\<close> is the iteration order of the client map.\<close>

definition run_finish :: "(server \<Rightarrow> int list) \<Rightarrow> (header_table \<Rightarrow> header_table) \<Rightarrow> turn list \<Rightarrow> server \<Rightarrow>
    fate + (int \<times> server) call" where
  "run_finish order iter ts srv =
     (case run_loop iter ts srv of
        Inl f \<Rightarrow> Inl f
      | Inr (Returned srv) \<Rightarrow> Inr (Returned (0, shutdown (order srv) srv))
      | Inr Blocked \<Rightarrow> Inr Blocked
      | Inr Killed \<Rightarrow> Inr Killed)"

text \<open>
  A running server: events in any order, and turns of the pump thread between them.
\<close>

inductive reaches :: "(header_table \<Rightarrow> header_table) \<Rightarrow> server \<Rightarrow> server \<Rightarrow> bool" for iter srv where
  here: "reaches iter srv srv"
| event: "reaches iter srv a \<Longrightarrow> handle_event iter ev a = Inr b \<Longrightarrow> reaches iter srv b"
| pump: "reaches iter srv a \<Longrightarrow> reaches iter srv (a\<lparr>plant := pump_step (plant a)\<rparr>)"

text \<open>What each of the two keeps holds in every state that is reached.\<close>

locale server_invariant =
  fixes iter :: "header_table \<Rightarrow> header_table" and I :: "server \<Rightarrow> bool"
  assumes event_keeps: "handle_event iter ev srv = Inr srv' \<Longrightarrow> I srv \<Longrightarrow> I srv'"
    and pump_keeps: "I srv \<Longrightarrow> I (srv\<lparr>plant := pump_step (plant srv)\<rparr>)"
begin

lemma reaches_keeps: "reaches iter srv srv' \<Longrightarrow> I srv \<Longrightarrow> I srv'"
  by (induction rule: reaches.induct) (blast intro: event_keeps pump_keeps)+

end

section \<open>The invariant\<close>

definition streaming :: "server \<Rightarrow> nat set" where
  "streaming srv = {r. \<exists>fd s. clients srv fd = Some s \<and> streamer s = Some r}"

text \<open>
  The sessions and the hub agree: the hub's list and the store hold exactly the streamers of the
  clients, each of one client.
\<close>

definition server_ok :: "server \<Rightarrow> bool" where
  "server_ok srv \<longleftrightarrow>
     hub_ok (plant srv) \<and>
     (\<forall>fd s. clients srv fd = Some s \<longrightarrow> session_ok s (plant srv) \<and> has_hub s \<and> state s \<noteq> CLOSED) \<and>
     (\<forall>fd s fd' s' r. clients srv fd = Some s \<longrightarrow> clients srv fd' = Some s' \<longrightarrow>
        streamer s = Some r \<longrightarrow> streamer s' = Some r \<longrightarrow> fd = fd') \<and>
     set (hub_subscribers (hub (plant srv))) = streaming srv \<and> dom (heap (plant srv)) = streaming srv"

lemma server_new_ok: "server_ok (server_new fd epoll path w)"
  using hub_new_ok [of "SourceConfig_default\<lparr>cfg_source := path\<rparr>" w]
  by (simp add: server_ok_def server_new_def streaming_def hub_new_subscribers)

lemma session_ok_other:
  assumes "streams_step s m s' m'" and "session_ok t m" and "owned t \<inter> owned s = {}"
  shows "session_ok t m'"
proof -
  have "peer_of m' r = peer_of m r" if "r \<in> owned t" for r
  proof -
    have "peer_of m r \<noteq> None" using assms(2) that by (simp add: session_ok_def)
    then have "r \<in> dom (heap m)" by (cases "heap m r") (auto simp: peer_of_def)
    moreover have "r \<notin> owned s" using assms(3) that by blast
    ultimately show ?thesis using assms(1) unfolding streams_step_def by (intro peer_of_cong) blast
  qed
  then show ?thesis using assms by (auto simp: session_ok_def streams_step_def)
qed

lemma streaming_update:
  assumes "clients srv fd = Some s" and "\<forall>fd' s'. clients srv fd' = Some s' \<longrightarrow> fd' \<noteq> fd \<longrightarrow> owned s' \<inter> owned s = {}"
  shows "streaming (srv\<lparr>clients := (clients srv)(fd := c), plant := m\<rparr>)
     = streaming srv - owned s \<union> (case c of None \<Rightarrow> {} | Some t \<Rightarrow> owned t)"
    (is "streaming ?srv = ?rhs")
proof (intro set_eqI iffI)
  fix r assume "r \<in> streaming ?srv"
  then obtain f t where t: "clients ?srv f = Some t" "streamer t = Some r" by (auto simp: streaming_def)
  show "r \<in> ?rhs"
  proof (cases "f = fd")
    case True
    with t show ?thesis by (simp add: owned_def)
  next
    case False
    with t have "clients srv f = Some t" by simp
    with t(2) False assms(2) show ?thesis by (auto simp: streaming_def owned_def)
  qed
next
  fix r assume r: "r \<in> ?rhs"
  show "r \<in> streaming ?srv"
  proof (cases "r \<in> streaming srv - owned s")
    case True
    then obtain f t where t: "clients srv f = Some t" "streamer t = Some r" "r \<notin> owned s"
      by (auto simp: streaming_def)
    then have "f \<noteq> fd" using assms(1) by (auto simp: owned_def)
    with t have "clients ?srv f = Some t" by simp
    with t(2) show ?thesis unfolding streaming_def by blast
  next
    case False
    with r obtain t where "c = Some t" "streamer t = Some r" by (cases c) (auto simp: owned_def)
    then have "clients ?srv fd = Some t" by simp
    with \<open>streamer t = Some r\<close> show ?thesis unfolding streaming_def by blast
  qed
qed

lemma server_ok_step:
  assumes "server_ok srv" and "clients srv fd = Some s" and "streams_step s (plant srv) s' m'"
    and "c = None \<and> streamer s' = None \<or> c = Some s' \<and> session_ok s' m' \<and> state s' \<noteq> CLOSED"
  shows "server_ok (srv\<lparr>clients := (clients srv)(fd := c), plant := m'\<rparr>)"
proof -
  let ?srv = "srv\<lparr>clients := (clients srv)(fd := c), plant := m'\<rparr>"
  have disj: "\<forall>fd' t. clients srv fd' = Some t \<longrightarrow> fd' \<noteq> fd \<longrightarrow> owned t \<inter> owned s = {}"
    using assms(1,2) by (fastforce simp: server_ok_def owned_def)
  have own: "(case c of None \<Rightarrow> {} | Some t \<Rightarrow> owned t) = owned s'"
    using assms(4) by (auto simp: owned_def)
  have str: "streaming ?srv = streaming srv - owned s \<union> owned s'"
    using streaming_update [OF assms(2) disj] own by simp
  have lists: "set (hub_subscribers (hub m')) = streaming ?srv" "dom (heap m') = streaming ?srv"
    using assms(1,3) unfolding str by (simp_all add: server_ok_def streams_step_def)
  have old: "r < next_ref (plant srv)" if "clients srv fd' = Some t" "streamer t = Some r" for fd' t r
  proof -
    have "r \<in> dom (heap (plant srv))" using assms(1) that by (auto simp: server_ok_def streaming_def)
    then show ?thesis using assms(1) unfolding server_ok_def hub_ok_def by blast
  qed
  have fresh: "r \<in> owned s \<or> next_ref (plant srv) \<le> r" if "streamer s' = Some r" for r
    using assms(3) that by (auto simp: streams_step_def owned_def)
  have other: "session_ok t m' \<and> has_hub t \<and> state t \<noteq> CLOSED"
    if "clients srv fd' = Some t" "fd' \<noteq> fd" for fd' t
    using session_ok_other [OF assms(3)] disj assms(1) that by (simp add: server_ok_def)
  have uniq: "fd' = fd" if "clients srv fd' = Some t" "streamer t = Some r" "streamer s' = Some r" for fd' t r
    using fresh [OF that(3)] old [OF that(1,2)] disj that(1,2) by (fastforce simp: owned_def)
  show ?thesis
    unfolding server_ok_def
  proof (intro conjI allI impI)
    show "hub_ok (plant ?srv)" using assms(3) by (simp add: streams_step_def)
    show "set (hub_subscribers (hub (plant ?srv))) = streaming ?srv" "dom (heap (plant ?srv)) = streaming ?srv"
      using lists by simp_all
  next
    fix fd' t assume t: "clients ?srv fd' = Some t"
    have "has_hub s'" using assms(1-3) by (simp add: server_ok_def streams_step_def)
    with t other assms(4) show "session_ok t (plant ?srv)" "has_hub t" "state t \<noteq> CLOSED"
      by (auto split: if_splits)
  next
    fix f1 t1 f2 t2 r
    assume "clients ?srv f1 = Some t1" "clients ?srv f2 = Some t2" "streamer t1 = Some r" "streamer t2 = Some r"
    with uniq assms(1,4) show "f1 = f2" by (auto simp: server_ok_def split: if_splits)
  qed
qed

section \<open>Every step keeps it\<close>

lemma server_ok_cong: "clients a = clients b \<Longrightarrow> plant a = plant b \<Longrightarrow> server_ok a \<Longrightarrow> server_ok b"
  by (simp add: server_ok_def streaming_def)

lemma streaming_insert:
  assumes "clients srv fd = None" and "streamer c = None"
  shows "streaming (srv\<lparr>clients := (clients srv)(fd \<mapsto> c)\<rparr>) = streaming srv"
proof (intro set_eqI iffI)
  fix r assume "r \<in> streaming (srv\<lparr>clients := (clients srv)(fd \<mapsto> c)\<rparr>)"
  with assms(2) show "r \<in> streaming srv" by (auto simp: streaming_def split: if_splits)
next
  fix r assume "r \<in> streaming srv"
  then obtain f t where "clients srv f = Some t" "streamer t = Some r" by (auto simp: streaming_def)
  moreover from this have "f \<noteq> fd" using assms(1) by auto
  ultimately have "clients (srv\<lparr>clients := (clients srv)(fd \<mapsto> c)\<rparr>) f = Some t" by simp
  with \<open>streamer t = Some r\<close> show "r \<in> streaming (srv\<lparr>clients := (clients srv)(fd \<mapsto> c)\<rparr>)"
    unfolding streaming_def by blast
qed

lemma session_ok_kept: "kept m m' \<Longrightarrow> session_ok s m' = session_ok s m"
proof -
  assume k: "kept m m'"
  then have "peer_of m' r = peer_of m r" for r by (intro peer_of_cong) (simp add: kept_def)
  with k show ?thesis by (simp add: session_ok_def kept_def)
qed

lemma feed_loop_open:
  assumes "feed_loop iter s m = (out, res, s', m')"
  shows "res = Inr True \<longrightarrow> state s \<noteq> CLOSED \<longrightarrow> state s' \<noteq> CLOSED"
  using assms by (induction rule: feed_loop_rule) auto

lemma feed_open:
  "feed iter data s m = (out, Inr True, s', m') \<Longrightarrow> state s \<noteq> CLOSED \<Longrightarrow> state s' \<noteq> CLOSED"
  using feed_loop_open [of iter "s\<lparr>rx_buffer := rx_buffer s @ data\<rparr>" m out "Inr True" s' m']
  by (auto simp: feed_def Let_def split: if_splits)

lemma Client_delete_idle: "streamer s = None \<Longrightarrow> Client_delete fd s srv = srv\<lparr>closed := closed srv @ close_fd fd\<rparr>"
  by (simp add: Client_delete_def stop_streaming_def)

lemma drop_client_eq:
  assumes "clients srv fd = Some s" and "on_disconnect s (plant srv) = (s', m')"
  shows "drop_client fd srv = srv\<lparr>interest := interest srv - {fd}, clients := (clients srv)(fd := None),
     plant := m', closed := closed srv @ close_fd fd\<rparr>"
proof -
  have "streamer s' = None"
    using assms(2) stop_streaming_fields(6) [of s "plant srv"]
    by (auto simp: on_disconnect_def Let_def split: prod.splits)
  then show ?thesis using assms by (simp add: drop_client_def Let_def Client_delete_idle)
qed

lemma drop_client_ok:
  assumes "server_ok srv"
  shows "server_ok (drop_client fd srv)"
proof (cases "clients srv fd")
  case None
  then have "clients (drop_client fd srv) = clients srv" "plant (drop_client fd srv) = plant srv"
    by (simp_all add: drop_client_def Let_def)
  with assms server_ok_cong show ?thesis by metis
next
  case (Some s)
  obtain s' m' where d: "on_disconnect s (plant srv) = (s', m')" by fastforce
  have ok: "hub_ok (plant srv)" "session_ok s (plant srv)" using assms Some by (simp_all add: server_ok_def)
  from on_disconnect_keeps [OF ok d] server_ok_step [OF assms Some, of s' m' None]
  have "server_ok (srv\<lparr>clients := (clients srv)(fd := None), plant := m'\<rparr>)" by blast
  then show ?thesis
    unfolding drop_client_eq [OF Some d] by (rule server_ok_cong [rotated 2]) simp_all
qed

lemma Client_new_fields [simp]:
  "streamer (Client_new fd a) = None" "state (Client_new fd a) = INIT" "has_hub (Client_new fd a)"
  "session_ok (Client_new fd a) m"
  by (simp_all add: Client_new_def Session_new_def session_ok_def owned_def)

lemma accept_client_cases:
  "clients (accept_client ev srv) = clients srv \<and> plant (accept_client ev srv) = plant srv \<or>
   clients srv (accept_one (ev_accept ev)) = None \<and> plant (accept_client ev srv) = plant srv \<and>
   clients (accept_client ev srv) =
     (clients srv)(accept_one (ev_accept ev) \<mapsto> Client_new (accept_one (ev_accept ev)) (ev_peername ev))"
  by (simp add: accept_client_def Let_def Client_delete_idle)

lemma accept_client_ok:
  assumes "server_ok srv"
  shows "server_ok (accept_client ev srv)"
  using accept_client_cases [of ev srv]
proof
  assume "clients (accept_client ev srv) = clients srv \<and> plant (accept_client ev srv) = plant srv"
  with assms server_ok_cong [of srv "accept_client ev srv"] show ?thesis by simp
next
  let ?fd = "accept_one (ev_accept ev)"
  let ?c = "Client_new ?fd (ev_peername ev)"
  assume new: "clients srv ?fd = None \<and> plant (accept_client ev srv) = plant srv \<and>
    clients (accept_client ev srv) = (clients srv)(?fd \<mapsto> ?c)"
  then have "streaming (srv\<lparr>clients := (clients srv)(?fd \<mapsto> ?c)\<rparr>) = streaming srv"
    using streaming_insert [of srv ?fd ?c] by simp
  then have "server_ok (srv\<lparr>clients := (clients srv)(?fd \<mapsto> ?c)\<rparr>)"
    using assms by (simp add: server_ok_def)
  with new server_ok_cong [of "srv\<lparr>clients := (clients srv)(?fd \<mapsto> ?c)\<rparr>" "accept_client ev srv"] show ?thesis
    by simp
qed

text \<open>The ways an event of a client can go that leave the loop running.\<close>

lemma handle_event_cases [consumes 3, case_names drop fed ended]:
  assumes "handle_event iter ev srv = Inr srv'" and "ev_fd ev \<noteq> listener_fd srv"
    and "clients srv (ev_fd ev) = Some s"
  obtains "srv' = drop_client (ev_fd ev) srv"
  | buffer out s' m' taken where "feed iter buffer s (plant srv) = (out, Inr True, s', m')"
      "write_responses out (ev_writes ev) = Inr taken"
      "srv' = srv\<lparr>clients := (clients srv)(ev_fd ev \<mapsto> s'), plant := m',
               sent_to := sent_to srv @ map (Pair (ev_fd ev)) taken\<rparr>"
  | buffer out s' m' taken where "feed iter buffer s (plant srv) = (out, Inr False, s', m')"
      "write_responses out (ev_writes ev) = Inr taken"
      "srv' = drop_client (ev_fd ev) (srv\<lparr>clients := (clients srv)(ev_fd ev \<mapsto> s'), plant := m',
               sent_to := sent_to srv @ map (Pair (ev_fd ev)) taken\<rparr>)"
proof (cases "ev_hangup ev")
  case True
  with assms show ?thesis by (intro that(1)) (simp add: handle_event_def)
next
  case up: False
  show ?thesis
  proof (cases "tcp_read (ev_read ev)")
    case (Returned p)
    obtain r buffer where p: "p = (r, buffer)" by fastforce
    show ?thesis
    proof (cases "r \<le> 0")
      case True
      with assms up Returned p show ?thesis by (intro that(1)) (simp add: handle_event_def)
    next
      case False
      obtain out res s' m' where f: "feed iter buffer s (plant srv) = (out, res, s', m')" by (metis prod_cases4)
      obtain taken where t: "write_responses out (ev_writes ev) = Inr taken"
        using assms up Returned p False f by (auto simp: handle_event_def Let_def split: sum.splits)
      from assms up Returned p False f t show ?thesis
        by (cases res) (auto simp: handle_event_def Let_def split: bool.splits intro: that(2) that(3))
    qed
  qed (use assms up in \<open>simp_all add: handle_event_def\<close>)
qed

lemma handle_event_ok:
  assumes "server_ok srv" and "handle_event iter ev srv = Inr srv'"
  shows "server_ok srv'"
proof (cases "ev_fd ev = listener_fd srv")
  case True
  with assms accept_client_ok show ?thesis by (auto simp: handle_event_def)
next
  case False
  show ?thesis
  proof (cases "clients srv (ev_fd ev)")
    case None
    with False assms show ?thesis by (simp add: handle_event_def)
  next
    case (Some s)
    let ?fd = "ev_fd ev"
    have ok: "hub_ok (plant srv)" "session_ok s (plant srv)" "state s \<noteq> CLOSED"
      using assms(1) Some by (simp_all add: server_ok_def)
    from assms(2) False Some show ?thesis
    proof (cases rule: handle_event_cases)
      case drop
      with assms(1) drop_client_ok show ?thesis by simp
    next
      case (fed buffer out s' m' taken)
      from feed_keeps [OF fed(1) ok(1,2)] have k: "streams_step s (plant srv) s' m'" "session_ok s' m'" by blast+
      have "state s' \<noteq> CLOSED" using feed_open fed(1) ok(3) by blast
      with server_ok_step [OF assms(1) Some k(1), of "Some s'"] k(2)
      have "server_ok (srv\<lparr>clients := (clients srv)(?fd \<mapsto> s'), plant := m'\<rparr>)" by blast
      then show ?thesis unfolding fed(3) by (rule server_ok_cong [rotated 2]) simp_all
    next
      case (ended buffer out s' m' taken)
      let ?srv = "srv\<lparr>clients := (clients srv)(?fd \<mapsto> s'), plant := m', sent_to := sent_to srv @ map (Pair ?fd) taken\<rparr>"
      from feed_keeps [OF ended(1) ok(1,2)] have k: "streams_step s (plant srv) s' m'" "session_ok s' m'" by blast+
      obtain s2 m2 where d: "on_disconnect s' m' = (s2, m2)" by fastforce
      have "hub_ok m'" using k(1) by (simp add: streams_step_def)
      from on_disconnect_keeps [OF this k(2) d] streams_step_trans [OF ok(1) k(1)]
      have "streams_step s (plant srv) s2 m2" "streamer s2 = None" by blast+
      with server_ok_step [OF assms(1) Some, of s2 m2 None]
      have "server_ok (srv\<lparr>clients := (clients srv)(?fd := None), plant := m2\<rparr>)" by blast
      then show ?thesis
        unfolding ended(3) drop_client_eq [of ?srv ?fd s' s2 m2, simplified, OF d]
        by (rule server_ok_cong [rotated 2]) simp_all
    qed
  qed
qed

lemma pump_server_ok: "server_ok srv \<Longrightarrow> server_ok (srv\<lparr>plant := pump_step (plant srv)\<rparr>)"
  using pump_step_ok [of "plant srv"] pump_step_kept [of "plant srv"]
    session_ok_kept [OF pump_step_kept, of _ "plant srv"]
  by (simp add: server_ok_def streaming_def kept_def)

interpretation consistent: server_invariant iter server_ok for iter
  by unfold_locales (auto intro: handle_event_ok pump_server_ok)

lemmas reaches_ok = consistent.reaches_keeps

section \<open>Properties\<close>

lemma running_audience:
  assumes "server_ok srv"
  shows "set (hub_subscribers (hub (plant srv))) =
      {r. \<exists>fd s. clients srv fd = Some s \<and> state s = PLAYING \<and> streamer s = Some r}"
proof -
  have "clients srv fd = Some s \<Longrightarrow> streamer s = Some r \<Longrightarrow> state s = PLAYING" for fd s r
    using assms by (simp add: server_ok_def session_ok_def)
  moreover have "set (hub_subscribers (hub (plant srv))) = streaming srv" using assms by (simp add: server_ok_def)
  ultimately show ?thesis unfolding streaming_def by blast
qed

text \<open>
  C2: there are no zombie streams.  In every state of a running server, whatever the events and
  however the pump is scheduled between them, the hub's list and the streamers that exist are
  exactly those of the clients that are playing, each client's its own and listed once; the source
  is open exactly while the pump runs, and it runs only while some client is playing.
\<close>

theorem no_zombie_streams:
  assumes "reaches iter (server_new fd epoll path w) srv"
  shows "set (hub_subscribers (hub (plant srv))) =
      {r. \<exists>fd s. clients srv fd = Some s \<and> state s = PLAYING \<and> streamer s = Some r} \<and>
    dom (heap (plant srv)) = set (hub_subscribers (hub (plant srv))) \<and>
    distinct (hub_subscribers (hub (plant srv))) \<and>
    (hub_running (hub (plant srv)) \<longleftrightarrow> source_is_open (hub (plant srv))) \<and>
    (hub_running (hub (plant srv)) \<longrightarrow> (\<exists>fd s. clients srv fd = Some s \<and> state s = PLAYING))"
proof -
  have ok: "server_ok srv" by (rule reaches_ok [OF assms server_new_ok])
  then have hub: "hub_ok (plant srv)" "dom (heap (plant srv)) = set (hub_subscribers (hub (plant srv)))"
    by (simp_all add: server_ok_def)
  note aud = running_audience [OF ok]
  have "hub_running (hub (plant srv)) \<Longrightarrow> \<exists>fd s. clients srv fd = Some s \<and> state s = PLAYING"
  proof -
    assume "hub_running (hub (plant srv))"
    then have "hub_subscribers (hub (plant srv)) \<noteq> []" using hub(1) by (simp add: hub_ok_def)
    then have "set (hub_subscribers (hub (plant srv))) \<noteq> {}" by simp
    then show ?thesis unfolding aud by blast
  qed
  with aud hub show ?thesis by (simp add: hub_ok_def)
qed

lemma no_zombie_streams_witness:
  "dom (heap (plant (server_new 3 4 ''a.h264'' sample_os))) = {} \<and>
   distinct (hub_subscribers (hub (plant (server_new 3 4 ''a.h264'' sample_os))))"
  using no_zombie_streams [OF reaches.here, of 3 4 "''a.h264''" sample_os]
  by (simp add: server_new_def)

lemma Client_delete_ok:
  assumes "server_ok srv" and "clients srv fd = Some s"
  shows "server_ok (Client_delete fd s (srv\<lparr>clients := (clients srv)(fd := None)\<rparr>))"
proof -
  obtain s' m' where st: "stop_streaming s (plant srv) = (s', m')" by fastforce
  have "hub_ok (plant srv)" "session_ok s (plant srv)" using assms by (simp_all add: server_ok_def)
  then have ok: "hub_ok (plant srv)" "owned s \<subseteq> set (hub_subscribers (hub (plant srv)))"
    "streamer s \<noteq> None \<longrightarrow> has_hub s" by (simp_all add: session_ok_def)
  from stop_streaming_step [OF ok st] server_ok_step [OF assms, of s' m' None]
  have "server_ok (srv\<lparr>clients := (clients srv)(fd := None), plant := m'\<rparr>)" by blast
  then show ?thesis by (rule server_ok_cong [rotated 2]) (simp_all add: Client_delete_def st)
qed

lemma Client_delete_frame [simp]:
  "clients (Client_delete fd s srv) = clients srv" "sent_to (Client_delete fd s srv) = sent_to srv"
  "opened (Client_delete fd s srv) = opened srv" "closed (Client_delete fd s srv) = closed srv @ close_fd fd"
  "listener_fd (Client_delete fd s srv) = listener_fd srv" "epoll_fd (Client_delete fd s srv) = epoll_fd srv"
  "interest (Client_delete fd s srv) = interest srv"
  by (simp_all add: Client_delete_def split: prod.split)

lemma clear_clients_ok:
  "server_ok srv \<Longrightarrow> server_ok (clear_clients fds srv) \<and>
     dom (clients (clear_clients fds srv)) = dom (clients srv) - set fds"
proof (induction fds arbitrary: srv)
  case Nil
  then show ?case by simp
next
  case (Cons fd fds)
  then show ?case using Client_delete_ok by (cases "clients srv fd") (auto split: if_splits)
qed

lemma handle_batch_reaches:
  "handle_batch iter evs srv = Inr srv' \<Longrightarrow> reaches iter a srv \<Longrightarrow> reaches iter a srv'"
  by (induction evs arbitrary: srv) (auto split: sum.splits intro: reaches.event)

lemma run_loop_reaches:
  "run_loop iter ts srv = Inr (Returned srv') \<Longrightarrow> reaches iter a srv \<Longrightarrow> reaches iter a srv'"
proof (induction iter ts srv rule: run_loop.induct)
  case (5 iter evs ts srv)
  then show ?case using handle_batch_reaches by (auto split: sum.splits)
qed (auto intro: reaches.pump)

lemma drop_client_frame [simp]:
  "clients (drop_client fd srv) = (clients srv)(fd := None)" "sent_to (drop_client fd srv) = sent_to srv"
  "opened (drop_client fd srv) = opened srv" "listener_fd (drop_client fd srv) = listener_fd srv"
  "epoll_fd (drop_client fd srv) = epoll_fd srv"
  "closed (drop_client fd srv) = closed srv @ (if clients srv fd = None then [] else close_fd fd)"
  by (auto simp: drop_client_def Let_def split: option.split prod.split)

lemma handle_event_finite:
  assumes "handle_event iter ev srv = Inr srv'" and "finite (dom (clients srv))"
  shows "finite (dom (clients srv'))"
proof (cases "ev_fd ev = listener_fd srv")
  case True
  with assms accept_client_cases [of ev srv] show ?thesis by (auto simp: handle_event_def)
next
  case False
  show ?thesis
  proof (cases "clients srv (ev_fd ev)")
    case None
    with False assms show ?thesis by (simp add: handle_event_def)
  next
    case (Some s)
    from assms(1) False Some show ?thesis
      by (cases rule: handle_event_cases) (use assms(2) in simp_all)
  qed
qed

interpretation finite_table: server_invariant iter "\<lambda>srv. finite (dom (clients srv))" for iter
  by unfold_locales (auto intro: handle_event_finite)

lemma shutdown_ok:
  assumes "server_ok srv" and "dom (clients srv) \<subseteq> set fds"
  shows "dom (clients (shutdown fds srv)) = {}" "dom (heap (plant (shutdown fds srv))) = {}"
    "hub_subscribers (hub (plant (shutdown fds srv))) = []"
    "\<not> hub_running (hub (plant (shutdown fds srv)))" "\<not> source_is_open (hub (plant (shutdown fds srv)))"
proof -
  let ?c = "clear_clients fds srv"
  from clear_clients_ok [OF assms(1)] assms(2) have ok: "server_ok ?c" "dom (clients ?c) = {}" by auto
  then have "streaming ?c = {}" by (simp add: streaming_def)
  with ok(1) have empty: "hub_subscribers (hub (plant ?c)) = []" "dom (heap (plant ?c)) = {}"
    by (simp_all add: server_ok_def)
  then have stopped: "\<not> hub_running (hub (plant ?c))" "\<not> source_is_open (hub (plant ?c))"
    using ok(1) by (auto simp: server_ok_def hub_ok_def)
  have "hub_source (hub (hub_delete (plant ?c))) = hub_source (hub (plant ?c))"
    "hub_subscribers (hub (hub_delete (plant ?c))) = hub_subscribers (hub (plant ?c))"
    "heap (hub_delete (plant ?c)) = heap (plant ?c)" "\<not> hub_running (hub (hub_delete (plant ?c)))"
    using stopped(1) by (simp_all add: hub_delete_def Let_def)
  with ok(2) empty stopped(2)
  show "dom (clients (shutdown fds srv)) = {}" "dom (heap (plant (shutdown fds srv))) = {}"
    "hub_subscribers (hub (plant (shutdown fds srv))) = []"
    "\<not> hub_running (hub (plant (shutdown fds srv)))" "\<not> source_is_open (hub (plant (shutdown fds srv)))"
    by (simp_all add: shutdown_def Let_def source_is_open_def)
qed

section \<open>Descriptors\<close>

text \<open>
  Every descriptor the program was given is closed, or is the listener's, the epoll instance's or that
  of one client, counted with multiplicity: the kernel hands out a number again once it is closed.
\<close>

definition fds_ok :: "server \<Rightarrow> bool" where
  "fds_ok srv \<longleftrightarrow>
     finite (dom (clients srv)) \<and> (\<forall>fd \<in> dom (clients srv). 0 \<le> fd) \<and> 0 \<le> listener_fd srv \<and>
     mset (opened srv) = mset (closed srv) + {#listener_fd srv, epoll_fd srv#} + mset_set (dom (clients srv))"

lemma server_new_fds: "0 \<le> fd \<Longrightarrow> fds_ok (server_new fd epoll path w)"
  by (simp add: fds_ok_def server_new_def)

lemma close_fd_mset: "0 \<le> fd \<Longrightarrow> mset (close_fd fd) = {#fd#}"
  by (simp add: close_fd_def)

lemma fds_drop:
  assumes "fds_ok srv" and "clients srv fd = Some s" and "dom (clients srv') = dom (clients srv) - {fd}"
    and "opened srv' = opened srv" and "closed srv' = closed srv @ close_fd fd"
    and "listener_fd srv' = listener_fd srv" and "epoll_fd srv' = epoll_fd srv"
  shows "fds_ok srv'"
proof -
  have "fd \<in> dom (clients srv)" using assms(2) by blast
  then have "mset_set (dom (clients srv)) = {#fd#} + mset_set (dom (clients srv) - {fd})" "0 \<le> fd"
    using assms(1) mset_set.remove [of "dom (clients srv)" fd] by (simp_all add: fds_ok_def)
  then show ?thesis using assms by (simp add: fds_ok_def close_fd_mset)
qed

lemma fds_same:
  assumes "fds_ok srv" and "dom (clients srv') = dom (clients srv)" and "opened srv' = opened srv"
    and "closed srv' = closed srv" and "listener_fd srv' = listener_fd srv" and "epoll_fd srv' = epoll_fd srv"
  shows "fds_ok srv'"
  using assms by (simp add: fds_ok_def)

lemma drop_client_fds:
  assumes "fds_ok srv"
  shows "fds_ok (drop_client fd srv)"
proof (cases "clients srv fd")
  case None
  then have "clients srv = (clients srv)(fd := None)" by auto
  then show ?thesis using None by (intro fds_same [OF assms]) simp_all
next
  case (Some s)
  show ?thesis by (rule fds_drop [OF assms Some]) (use Some in auto)
qed

lemma accept_client_fds:
  assumes "fds_ok srv"
  shows "fds_ok (accept_client ev srv)"
proof (cases "0 \<le> ev_accept ev")
  case True
  let ?fd = "ev_accept ev"
  have fd: "accept_one ?fd = ?fd" using True by (simp add: accept_one_def)
  show ?thesis
  proof (cases "ev_epoll_add ev \<and> clients srv ?fd = None")
    case True
    then have "?fd \<notin> dom (clients srv)" by auto
    then show ?thesis using assms True \<open>0 \<le> ?fd\<close>
      by (simp add: accept_client_def Let_def fd fds_ok_def)
  next
    case False
    then show ?thesis using assms \<open>0 \<le> ?fd\<close>
      by (auto simp: accept_client_def Let_def fd fds_ok_def close_fd_mset)
  qed
qed (use assms in \<open>simp add: accept_client_def accept_one_def\<close>)

lemma handle_event_fds:
  assumes "handle_event iter ev srv = Inr srv'" and "fds_ok srv"
  shows "fds_ok srv'"
proof (cases "ev_fd ev = listener_fd srv")
  case True
  with assms accept_client_fds show ?thesis by (auto simp: handle_event_def)
next
  case False
  show ?thesis
  proof (cases "clients srv (ev_fd ev)")
    case None
    with False assms show ?thesis by (simp add: handle_event_def)
  next
    case (Some s)
    from assms(1) False Some show ?thesis
    proof (cases rule: handle_event_cases)
      case drop
      with assms(2) drop_client_fds show ?thesis by simp
    next
      case (fed buffer out s' m' taken)
      show ?thesis unfolding fed(3) using Some by (intro fds_same [OF assms(2)]) auto
    next
      case (ended buffer out s' m' taken)
      show ?thesis unfolding ended(3)
        using Some by (intro drop_client_fds fds_same [OF assms(2)]) auto
    qed
  qed
qed

text \<open>The loop goes on with the descriptors it was started with.\<close>

interpretation loop_descriptors: server_invariant iter "\<lambda>srv. listener_fd srv = l \<and> epoll_fd srv = e" for iter l e
proof unfold_locales
  fix ev srv srv'
  assume "handle_event iter ev srv = Inr srv'" "listener_fd srv = l \<and> epoll_fd srv = e"
  then show "listener_fd srv' = l \<and> epoll_fd srv' = e"
    by (auto simp: handle_event_def accept_client_def Let_def split: if_splits option.splits call.splits
        prod.splits sum.splits bool.splits)
qed simp

interpretation descriptors: server_invariant iter fds_ok for iter
  by unfold_locales (auto intro: handle_event_fds fds_same)

lemmas reaches_fds = descriptors.reaches_keeps

lemma clear_clients_fds: "fds_ok srv \<Longrightarrow> fds_ok (clear_clients fds srv)"
proof (induction fds arbitrary: srv)
  case (Cons fd fds)
  show ?case
  proof (cases "clients srv fd")
    case (Some s)
    have "fds_ok (Client_delete fd s (srv\<lparr>clients := (clients srv)(fd := None)\<rparr>))"
      by (rule fds_drop [OF Cons.prems Some]) auto
    with Cons.IH Some show ?thesis by simp
  qed (use Cons in simp)
qed simp

text \<open>
  C22: no descriptor is leaked or closed twice.  In every state of a running server the descriptors
  the kernel has handed out are those that have been closed, each once, the listener's, the epoll
  instance's, and exactly one for each connected client.
\<close>

theorem descriptors_owned:
  assumes "run_start sock a b c epoll d path w = Inr srv0" and "reaches iter srv0 srv"
  shows "mset (opened srv) = mset (closed srv) + {#sock, epoll#} + mset_set (dom (clients srv))"
proof -
  from assms(1) have srv0: "srv0 = server_new sock epoll path w" "0 \<le> sock"
    by (auto simp: run_start_def TcpListener_new_def Let_def split: if_splits)
  have "fds_ok srv" using reaches_fds [OF assms(2)] srv0 server_new_fds by blast
  moreover have "listener_fd srv = sock \<and> epoll_fd srv = epoll"
    by (rule loop_descriptors.reaches_keeps [OF assms(2)]) (simp add: srv0(1) server_new_def)
  ultimately show ?thesis by (simp add: fds_ok_def)
qed

lemma descriptors_owned_witness:
  "let srv = accept_client \<lparr>ev_fd = 3, ev_hangup = False, ev_accept = 7, ev_peername = Some ''10.0.0.2'',
       ev_epoll_add = False, ev_read = [], ev_writes = []\<rparr> (server_new 3 4 ''camera'' sample_os)
   in mset (opened srv) = mset (closed srv) + {#3, 4#} \<and> closed srv = [7]"
proof -
  let ?ev = "\<lparr>ev_fd = 3, ev_hangup = False, ev_accept = 7, ev_peername = Some ''10.0.0.2'',
       ev_epoll_add = False, ev_read = [], ev_writes = []\<rparr>"
  let ?srv = "server_new 3 4 ''camera'' sample_os"
  have s: "run_start 3 True True True 4 True ''camera'' sample_os = Inr ?srv"
    by (simp add: run_start_def TcpListener_new_def)
  have "handle_event id ?ev ?srv = Inr (accept_client ?ev ?srv)" by (simp add: handle_event_def server_new_def)
  from descriptors_owned [OF s reaches.event [OF reaches.here this]]
  show ?thesis by (simp add: Let_def accept_client_def accept_one_def server_new_def close_fd_def)
qed

text \<open>
  C21: an orderly end.  When the loop of a server that started is left, after any events, the exit
  code is 0 and the cleanup, in whatever order the client map is in, drops every client, deletes
  every streamer, stops the pump, closes the source and closes every descriptor exactly once.
\<close>

theorem run_releases_everything:
  assumes "run_start sock a b c epoll d path w = Inr srv"
    and "run_finish order iter ts srv = Inr (Returned (code, final))"
    and "\<And>x. finite (dom (clients x)) \<Longrightarrow> set (order x) = dom (clients x)"
  shows "code = 0 \<and> dom (clients final) = {} \<and> dom (heap (plant final)) = {} \<and>
    hub_subscribers (hub (plant final)) = [] \<and>
    \<not> hub_running (hub (plant final)) \<and> \<not> source_is_open (hub (plant final)) \<and>
    mset (closed final) = mset (opened final)"
proof -
  from assms(1) obtain fd where srv: "srv = server_new fd epoll path w" "0 \<le> fd"
    by (auto simp: run_start_def Let_def split: prod.splits if_splits)
  from assms(2) obtain last where l: "run_loop iter ts srv = Inr (Returned last)"
    "code = 0" "final = shutdown (order last) last"
    by (auto simp: run_finish_def split: sum.splits call.splits)
  have r: "reaches iter (server_new fd epoll path w) last"
    using run_loop_reaches [OF l(1) reaches.here] srv by simp
  have "finite (dom (clients last))" by (rule finite_table.reaches_keeps [OF r]) (simp add: server_new_def)
  with assms(3) have sub: "dom (clients last) \<subseteq> set (order last)" by simp
  note ok = reaches_ok [OF r server_new_ok]
  have "fds_ok (clear_clients (order last) last)"
    by (rule clear_clients_fds [OF reaches_fds [OF r server_new_fds [OF srv(2)]]])
  moreover have "dom (clients (clear_clients (order last) last)) = {}"
    using clear_clients_ok [OF ok] sub by auto
  ultimately have "mset (closed final) = mset (opened final)"
    unfolding l(3) by (simp add: shutdown_def Let_def fds_ok_def close_fd_mset)
  with shutdown_ok [OF ok sub] l(2,3) show ?thesis by simp
qed

lemma run_releases_everything_witness:
  "\<exists>final. run_finish (\<lambda>x. sorted_list_of_set (dom (clients x))) id [Wait_interrupted, Stop_requested]
       (server_new 3 4 ''camera'' sample_os) = Inr (Returned (0, final)) \<and> dom (clients final) = {} \<and>
     hub_subscribers (hub (plant final)) = []"
proof -
  let ?order = "\<lambda>x :: server. sorted_list_of_set (dom (clients x))"
  have s: "run_start 3 True True True 4 True ''camera'' sample_os = Inr (server_new 3 4 ''camera'' sample_os)"
    by (simp add: run_start_def TcpListener_new_def)
  obtain final where f: "run_finish ?order id [Wait_interrupted, Stop_requested] (server_new 3 4 ''camera'' sample_os)
      = Inr (Returned (0, final))"
    by (simp add: run_finish_def)
  from run_releases_everything [OF s f] f show ?thesis by simp
qed

text \<open>
  an event of one client concerns no other: the sessions of the others stay what they are and
  only the client itself is answered.
\<close>

theorem client_isolation:
  assumes "handle_event iter ev srv = Inr srv'" and "ev_fd ev \<noteq> fd" and "clients srv fd = Some s"
  shows "clients srv' fd = Some s \<and> (\<exists>rs. sent_to srv' = sent_to srv @ map (Pair (ev_fd ev)) rs)"
proof (cases "ev_fd ev = listener_fd srv")
  case True
  with assms show ?thesis by (auto simp: handle_event_def accept_client_def Let_def)
next
  case False
  show ?thesis
    using assms False
    by (auto simp: handle_event_def Let_def split: option.splits if_splits call.splits prod.splits
        sum.splits bool.splits)
qed

lemma client_isolation_witness:
  "let srv = (server_new 3 4 ''camera'' sample_os)\<lparr>clients := [7 \<mapsto> sample_session]\<rparr>;
       ev = \<lparr>ev_fd = 5, ev_hangup = True, ev_accept = -1, ev_peername = None, ev_epoll_add = True, ev_read = [], ev_writes = []\<rparr>
   in handle_event id ev srv = Inr srv \<and> clients srv 7 = Some sample_session"
proof -
  let ?srv = "(server_new 3 4 ''camera'' sample_os)\<lparr>clients := [7 \<mapsto> sample_session]\<rparr>"
  let ?ev = "\<lparr>ev_fd = 5, ev_hangup = True, ev_accept = -1, ev_peername = None, ev_epoll_add = True, ev_read = [], ev_writes = []\<rparr>"
  have h: "handle_event id ?ev ?srv = Inr ?srv" by (simp add: handle_event_def server_new_def)
  from client_isolation [OF h, of 7 sample_session] h show ?thesis by (simp add: Let_def)
qed

text \<open>Every response is taken whole when the kernel accepts as many bytes as it has.\<close>

definition takes_all :: "string \<Rightarrow> sys_write list \<Rightarrow> bool" where
  "takes_all response w \<longleftrightarrow> WriteError \<notin> set w \<and> BrokenPipe \<notin> set w \<and> length response \<le> accepted w"

lemma write_responses_complete:
  "list_all2 takes_all out ws \<Longrightarrow> write_responses out ws = Inr out"
  by (induction rule: list_all2_induct) (simp_all add: takes_all_def tcp_write_def tcp_write_loop_complete)

text \<open>
  what a session answers reaches its client.  When bytes arrive from a client and the kernel
  accepts the responses, the connection gets exactly the strings that \<open>Session::feed\<close> gave to its
  send function, whole and in order; the session and the hub are as \<open>feed\<close> left them while it wants to
  go on, and the client is gone when it does not.
\<close>

theorem event_answers_client:
  assumes "clients srv (ev_fd ev) = Some s" and "ev_fd ev \<noteq> listener_fd srv" and "\<not> ev_hangup ev"
    and "ev_read ev = [Got buffer]" and "buffer \<noteq> []"
    and "feed iter buffer s (plant srv) = (out, Inr alive, s', m')"
    and "list_all2 takes_all out (ev_writes ev)"
  shows "\<exists>srv'. handle_event iter ev srv = Inr srv' \<and>
     sent_to srv' = sent_to srv @ map (Pair (ev_fd ev)) out \<and>
     (alive \<longrightarrow> clients srv' (ev_fd ev) = Some s' \<and> plant srv' = m') \<and>
     (\<not> alive \<longrightarrow> clients srv' (ev_fd ev) = None)"
  using assms write_responses_complete [OF assms(7)]
  by (cases alive) (simp_all add: handle_event_def Let_def)

lemma event_answers_client_witness:
  "let srv = (server_new 3 4 ''camera'' sample_os)\<lparr>clients := [7 \<mapsto> sample_session]\<rparr>;
       ev = \<lparr>ev_fd = 7, ev_hangup = False, ev_accept = -1, ev_peername = None, ev_epoll_add = True,
              ev_read = [Got (crlf @ crlf)],
              ev_writes = [[Wrote 10, WriteEINTR, Wrote 100]]\<rparr>
   in \<exists>srv'. handle_event id ev srv = Inr srv' \<and> sent_to srv' = [(7, response_error 0 400 ''Bad Request'')]"
proof -
  let ?srv = "(server_new 3 4 ''camera'' sample_os)\<lparr>clients := [7 \<mapsto> sample_session]\<rparr>"
  have "length (response_error 0 400 ''Bad Request'') \<le> 110" by code_simp
  then have "list_all2 takes_all [response_error 0 400 ''Bad Request''] [[Wrote 10, WriteEINTR, Wrote 100]]"
    by (simp add: takes_all_def)
  then show ?thesis
    unfolding Let_def
    using event_answers_client [of ?srv "\<lparr>ev_fd = 7, ev_hangup = False, ev_accept = -1, ev_peername = None,
        ev_epoll_add = True, ev_read = [Got (crlf @ crlf)], ev_writes = [[Wrote 10, WriteEINTR, Wrote 100]]\<rparr>"
        sample_session "crlf @ crlf" id, OF _ _ _ _ _ feed_blank]
    by (fastforce simp: server_new_def crlf_def)
qed

text \<open>
  C28: one client can stop the server for all of them.  After any complete request, when the client
  no longer takes what is written to it (the kernel does not come back from the \<open>write\<close>, an empty list
  of results) the event loop is stuck, and when it has closed its connection the process dies of
  \<open>SIGPIPE\<close>; none of the events after it is handled.
\<close>

theorem one_client_stops_server:
  assumes "clients srv (ev_fd ev) = Some s" and "ev_fd ev \<noteq> listener_fd srv" and "\<not> ev_hangup ev"
    and "ev_read ev = [Got (render_request m u v hs)]" and "rx_buffer s = []" and "state s \<noteq> CLOSED"
    and "wf_request_line m u v" and "list_all wf_header hs" and "distinct (map fst hs)"
    and "iterates iter" and "only_value hs ''CSeq'' (show_int n)" and "int32 n"
    and "length (render_request m u v hs) \<le> 4096"
    and "ev_writes ev = [if gone then [BrokenPipe] else []]"
  shows "handle_batch iter (ev # evs) srv = Inl (if gone then Died else Stuck)"
proof -
  obtain out res s' m' where f: "feed iter (render_request m u v hs) s (plant srv) = (out, res, s', m')"
    by (metis prod_cases4)
  have "length (render_request m u v hs) \<le> 65536" using assms(13) by simp
  from feed_request [OF assms(7-12) this assms(5,6) f] have "\<exists>code. answers out code n" by blast
  then obtain x where out: "out = [x]" "x \<noteq> []" unfolding answers_def by (metis render_reply_nonempty)
  have "write_responses out (ev_writes ev) = Inl (if gone then Died else Stuck)"
    using out assms(14) by (simp add: tcp_write_def tcp_write_loop.simps)
  moreover have "render_request m u v hs \<noteq> []" by (simp add: render_request_def)
  ultimately show ?thesis using assms(1-4) f by (simp add: handle_event_def Let_def)
qed

lemma one_client_stops_server_witness:
  "let srv = (server_new 3 4 ''camera'' sample_os)\<lparr>clients := [7 \<mapsto> sample_session]\<rparr>;
       ev = \<lparr>ev_fd = 7, ev_hangup = False, ev_accept = -1, ev_peername = None, ev_epoll_add = True,
              ev_read = [Got (render_request ''OPTIONS'' ''*'' ''RTSP/1.0'' [(''CSeq'', show_int 2)])],
              ev_writes = [[BrokenPipe]]\<rparr>
   in handle_batch id [ev] srv = Inl Died"
proof -
  have n: "show_int 2 = ''2''" by code_simp
  have 1: "wf_request_line ''OPTIONS'' ''*'' ''RTSP/1.0''" by code_simp
  have 2: "list_all wf_header [(''CSeq'', show_int 2)]" unfolding n by code_simp
  have 3: "iterates id" by (simp add: iterates_def)
  have 4: "only_value [(''CSeq'', show_int 2)] ''CSeq'' (show_int 2)"
    by (simp add: only_value_def iequals_iff)
  have 5: "int32 2" by (simp add: int32_def)
  have 6: "length (render_request ''OPTIONS'' ''*'' ''RTSP/1.0'' [(''CSeq'', show_int 2)]) \<le> 4096"
    by (simp add: render_request_def render_headers_def crlf_def n)
  have 7: "rx_buffer sample_session = []" "state sample_session \<noteq> CLOSED"
    by (simp_all add: sample_session_def Session_new_def)
  have "handle_batch id [\<lparr>ev_fd = 7, ev_hangup = False, ev_accept = -1, ev_peername = None, ev_epoll_add = True,
              ev_read = [Got (render_request ''OPTIONS'' ''*'' ''RTSP/1.0'' [(''CSeq'', show_int 2)])],
              ev_writes = [[BrokenPipe]]\<rparr>] ((server_new 3 4 ''camera'' sample_os)\<lparr>clients := [7 \<mapsto> sample_session]\<rparr>)
      = Inl (if True then Died else Stuck)"
    by (rule one_client_stops_server [OF _ _ _ _ 7 1 2 _ 3 4 5 6]) (simp_all add: server_new_def)
  then show ?thesis by (simp add: Let_def)
qed

text \<open>
  C27: any client can end the server for all of them: one request, complete and well formed but for
  a \<open>CSeq\<close> value that is no number, and the exception of \<open>std::stoi\<close> leaves the event loop.
\<close>

theorem bad_cseq_ends_server:
  assumes "clients srv (ev_fd ev) = Some s" and "ev_fd ev \<noteq> listener_fd srv" and "\<not> ev_hangup ev"
    and "ev_read ev = [Got (render_request m u v hs)]" and "rx_buffer s = []"
    and "wf_request_line m u v" and "list_all wf_header hs" and "distinct (map fst hs)"
    and "iterates iter" and "only_value hs ''CSeq'' (c # rest)"
    and "\<not> isspace c" and "\<not> isdigit c" and "c \<noteq> CHR ''-''" and "c \<noteq> CHR ''+''"
    and "length (render_request m u v hs) \<le> 4096"
  shows "handle_batch iter (ev # evs) srv = Inl (Threw invalid_argument)"
proof -
  have "length (render_request m u v hs) \<le> 65536" using assms(15) by simp
  note f = feed_throws [OF assms(6-14) this assms(5), of "plant srv"]
  have "render_request m u v hs \<noteq> []" by (simp add: render_request_def)
  then show ?thesis using assms(1-4) f by (simp add: handle_event_def)
qed

lemma bad_cseq_ends_server_witness:
  "let srv = (server_new 3 4 ''camera'' sample_os)\<lparr>clients := [7 \<mapsto> sample_session]\<rparr>;
       ev = \<lparr>ev_fd = 7, ev_hangup = False, ev_accept = -1, ev_peername = None, ev_epoll_add = True,
              ev_read = [Got (render_request ''OPTIONS'' ''*'' ''RTSP/1.0'' [(''CSeq'', ''abc'')])],
              ev_writes = []\<rparr>
   in handle_batch id [ev] srv = Inl (Threw invalid_argument)"
proof -
  have 1: "wf_request_line ''OPTIONS'' ''*'' ''RTSP/1.0''" by code_simp
  have 2: "list_all wf_header [(''CSeq'', ''abc'')]" by code_simp
  have 3: "iterates id" by (simp add: iterates_def)
  have 4: "only_value [(''CSeq'', ''abc'')] ''CSeq'' (''abc'')"
    by (simp add: only_value_def iequals_iff)
  have 5: "\<not> isspace (CHR ''a'')" "\<not> isdigit (CHR ''a'')" by code_simp+
  have 6: "length (render_request ''OPTIONS'' ''*'' ''RTSP/1.0'' [(''CSeq'', ''abc'')]) \<le> 4096"
    by (simp add: render_request_def render_headers_def crlf_def)
  have 7: "rx_buffer sample_session = []" by (simp add: sample_session_def Session_new_def)
  show ?thesis
    unfolding Let_def
    by (rule bad_cseq_ends_server [OF _ _ _ _ 7 1 2 _ 3 4 5 _ _ 6]) (simp_all add: server_new_def)
qed

end
