(* ===== verification/Cli.thy ===== *)
theory Cli
  imports Server
begin

text \<open>
  The entry point (src/main.cpp): the command line, and the server started with it.
\<close>

section \<open>The code\<close>

record CliArgs =
  arg_port :: "16 word"
  arg_source :: string

definition CliArgs_default :: CliArgs where
  "CliArgs_default = \<lparr>arg_port = 8554, arg_source = ''camera''\<rparr>"

text \<open>
  \<open>std::atoi\<close>: like \<open>stoi\<close> but with 0 where there is no number.  A value that is no \<open>int\<close> is undefined
  behaviour; the value is then whatever the argument \<open>undef\<close> says.
\<close>

definition atoi :: "(string \<Rightarrow> int) \<Rightarrow> string \<Rightarrow> int" where
  "atoi undef s =
     (case stoi s of Inr n \<Rightarrow> n | Inl invalid_argument \<Rightarrow> 0 | Inl out_of_range \<Rightarrow> undef s)"

fun parse_args_loop :: "(string \<Rightarrow> int) \<Rightarrow> string list \<Rightarrow> CliArgs \<Rightarrow> CliArgs" where
  "parse_args_loop undef [] a = a"
| "parse_args_loop undef [k] a = a"
| "parse_args_loop undef (k # v # rest) a =
     (if k = ''--port'' then parse_args_loop undef rest (a\<lparr>arg_port := word_of_int (atoi undef v)\<rparr>)
      else if k = ''--source'' then parse_args_loop undef rest (a\<lparr>arg_source := v\<rparr>)
      else parse_args_loop undef (v # rest) a)"

definition parse_args :: "(string \<Rightarrow> int) \<Rightarrow> string list \<Rightarrow> CliArgs" where
  "parse_args undef argv = parse_args_loop undef (drop 1 argv) CliArgs_default"

text \<open>
  \<open>main\<close>: the arguments of the program, what its system calls return, and the turns of the loop.
\<close>

definition main_program :: "(string \<Rightarrow> int) \<Rightarrow> string list \<Rightarrow> (16 word \<Rightarrow> int \<times> bool \<times> bool \<times> bool \<times> int \<times> bool) \<Rightarrow>
    os \<Rightarrow> (server \<Rightarrow> int list) \<Rightarrow> (header_table \<Rightarrow> header_table) \<Rightarrow> turn list \<Rightarrow> fate + int call" where
  "main_program undef argv calls w order iter ts =
     (let args = parse_args undef argv;
          (sock, so, bi, li, epoll, add) = calls (arg_port args)
      in case run_start sock so bi li epoll add (arg_source args) w of
           Inl (code, _) \<Rightarrow> Inr (Returned code)
         | Inr srv \<Rightarrow>
             (case run_finish order iter ts srv of
                Inl f \<Rightarrow> Inl f
              | Inr Killed \<Rightarrow> Inr Killed
              | Inr Blocked \<Rightarrow> Inr Blocked
              | Inr (Returned (code, _)) \<Rightarrow> Inr (Returned code)))"

section \<open>The command line\<close>

datatype cli_option = Port int | Source string | Other string

text \<open>An unknown word stands alone; it must not be one of the two keys.\<close>

fun option_words :: "cli_option \<Rightarrow> string list" where
  "option_words (Port p) = [''--port'', show_int p]"
| "option_words (Source s) = [''--source'', s]"
| "option_words (Other k) = [k]"

fun wf_option :: "cli_option \<Rightarrow> bool" where
  "wf_option (Port p) \<longleftrightarrow> int32 p"
| "wf_option (Source s) \<longleftrightarrow> True"
| "wf_option (Other k) \<longleftrightarrow> k \<noteq> ''--port'' \<and> k \<noteq> ''--source''"

fun apply_option :: "cli_option \<Rightarrow> CliArgs \<Rightarrow> CliArgs" where
  "apply_option (Port p) a = a\<lparr>arg_port := word_of_int p\<rparr>"
| "apply_option (Source s) a = a\<lparr>arg_source := s\<rparr>"
| "apply_option (Other k) a = a"

lemma atoi_show_int: "int32 p \<Longrightarrow> atoi undef (show_int p) = p"
  using stoi_show_int [of p "[]"] by (simp add: atoi_def)

lemma parse_other: "k \<noteq> ''--port'' \<Longrightarrow> k \<noteq> ''--source'' \<Longrightarrow>
    parse_args_loop undef (k # ws) a = parse_args_loop undef ws a"
  by (cases ws) simp_all

lemma parse_args_loop_options:
  "list_all wf_option os \<Longrightarrow>
     parse_args_loop undef (concat (map option_words os)) a = fold apply_option os a"
proof (induction os arbitrary: a)
  case Nil
  then show ?case by simp
next
  case (Cons opt os)
  then show ?case by (cases opt) (simp_all add: atoi_show_int parse_other)
qed

text \<open>
  the command line means what it says: from any sequence of options the port and the source
  are those of the last option of each kind, and the defaults where there is none; unknown words
  are passed over; a port is taken modulo \<open>2 ^ 16\<close>.
\<close>

theorem cli_roundtrip:
  assumes "list_all wf_option os"
  shows "parse_args undef (prog # concat (map option_words os)) = fold apply_option os CliArgs_default"
  using parse_args_loop_options [OF assms] by (simp add: parse_args_def)

lemma cli_roundtrip_witness:
  "parse_args (\<lambda>_. 0) (''veda'' # concat (map option_words [Port 554, Other ''-v'', Source ''a.h264'', Port 8555]))
     = \<lparr>arg_port = 8555, arg_source = ''a.h264''\<rparr>"
  using cli_roundtrip [of "[Port 554, Other ''-v'', Source ''a.h264'', Port 8555]" "\<lambda>_. 0" "''veda''"]
  by (simp add: int32_def CliArgs_default_def)

end
