(* ===== verification/HubThreads.thy ===== *)
theory HubThreads
  imports Hub
begin

text \<open>
  The two threads of \<open>media::Hub\<close> (src/media/hub.cpp) at the grain at which they really interleave.
  Theory Hub takes \<open>subscribe\<close>, \<open>unsubscribe\<close> and a turn of the pump loop as one step each; here every
  access to the mutex, to the atomic flag, to the thread handle and to the source is a step of its
  own, and a NAL unit goes to one subscriber per step.  What is merged are accesses to data that
  only the holder of the mutex touches.
\<close>

section \<open>State\<close>

datatype thread = Event_loop | Pump_thread

text \<open>
  Where the pump thread is: before its loop test, in \<open>read_nal\<close>, with NAL units for the callback and
  the result that \<open>read_nal\<close> will have, in \<open>on_nal\<close> with the subscribers still to be served, before
  \<open>stop\<close>, before clearing the flag, and finished.
\<close>

datatype pump_pc =
    No_thread
  | At_check
  | At_read
  | At_nals bool "bytes list"
  | In_nal bool bytes "bytes list" "nat list"
  | At_stop
  | At_flag
  | Ended

text \<open>
  Where the event loop is in the hub's operations: waiting for the mutex, and the steps that follow.
  \<open>Aborted\<close> is \<open>std::terminate\<close>, for a joinable thread that is overwritten; \<open>Gone\<close> is after the
  destructor.
\<close>

datatype main_pc =
    Idle
  | Sub_lock nat | Sub_check nat | Sub_join nat | Sub_start nat | Sub_run nat | Sub_thread nat | Sub_push nat
  | Unsub_lock nat | Unsub_erase nat | Unsub_join
  | Sprop_lock | Sprop_read
  | Del_flag | Del_join
  | Aborted | Gone

text \<open>\<open>subscribed\<close> and \<open>sprop\<close> are the results of the last \<open>subscribe\<close> and \<open>sprop_parameter_sets\<close>.\<close>

record threads =
  med :: media
  mu :: "thread option"
  pump_at :: pump_pc
  main_at :: main_pc
  to_join :: bool
  subscribed :: "bool option"
  sprop :: string

definition threads_new :: "SourceConfig \<Rightarrow> os \<Rightarrow> threads" where
  "threads_new c w =
     \<lparr>med = \<lparr>hub = hub_new c w, heap = (\<lambda>_. None), next_ref = 0, host = w\<rparr>, mu = None,
      pump_at = No_thread, main_at = Idle, to_join = False, subscribed = None, sprop = []\<rparr>"

definition upd_hub :: "(Hub \<Rightarrow> Hub) \<Rightarrow> threads \<Rightarrow> threads" where
  "upd_hub f t = t\<lparr>med := (med t)\<lparr>hub := f (hub (med t))\<rparr>\<rparr>"

abbreviation hub_of :: "threads \<Rightarrow> Hub" where "hub_of t \<equiv> hub (med t)"
abbreviation subs :: "threads \<Rightarrow> nat list" where "subs t \<equiv> hub_subscribers (hub_of t)"

section \<open>The pump thread\<close>

text \<open>
  The next action of the thread, \<open>None\<close> when it waits, has ended or does not exist.  Taking the mutex
  in \<open>on_nal\<close> and caching a parameter set are one step, since the cache is read and written with the
  mutex held.
\<close>

definition enter_nal :: "bool \<Rightarrow> bytes \<Rightarrow> bytes list \<Rightarrow> threads \<Rightarrow> threads" where
  "enter_nal ok nal nals t =
     (let (sps, pps) = cache_parameter_set nal (hub_sps (hub_of t), hub_pps (hub_of t))
      in upd_hub (\<lambda>h. h\<lparr>hub_sps := sps, hub_pps := pps\<rparr>)
           (t\<lparr>mu := Some Pump_thread, pump_at := In_nal ok nal nals (subs t)\<rparr>))"

definition serve_one :: "bytes \<Rightarrow> nat \<Rightarrow> media \<Rightarrow> media" where
  "serve_one nal r m =
     (let type = nal_type_of nal;
          (h, w) = broadcast nal (type = kNalSlice \<or> type = kNalIdr) (hub_ts_increment (hub m)) [r]
                     (heap m) (host m)
      in m\<lparr>heap := h, host := w\<rparr>)"

definition pump_action :: "threads \<Rightarrow> threads option" where
  "pump_action t =
     (case pump_at t of
        No_thread \<Rightarrow> None
      | At_check \<Rightarrow> Some (t\<lparr>pump_at := if hub_running (hub_of t) then At_read else At_stop\<rparr>)
      | At_read \<Rightarrow>
          (case hub_source (hub_of t) of
             None \<Rightarrow> None
           | Some s \<Rightarrow>
               (case source_read_nal s of
                  (ok, nals, _, s) \<Rightarrow>
                    Some (upd_hub (\<lambda>h. h\<lparr>hub_source := Some s\<rparr>) (t\<lparr>pump_at := At_nals ok nals\<rparr>))))
      | At_nals ok [] \<Rightarrow> Some (t\<lparr>pump_at := if ok then At_check else At_stop\<rparr>)
      | At_nals ok (nal # nals) \<Rightarrow>
          if nal = [] then Some (t\<lparr>pump_at := At_nals ok nals\<rparr>)
          else if mu t = None then Some (enter_nal ok nal nals t) else None
      | In_nal ok nal nals [] \<Rightarrow> Some (t\<lparr>mu := None, pump_at := At_nals ok nals\<rparr>)
      | In_nal ok nal nals (r # rs) \<Rightarrow>
          Some (t\<lparr>med := serve_one nal r (med t), pump_at := In_nal ok nal nals rs\<rparr>)
      | At_stop \<Rightarrow>
          Some (upd_hub (\<lambda>h. h\<lparr>hub_source := map_option source_stop (hub_source h)\<rparr>)
                  (t\<lparr>pump_at := At_flag\<rparr>))
      | At_flag \<Rightarrow> Some (upd_hub (\<lambda>h. h\<lparr>hub_running := False\<rparr>) (t\<lparr>pump_at := Ended\<rparr>))
      | Ended \<Rightarrow> None)"

section \<open>The event loop\<close>

text \<open>A join returns when the thread has ended; the handle is no longer joinable then.\<close>

definition main_action :: "threads \<Rightarrow> threads option" where
  "main_action t =
     (case main_at t of
        Sub_lock r \<Rightarrow> if mu t = None then Some (t\<lparr>mu := Some Event_loop, main_at := Sub_check r\<rparr>) else None
      | Sub_check r \<Rightarrow> Some (t\<lparr>main_at := if \<not> hub_running (hub_of t) then Sub_join r else Sub_push r\<rparr>)
      | Sub_join r \<Rightarrow>
          if \<not> hub_pump_joinable (hub_of t) then Some (t\<lparr>main_at := Sub_start r\<rparr>)
          else if pump_at t = Ended
          then Some (upd_hub (\<lambda>h. h\<lparr>hub_pump_joinable := False\<rparr>)
                       (t\<lparr>pump_at := No_thread, main_at := Sub_start r\<rparr>))
          else None
      | Sub_start r \<Rightarrow>
          (case source_start (make_source (hub_cfg (hub_of t))) (host (med t)) of
             (ok, s, w) \<Rightarrow>
               if \<not> ok
               then Some (t\<lparr>med := (med t)\<lparr>hub := (hub_of t)\<lparr>hub_source := None\<rparr>, host := w\<rparr>,
                            mu := None, main_at := Idle, subscribed := Some False\<rparr>)
               else Some (t\<lparr>med := (med t)\<lparr>hub := (hub_of t)\<lparr>hub_source := Some s\<rparr>, host := w\<rparr>,
                            main_at := Sub_run r\<rparr>))
      | Sub_run r \<Rightarrow> Some (upd_hub (\<lambda>h. h\<lparr>hub_running := True\<rparr>) (t\<lparr>main_at := Sub_thread r\<rparr>))
      | Sub_thread r \<Rightarrow>
          if hub_pump_joinable (hub_of t) then Some (t\<lparr>main_at := Aborted\<rparr>)
          else Some (upd_hub (\<lambda>h. h\<lparr>hub_pump_joinable := True\<rparr>)
                       (t\<lparr>pump_at := At_check, main_at := Sub_push r\<rparr>))
      | Sub_push r \<Rightarrow>
          Some (upd_hub (\<lambda>h. h\<lparr>hub_subscribers := hub_subscribers h @ [r]\<rparr>)
                  (t\<lparr>mu := None, main_at := Idle, subscribed := Some True\<rparr>))
      | Unsub_lock r \<Rightarrow> if mu t = None then Some (t\<lparr>mu := Some Event_loop, main_at := Unsub_erase r\<rparr>) else None
      | Unsub_erase r \<Rightarrow>
          (let t = upd_hub (\<lambda>h. h\<lparr>hub_subscribers := removeAll r (hub_subscribers h)\<rparr>) t in
           if subs t = [] \<and> hub_running (hub_of t)
           then Some (upd_hub (\<lambda>h. h\<lparr>hub_running := False, hub_pump_joinable := False\<rparr>)
                        (t\<lparr>mu := None, main_at := Unsub_join, to_join := hub_pump_joinable (hub_of t)\<rparr>))
           else Some (t\<lparr>mu := None, main_at := Idle\<rparr>))
      | Unsub_join \<Rightarrow>
          if \<not> to_join t then Some (t\<lparr>main_at := Idle\<rparr>)
          else if pump_at t = Ended then Some (t\<lparr>to_join := False, pump_at := No_thread, main_at := Idle\<rparr>)
          else None
      | Sprop_lock \<Rightarrow> if mu t = None then Some (t\<lparr>mu := Some Event_loop, main_at := Sprop_read\<rparr>) else None
      | Sprop_read \<Rightarrow> Some (t\<lparr>sprop := sprop_parameter_sets (hub_of t), mu := None, main_at := Idle\<rparr>)
      | Del_flag \<Rightarrow> Some (upd_hub (\<lambda>h. h\<lparr>hub_running := False\<rparr>) (t\<lparr>main_at := Del_join\<rparr>))
      | Del_join \<Rightarrow>
          if \<not> hub_pump_joinable (hub_of t) then Some (t\<lparr>main_at := Gone\<rparr>)
          else if pump_at t = Ended
          then Some (upd_hub (\<lambda>h. h\<lparr>hub_pump_joinable := False\<rparr>) (t\<lparr>pump_at := No_thread, main_at := Gone\<rparr>))
          else None
      | _ \<Rightarrow> None)"

section \<open>Interleaving\<close>

text \<open>
  What the event loop does between two calls of the hub, in any number of other steps: it makes
  streamers, deletes those that are not subscribed, and makes system calls; the hub is not touched.
\<close>

definition main_work :: "media \<Rightarrow> media \<Rightarrow> bool" where
  "main_work m m' \<longleftrightarrow>
     hub m' = hub m \<and> same_host (host m) (host m') \<and> wire (host m') = wire (host m) \<and>
     next_ref m \<le> next_ref m' \<and> (\<forall>r \<in> dom (heap m'). r < next_ref m') \<and>
     (\<forall>r \<in> set (hub_subscribers (hub m)). heap m' r = heap m r)"

text \<open>
  A step is an action of one of the threads, a call of an operation by the idle event loop, or other
  work of it.  A streamer is subscribed once, when it is connected.
\<close>

inductive thread_step :: "threads \<Rightarrow> threads \<Rightarrow> bool" where
  pump: "pump_action t = Some t' \<Longrightarrow> thread_step t t'"
| main: "main_action t = Some t' \<Longrightarrow> thread_step t t'"
| work: "main_at t = Idle \<Longrightarrow> main_work (med t) m \<Longrightarrow> thread_step t (t\<lparr>med := m\<rparr>)"
| call_subscribe: "main_at t = Idle \<Longrightarrow> ready (heap (med t)) r \<Longrightarrow> r \<notin> set (subs t) \<Longrightarrow>
    thread_step t (t\<lparr>main_at := Sub_lock r\<rparr>)"
| call_unsubscribe: "main_at t = Idle \<Longrightarrow> thread_step t (t\<lparr>main_at := Unsub_lock r\<rparr>)"
| call_sprop: "main_at t = Idle \<Longrightarrow> thread_step t (t\<lparr>main_at := Sprop_lock\<rparr>)"
| call_delete: "main_at t = Idle \<Longrightarrow> thread_step t (t\<lparr>main_at := Del_flag\<rparr>)"

inductive threads_reach :: "threads \<Rightarrow> bool" where
  start: "threads_reach (threads_new c w)"
| step: "threads_reach t \<Longrightarrow> thread_step t t' \<Longrightarrow> threads_reach t'"

section \<open>The invariant\<close>

fun alive :: "pump_pc \<Rightarrow> bool" where
  "alive No_thread \<longleftrightarrow> False"
| "alive Ended \<longleftrightarrow> False"
| "alive _ \<longleftrightarrow> True"

fun pumping :: "pump_pc \<Rightarrow> bool" where
  "pumping At_flag \<longleftrightarrow> False"
| "pumping p \<longleftrightarrow> alive p"

fun in_nal :: "pump_pc \<Rightarrow> bool" where
  "in_nal (In_nal _ _ _ _) \<longleftrightarrow> True"
| "in_nal _ \<longleftrightarrow> False"

fun has_lock :: "main_pc \<Rightarrow> bool" where
  "has_lock (Sub_check _) \<longleftrightarrow> True"
| "has_lock (Sub_join _) \<longleftrightarrow> True"
| "has_lock (Sub_start _) \<longleftrightarrow> True"
| "has_lock (Sub_run _) \<longleftrightarrow> True"
| "has_lock (Sub_thread _) \<longleftrightarrow> True"
| "has_lock (Sub_push _) \<longleftrightarrow> True"
| "has_lock (Unsub_erase _) \<longleftrightarrow> True"
| "has_lock Sprop_read \<longleftrightarrow> True"
| "has_lock _ \<longleftrightarrow> False"

fun joining :: "main_pc \<Rightarrow> bool" where
  "joining Unsub_join \<longleftrightarrow> True"
| "joining Del_join \<longleftrightarrow> True"
| "joining _ \<longleftrightarrow> False"

text \<open>The streamer that a \<open>subscribe\<close> under way is about.\<close>

fun newcomer :: "main_pc \<Rightarrow> nat option" where
  "newcomer (Sub_lock r) = Some r"
| "newcomer (Sub_check r) = Some r"
| "newcomer (Sub_join r) = Some r"
| "newcomer (Sub_start r) = Some r"
| "newcomer (Sub_run r) = Some r"
| "newcomer (Sub_thread r) = Some r"
| "newcomer (Sub_push r) = Some r"
| "newcomer _ = None"

fun starting :: "main_pc \<Rightarrow> bool" where
  "starting (Sub_run _) \<longleftrightarrow> True"
| "starting (Sub_thread _) \<longleftrightarrow> True"
| "starting _ \<longleftrightarrow> False"

text \<open>
  Three parts: who holds the mutex; what the flag, the thread and its handle say about each other;
  and what is on the list.
\<close>

definition lock_ok :: "threads \<Rightarrow> bool" where
  "lock_ok t \<longleftrightarrow>
     (mu t = Some Pump_thread \<longleftrightarrow> in_nal (pump_at t)) \<and>
     (mu t = Some Event_loop \<longleftrightarrow> has_lock (main_at t)) \<and>
     (\<forall>ok n ns rs. pump_at t = In_nal ok n ns rs \<longrightarrow> n \<noteq> [] \<and> (\<exists>served. subs t = served @ rs))"

text \<open>What holds at a place of the event loop: of the flag, the thread, its handle, the local handle.\<close>

fun place_ok :: "main_pc \<Rightarrow> bool \<Rightarrow> pump_pc \<Rightarrow> bool \<Rightarrow> bool \<Rightarrow> bool" where
  "place_ok (Sub_join r) running p joinable local \<longleftrightarrow> \<not> running"
| "place_ok (Sub_start r) running p joinable local \<longleftrightarrow> \<not> running \<and> p = No_thread"
| "place_ok (Sub_run r) running p joinable local \<longleftrightarrow> \<not> running \<and> p = No_thread"
| "place_ok (Sub_thread r) running p joinable local \<longleftrightarrow> running \<and> p = No_thread"
| "place_ok Unsub_join running p joinable local \<longleftrightarrow> \<not> running \<and> local \<and> \<not> joinable"
| "place_ok Del_join running p joinable local \<longleftrightarrow> \<not> running"
| "place_ok Gone running p joinable local \<longleftrightarrow> \<not> running \<and> p = No_thread"
| "place_ok Aborted running p joinable local \<longleftrightarrow> False"
| "place_ok _ running p joinable local \<longleftrightarrow> True"

definition thread_ok :: "threads \<Rightarrow> bool" where
  "thread_ok t \<longleftrightarrow>
     (hub_running (hub_of t) \<longrightarrow> alive (pump_at t) \<or> (\<exists>r. main_at t = Sub_thread r)) \<and>
     (alive (pump_at t) \<and> \<not> hub_running (hub_of t) \<longrightarrow> joining (main_at t)) \<and>
     (pump_at t \<noteq> No_thread \<longleftrightarrow> hub_pump_joinable (hub_of t) \<or> main_at t = Unsub_join \<and> to_join t) \<and>
     (source_is_open (hub_of t) \<longleftrightarrow> pumping (pump_at t) \<or> starting (main_at t)) \<and>
     place_ok (main_at t) (hub_running (hub_of t)) (pump_at t) (hub_pump_joinable (hub_of t)) (to_join t)"

definition list_ok :: "threads \<Rightarrow> bool" where
  "list_ok t \<longleftrightarrow>
     distinct (subs t) \<and> (\<forall>r \<in> set (subs t). ready (heap (med t)) r) \<and>
     (\<forall>r \<in> dom (heap (med t)). r < next_ref (med t)) \<and>
     (\<forall>r. newcomer (main_at t) = Some r \<longrightarrow> ready (heap (med t)) r \<and> r \<notin> set (subs t)) \<and>
     (hub_running (hub_of t) \<and> subs t = [] \<longrightarrow> newcomer (main_at t) \<noteq> None \<and> has_lock (main_at t))"

section \<open>Every step keeps it\<close>

lemma upd_hub_simps [simp]:
  "hub_of (upd_hub f t) = f (hub_of t)" "heap (med (upd_hub f t)) = heap (med t)"
  "next_ref (med (upd_hub f t)) = next_ref (med t)" "host (med (upd_hub f t)) = host (med t)"
  "mu (upd_hub f t) = mu t" "pump_at (upd_hub f t) = pump_at t" "main_at (upd_hub f t) = main_at t"
  "to_join (upd_hub f t) = to_join t" "subscribed (upd_hub f t) = subscribed t" "sprop (upd_hub f t) = sprop t"
  by (simp_all add: upd_hub_def)

lemma enter_nal_simps [simp]:
  "subs (enter_nal ok n ns t) = subs t" "hub_running (hub_of (enter_nal ok n ns t)) = hub_running (hub_of t)"
  "hub_pump_joinable (hub_of (enter_nal ok n ns t)) = hub_pump_joinable (hub_of t)"
  "hub_source (hub_of (enter_nal ok n ns t)) = hub_source (hub_of t)"
  "hub_cfg (hub_of (enter_nal ok n ns t)) = hub_cfg (hub_of t)"
  "hub_ts_increment (hub_of (enter_nal ok n ns t)) = hub_ts_increment (hub_of t)"
  "heap (med (enter_nal ok n ns t)) = heap (med t)" "next_ref (med (enter_nal ok n ns t)) = next_ref (med t)"
  "host (med (enter_nal ok n ns t)) = host (med t)" "mu (enter_nal ok n ns t) = Some Pump_thread"
  "pump_at (enter_nal ok n ns t) = In_nal ok n ns (subs t)" "main_at (enter_nal ok n ns t) = main_at t"
  "to_join (enter_nal ok n ns t) = to_join t"
  by (simp_all add: enter_nal_def split: prod.split)

lemma serve_one_simps [simp]:
  "hub (serve_one n r m) = hub m" "next_ref (serve_one n r m) = next_ref m"
  by (simp_all add: serve_one_def Let_def split: prod.split)

lemma serve_one_keeps:
  "dom (heap (serve_one n r m)) = dom (heap m)" "ready (heap m) k \<Longrightarrow> ready (heap (serve_one n r m)) k"
  "k \<noteq> r \<Longrightarrow> heap (serve_one n r m) k = heap m k" "same_host (host m) (host (serve_one n r m))"
proof -
  obtain h w where b: "broadcast n (nal_type_of n = kNalSlice \<or> nal_type_of n = kNalIdr)
      (hub_ts_increment (hub m)) [r] (heap m) (host m) = (h, w)" by fastforce
  have "heap (serve_one n r m) = h" "host (serve_one n r m) = w"
    by (simp_all add: serve_one_def b del: broadcast.simps)
  with broadcast_keeps [OF b]
  show "dom (heap (serve_one n r m)) = dom (heap m)" "ready (heap m) k \<Longrightarrow> ready (heap (serve_one n r m)) k"
    "k \<noteq> r \<Longrightarrow> heap (serve_one n r m) k = heap m k" "same_host (host m) (host (serve_one n r m))"
    by simp_all
qed

text \<open>The actions of the pump, one case per place it can be at.\<close>

lemma pump_action_cases [consumes 1, case_names check read nals skip enter leave serve stop flag]:
  assumes "pump_action t = Some t'"
  obtains
    "pump_at t = At_check" "t' = t\<lparr>pump_at := if hub_running (hub_of t) then At_read else At_stop\<rparr>"
  | s ok nals d s' where "pump_at t = At_read" "hub_source (hub_of t) = Some s"
      "source_read_nal s = (ok, nals, d, s')"
      "t' = upd_hub (\<lambda>h. h\<lparr>hub_source := Some s'\<rparr>) (t\<lparr>pump_at := At_nals ok nals\<rparr>)"
  | ok where "pump_at t = At_nals ok []" "t' = t\<lparr>pump_at := if ok then At_check else At_stop\<rparr>"
  | ok nals where "pump_at t = At_nals ok ([] # nals)" "t' = t\<lparr>pump_at := At_nals ok nals\<rparr>"
  | ok n nals where "pump_at t = At_nals ok (n # nals)" "n \<noteq> []" "mu t = None" "t' = enter_nal ok n nals t"
  | ok n nals where "pump_at t = In_nal ok n nals []" "t' = t\<lparr>mu := None, pump_at := At_nals ok nals\<rparr>"
  | ok n nals r rs where "pump_at t = In_nal ok n nals (r # rs)"
      "t' = t\<lparr>med := serve_one n r (med t), pump_at := In_nal ok n nals rs\<rparr>"
  | "pump_at t = At_stop"
      "t' = upd_hub (\<lambda>h. h\<lparr>hub_source := map_option source_stop (hub_source h)\<rparr>) (t\<lparr>pump_at := At_flag\<rparr>)"
  | "pump_at t = At_flag" "t' = upd_hub (\<lambda>h. h\<lparr>hub_running := False\<rparr>) (t\<lparr>pump_at := Ended\<rparr>)"
proof (cases "pump_at t")
  case At_check
  with assms show ?thesis by (intro that(1)) (simp_all add: pump_action_def)
next
  case At_read
  with assms obtain s where s: "hub_source (hub_of t) = Some s"
    by (auto simp: pump_action_def split: option.splits)
  obtain ok nals d s' where r: "source_read_nal s = (ok, nals, d, s')" by (metis prod_cases4)
  show ?thesis using assms At_read by (intro that(2) [OF At_read s r]) (simp add: pump_action_def s r)
next
  case (At_nals ok nals)
  show ?thesis
  proof (cases nals)
    case Nil
    with assms At_nals show ?thesis by (intro that(3)) (auto simp: pump_action_def)
  next
    case (Cons n ns)
    with assms At_nals show ?thesis
      by (cases "n = []"; intro that(4) that(5)) (auto simp: pump_action_def split: if_splits)
  qed
next
  case (In_nal ok n nals rs)
  with assms show ?thesis
    by (cases rs) (auto simp: pump_action_def intro: that(6) that(7))
next
  case At_stop
  with assms show ?thesis by (intro that(8)) (simp_all add: pump_action_def)
next
  case At_flag
  with assms show ?thesis by (intro that(9)) (simp_all add: pump_action_def)
qed (use assms in \<open>simp_all add: pump_action_def\<close>)

lemmas threads_ok_defs = lock_ok_def thread_ok_def list_ok_def

lemma pump_keeps_lock:
  assumes "pump_action t = Some t'" and "lock_ok t"
  shows "lock_ok t'"
  using assms by (cases rule: pump_action_cases) (auto simp: lock_ok_def)

lemma place_ok_pump:
  "place_ok pc running p j l \<Longrightarrow> alive p \<Longrightarrow> p' \<noteq> No_thread \<Longrightarrow> place_ok pc running p' j l"
  by (cases pc) auto

lemma place_ok_stops:
  "place_ok pc running p j l \<Longrightarrow> alive p \<Longrightarrow> p' \<noteq> No_thread \<Longrightarrow> place_ok pc False p' j l"
  by (cases pc) auto

lemma starting_cases: "starting pc \<longleftrightarrow> (\<exists>r. pc = Sub_run r \<or> pc = Sub_thread r)"
  by (cases pc) auto

lemma place_ok_not_starting: "place_ok pc running p j l \<Longrightarrow> alive p \<Longrightarrow> \<not> starting pc"
  by (cases pc) auto

text \<open>What the actions of the pump do to the parts of \<open>thread_ok\<close>.\<close>

lemma pump_action_source:
  assumes "pump_action t = Some t'"
  shows "source_is_open (hub_of t') = (source_is_open (hub_of t) \<and> pump_at t \<noteq> At_stop)"
  using assms
proof (cases rule: pump_action_cases)
  case (read s ok nals d s')
  then have "source_open s' = source_open s" using source.reads_keep by blast
  with read show ?thesis by (simp add: source_is_open_def)
next
  case stop
  then show ?thesis using source.stop_closes by (auto simp: source_is_open_def)
qed (simp_all add: source_is_open_def)

lemma pump_action_frame:
  assumes "pump_action t = Some t'"
  shows "alive (pump_at t)" "pump_at t' \<noteq> No_thread" "main_at t' = main_at t" "to_join t' = to_join t"
    "subs t' = subs t" "hub_cfg (hub_of t') = hub_cfg (hub_of t)" "next_ref (med t') = next_ref (med t)"
    "hub_pump_joinable (hub_of t') = hub_pump_joinable (hub_of t)"
    "hub_running (hub_of t') = (hub_running (hub_of t) \<and> pump_at t \<noteq> At_flag)"
    "alive (pump_at t') \<longleftrightarrow> pump_at t \<noteq> At_flag"
    "pumping (pump_at t') \<longleftrightarrow> pump_at t \<noteq> At_flag \<and> pump_at t \<noteq> At_stop"
    "pumping (pump_at t) \<longleftrightarrow> pump_at t \<noteq> At_flag"
  using assms by (cases rule: pump_action_cases; simp)+

lemma pump_keeps_thread:
  assumes "pump_action t = Some t'" and "thread_ok t"
  shows "thread_ok t'"
proof -
  note f = pump_action_frame [OF assms(1)]
  have p: "place_ok (main_at t) (hub_running (hub_of t)) (pump_at t) (hub_pump_joinable (hub_of t)) (to_join t)"
    using assms(2) by (simp add: thread_ok_def)
  have n: "pump_at t \<noteq> No_thread" using f(1) by (cases "pump_at t") auto
  show ?thesis
    using assms(2) f pump_action_source [OF assms(1)] place_ok_pump [OF p f(1,2)] place_ok_stops [OF p f(1,2)] place_ok_not_starting [OF p f(1)] n
    by (auto simp: thread_ok_def)
qed

lemma pump_keeps_list:
  assumes "pump_action t = Some t'" and "list_ok t"
  shows "list_ok t'"
  using assms
proof (cases rule: pump_action_cases)
  case (serve ok n nals r rs)
  then show ?thesis using assms(2) serve_one_keeps(2) [of "med t"] by (simp add: list_ok_def serve_one_keeps(1))
qed (auto simp: list_ok_def)

text \<open>The actions of the event loop; only the start of the source is not plain bookkeeping.\<close>

lemma main_start_cases:
  assumes "main_action t = Some t'" and "main_at t = Sub_start r"
  obtains w where "same_host (host (med t)) w" "wire w = wire (host (med t))"
      "t' = t\<lparr>med := (med t)\<lparr>hub := (hub_of t)\<lparr>hub_source := None\<rparr>, host := w\<rparr>,
              mu := None, main_at := Idle, subscribed := Some False\<rparr>"
  | s w where "same_host (host (med t)) w" "wire w = wire (host (med t))" "source_open s"
      "t' = t\<lparr>med := (med t)\<lparr>hub := (hub_of t)\<lparr>hub_source := Some s\<rparr>, host := w\<rparr>, main_at := Sub_run r\<rparr>"
proof -
  obtain ok s w where st: "source_start (make_source (hub_cfg (hub_of t))) (host (med t)) = (ok, s, w)"
    by (metis prod_cases3)
  from source.start_result [OF st] assms st show ?thesis
    by (cases ok) (auto simp: main_action_def intro: that)
qed

lemma main_action_cases [consumes 1, case_names sub_lock sub_check sub_join_none sub_join sub_start
    sub_run sub_abort sub_thread sub_push unsub_lock unsub_last unsub unsub_no_join unsub_join
    sprop_lock sprop_read del_flag del_no_join del_join]:
  assumes "main_action t = Some t'"
  obtains
    r where "main_at t = Sub_lock r" "mu t = None" "t' = t\<lparr>mu := Some Event_loop, main_at := Sub_check r\<rparr>"
  | r where "main_at t = Sub_check r"
      "t' = t\<lparr>main_at := if \<not> hub_running (hub_of t) then Sub_join r else Sub_push r\<rparr>"
  | r where "main_at t = Sub_join r" "\<not> hub_pump_joinable (hub_of t)" "t' = t\<lparr>main_at := Sub_start r\<rparr>"
  | r where "main_at t = Sub_join r" "hub_pump_joinable (hub_of t)" "pump_at t = Ended"
      "t' = upd_hub (\<lambda>h. h\<lparr>hub_pump_joinable := False\<rparr>) (t\<lparr>pump_at := No_thread, main_at := Sub_start r\<rparr>)"
  | r where "main_at t = Sub_start r"
  | r where "main_at t = Sub_run r" "t' = upd_hub (\<lambda>h. h\<lparr>hub_running := True\<rparr>) (t\<lparr>main_at := Sub_thread r\<rparr>)"
  | r where "main_at t = Sub_thread r" "hub_pump_joinable (hub_of t)" "t' = t\<lparr>main_at := Aborted\<rparr>"
  | r where "main_at t = Sub_thread r" "\<not> hub_pump_joinable (hub_of t)"
      "t' = upd_hub (\<lambda>h. h\<lparr>hub_pump_joinable := True\<rparr>) (t\<lparr>pump_at := At_check, main_at := Sub_push r\<rparr>)"
  | r where "main_at t = Sub_push r"
      "t' = upd_hub (\<lambda>h. h\<lparr>hub_subscribers := hub_subscribers h @ [r]\<rparr>)
              (t\<lparr>mu := None, main_at := Idle, subscribed := Some True\<rparr>)"
  | r where "main_at t = Unsub_lock r" "mu t = None" "t' = t\<lparr>mu := Some Event_loop, main_at := Unsub_erase r\<rparr>"
  | r where "main_at t = Unsub_erase r" "removeAll r (subs t) = []" "hub_running (hub_of t)"
      "t' = upd_hub (\<lambda>h. h\<lparr>hub_subscribers := [], hub_running := False, hub_pump_joinable := False\<rparr>)
              (t\<lparr>mu := None, main_at := Unsub_join, to_join := hub_pump_joinable (hub_of t)\<rparr>)"
  | r where "main_at t = Unsub_erase r" "removeAll r (subs t) \<noteq> [] \<or> \<not> hub_running (hub_of t)"
      "t' = upd_hub (\<lambda>h. h\<lparr>hub_subscribers := removeAll r (hub_subscribers h)\<rparr>) (t\<lparr>mu := None, main_at := Idle\<rparr>)"
  | "main_at t = Unsub_join" "\<not> to_join t" "t' = t\<lparr>main_at := Idle\<rparr>"
  | "main_at t = Unsub_join" "to_join t" "pump_at t = Ended"
      "t' = t\<lparr>to_join := False, pump_at := No_thread, main_at := Idle\<rparr>"
  | "main_at t = Sprop_lock" "mu t = None" "t' = t\<lparr>mu := Some Event_loop, main_at := Sprop_read\<rparr>"
  | "main_at t = Sprop_read" "t' = t\<lparr>sprop := sprop_parameter_sets (hub_of t), mu := None, main_at := Idle\<rparr>"
  | "main_at t = Del_flag" "t' = upd_hub (\<lambda>h. h\<lparr>hub_running := False\<rparr>) (t\<lparr>main_at := Del_join\<rparr>)"
  | "main_at t = Del_join" "\<not> hub_pump_joinable (hub_of t)" "t' = t\<lparr>main_at := Gone\<rparr>"
  | "main_at t = Del_join" "hub_pump_joinable (hub_of t)" "pump_at t = Ended"
      "t' = upd_hub (\<lambda>h. h\<lparr>hub_pump_joinable := False\<rparr>) (t\<lparr>pump_at := No_thread, main_at := Gone\<rparr>)"
proof (cases "main_at t")
  case (Sub_lock r)
  show ?thesis using assms Sub_lock
    by (intro that(1) [OF Sub_lock]) (simp_all add: main_action_def split: if_splits)
next
  case (Sub_check r)
  show ?thesis using assms Sub_check by (intro that(2) [OF Sub_check]) (auto simp: main_action_def)
next
  case (Sub_join r)
  show ?thesis
  proof (cases "hub_pump_joinable (hub_of t)")
    case True
    with assms Sub_join show ?thesis
      by (intro that(4) [OF Sub_join True]) (simp_all add: main_action_def split: if_splits)
  next
    case False
    with assms Sub_join show ?thesis by (intro that(3) [OF Sub_join False]) (simp add: main_action_def)
  qed
next
  case (Sub_start r)
  then show ?thesis by (rule that(5))
next
  case (Sub_run r)
  show ?thesis using assms Sub_run by (intro that(6) [OF Sub_run]) (simp add: main_action_def)
next
  case (Sub_thread r)
  show ?thesis
  proof (cases "hub_pump_joinable (hub_of t)")
    case True
    with assms Sub_thread show ?thesis by (intro that(7) [OF Sub_thread True]) (simp add: main_action_def)
  next
    case False
    with assms Sub_thread show ?thesis by (intro that(8) [OF Sub_thread False]) (simp add: main_action_def)
  qed
next
  case (Sub_push r)
  show ?thesis using assms Sub_push by (intro that(9) [OF Sub_push]) (simp add: main_action_def)
next
  case (Unsub_lock r)
  show ?thesis using assms Unsub_lock
    by (intro that(10) [OF Unsub_lock]) (simp_all add: main_action_def split: if_splits)
next
  case (Unsub_erase r)
  show ?thesis
  proof (cases "removeAll r (subs t) = [] \<and> hub_running (hub_of t)")
    case True
    with assms Unsub_erase show ?thesis
      by (intro that(11) [OF Unsub_erase]) (simp_all add: main_action_def upd_hub_def)
  next
    case False
    with assms Unsub_erase show ?thesis
      by (intro that(12) [OF Unsub_erase]) (auto simp: main_action_def upd_hub_def)
  qed
next
  case Unsub_join
  show ?thesis
  proof (cases "to_join t")
    case True
    with assms Unsub_join show ?thesis
      by (intro that(14) [OF Unsub_join True]) (simp_all add: main_action_def split: if_splits)
  next
    case False
    with assms Unsub_join show ?thesis by (intro that(13) [OF Unsub_join False]) (simp add: main_action_def)
  qed
next
  case Sprop_lock
  show ?thesis using assms Sprop_lock
    by (intro that(15) [OF Sprop_lock]) (simp_all add: main_action_def split: if_splits)
next
  case Sprop_read
  show ?thesis using assms Sprop_read by (intro that(16) [OF Sprop_read]) (simp add: main_action_def)
next
  case Del_flag
  show ?thesis using assms Del_flag by (intro that(17) [OF Del_flag]) (simp add: main_action_def)
next
  case Del_join
  show ?thesis
  proof (cases "hub_pump_joinable (hub_of t)")
    case True
    with assms Del_join show ?thesis
      by (intro that(19) [OF Del_join True]) (simp_all add: main_action_def split: if_splits)
  next
    case False
    with assms Del_join show ?thesis by (intro that(18) [OF Del_join False]) (simp add: main_action_def)
  qed
next
  case Idle
  with assms show ?thesis by (simp add: main_action_def)
next
  case Aborted
  with assms show ?thesis by (simp add: main_action_def)
next
  case Gone
  with assms show ?thesis by (simp add: main_action_def)
qed

lemma main_keeps_lock:
  assumes "main_action t = Some t'" and "lock_ok t" and "thread_ok t"
  shows "lock_ok t'"
  using assms(1)
proof (cases rule: main_action_cases)
  case (sub_start r)
  with assms(1) show ?thesis by (rule main_start_cases) (use assms(2) sub_start in \<open>auto simp: lock_ok_def\<close>)
qed (use assms(2,3) in \<open>auto simp: lock_ok_def thread_ok_def\<close>)

lemma main_keeps_thread:
  assumes "main_action t = Some t'" and "thread_ok t"
  shows "thread_ok t'"
  using assms(1)
proof (cases rule: main_action_cases)
  case (sub_start r)
  with assms(1) show ?thesis
    by (rule main_start_cases) (use assms(2) sub_start in \<open>auto simp: thread_ok_def source_is_open_def\<close>)
qed (use assms(2) in \<open>auto simp: thread_ok_def source_is_open_def\<close>)

lemma main_keeps_list:
  assumes "main_action t = Some t'" and "list_ok t" and "thread_ok t"
  shows "list_ok t'"
  using assms(1)
proof (cases rule: main_action_cases)
  case (sub_start r)
  with assms(1) show ?thesis
    by (rule main_start_cases) (use assms(2,3) sub_start in \<open>auto simp: list_ok_def thread_ok_def\<close>)
qed (use assms(2,3) in \<open>auto simp: list_ok_def thread_ok_def distinct_removeAll\<close>)

definition threads_ok :: "threads \<Rightarrow> bool" where
  "threads_ok t \<longleftrightarrow> lock_ok t \<and> thread_ok t \<and> list_ok t"

lemma threads_new_ok: "threads_ok (threads_new c w)"
  by (auto simp: threads_ok_def threads_ok_defs threads_new_def hub_new_def source_is_open_def Let_def
      split: prod.split)

lemma main_work_keeps:
  assumes "threads_ok t" and "main_at t = Idle" and "main_work (med t) m"
  shows "threads_ok (t\<lparr>med := m\<rparr>)"
proof -
  have "ready (heap m) r" if "r \<in> set (subs t)" for r
    using assms that by (simp add: main_work_def threads_ok_def list_ok_def ready_def)
  then show ?thesis using assms by (simp add: threads_ok_def threads_ok_defs main_work_def)
qed

lemma thread_step_ok: "thread_step t t' \<Longrightarrow> threads_ok t \<Longrightarrow> threads_ok t'"
proof (induction rule: thread_step.induct)
  case (pump t t')
  then show ?case using pump_keeps_lock pump_keeps_thread pump_keeps_list by (simp add: threads_ok_def)
next
  case (main t t')
  then show ?case using main_keeps_lock main_keeps_thread main_keeps_list by (simp add: threads_ok_def)
next
  case (work t m)
  then show ?case using main_work_keeps by simp
qed (auto simp: threads_ok_def threads_ok_defs)

lemma threads_reach_ok: "threads_reach t \<Longrightarrow> threads_ok t"
  by (induction rule: threads_reach.induct) (auto intro: threads_new_ok thread_step_ok)

section \<open>Nobody waits for ever\<close>

lemma alive_acts:
  assumes "threads_ok t" and "alive (pump_at t)" and "mu t = None \<or> mu t = Some Pump_thread"
  shows "pump_action t \<noteq> None"
proof (cases "pump_at t")
  case At_read
  with assms(1) have "source_is_open (hub_of t)" by (simp add: threads_ok_def thread_ok_def)
  with At_read show ?thesis by (auto simp: pump_action_def source_is_open_def split: prod.splits)
next
  case (At_nals ok nals)
  then have "mu t = None" using assms(1,3) by (auto simp: threads_ok_def lock_ok_def)
  with At_nals show ?thesis by (cases nals) (auto simp: pump_action_def)
next
  case (In_nal ok n ns rs)
  then show ?thesis by (cases rs) (auto simp: pump_action_def)
qed (use assms(2) in \<open>simp_all add: pump_action_def\<close>)

lemma main_blocked:
  assumes "main_action t = None" and "main_at t \<noteq> Idle" and "main_at t \<noteq> Gone" and "main_at t \<noteq> Aborted"
  shows "(\<exists>r. main_at t = Sub_lock r \<or> main_at t = Unsub_lock r \<or> main_at t = Sprop_lock) \<and> mu t \<noteq> None \<or>
    (\<exists>r. main_at t = Sub_join r) \<and> hub_pump_joinable (hub_of t) \<and> pump_at t \<noteq> Ended \<or>
    main_at t = Unsub_join \<and> to_join t \<and> pump_at t \<noteq> Ended \<or>
    main_at t = Del_join \<and> hub_pump_joinable (hub_of t) \<and> pump_at t \<noteq> Ended"
  using assms by (cases "main_at t") (auto simp: main_action_def Let_def split: if_splits prod.splits)

lemma not_alive_iff: "\<not> alive p \<longleftrightarrow> p = No_thread \<or> p = Ended"
  by (cases p) auto

lemma locked_never_blocks:
  assumes "threads_ok t" and "has_lock (main_at t)"
  shows "main_action t \<noteq> None"
proof
  assume "main_action t = None"
  moreover have "main_at t \<noteq> Idle" "main_at t \<noteq> Gone" "main_at t \<noteq> Aborted" using assms(2) by auto
  ultimately have j: "\<exists>r. main_at t = Sub_join r" "hub_pump_joinable (hub_of t)" "pump_at t \<noteq> Ended"
    using main_blocked [of t] assms(2) by auto
  with assms(1) have "\<not> alive (pump_at t)" "pump_at t \<noteq> No_thread"
    by (auto simp: threads_ok_def thread_ok_def)
  with j(3) show False by (simp add: not_alive_iff)
qed

section \<open>How long a join can take\<close>

text \<open>
  The steps the thread has left once the flag is cleared: the NAL units of the turn it is in, each
  with a step for the mutex, one per subscriber and one to leave, and the steps after the loop.
\<close>

fun steps_left :: "pump_pc \<Rightarrow> nat \<Rightarrow> nat \<Rightarrow> nat" where
  "steps_left No_thread c k = 0"
| "steps_left Ended c k = 0"
| "steps_left At_flag c k = 1"
| "steps_left At_stop c k = 2"
| "steps_left At_check c k = 3"
| "steps_left (At_nals ok ns) c k = 4 + c * length ns"
| "steps_left (In_nal ok n ns rs) c k = 5 + length rs + c * length ns"
| "steps_left At_read c k = 5 + c * k"

definition read_ahead :: "Hub \<Rightarrow> nat" where
  "read_ahead h =
     (case hub_source h of None \<Rightarrow> 0 | Some s \<Rightarrow> (case source_read_nal s of (_, nals, _) \<Rightarrow> length nals))"

definition pump_left :: "threads \<Rightarrow> nat" where
  "pump_left t = steps_left (pump_at t) (2 + length (subs t)) (read_ahead (hub_of t))"

lemma pump_left_decreases:
  assumes "pump_action t = Some t'" and "\<not> hub_running (hub_of t)"
  shows "pump_left t' < pump_left t"
  using assms by (cases rule: pump_action_cases) (auto simp: pump_left_def read_ahead_def)

lemma joining_step:
  assumes "thread_step t t'" and "threads_ok t" and "joining (main_at t)"
  shows "\<not> joining (main_at t') \<or> joining (main_at t') \<and> pump_left t' < pump_left t"
  using assms
proof (induction rule: thread_step.induct)
  case (pump t t')
  then have "\<not> hub_running (hub_of t)"
    by (cases "main_at t") (auto simp: threads_ok_def thread_ok_def)
  with pump show ?case using pump_left_decreases pump_action_frame(3) by metis
next
  case (main t t')
  then show ?case by (cases rule: main_action_cases) auto
qed auto

text \<open>A run of the system.\<close>

definition run_of :: "(nat \<Rightarrow> threads) \<Rightarrow> nat \<Rightarrow> bool" where
  "run_of f n \<longleftrightarrow> (\<forall>i < n. thread_step (f i) (f (Suc i)))"

lemma run_reaches: "run_of f n \<Longrightarrow> threads_reach (f 0) \<Longrightarrow> i \<le> n \<Longrightarrow> threads_reach (f i)"
  by (induction i) (auto simp: run_of_def intro: threads_reach.step)

lemma run_joining:
  assumes "run_of f n" and "threads_reach (f 0)" and "\<forall>i \<le> n. joining (main_at (f i))"
  shows "i \<le> n \<Longrightarrow> pump_left (f i) + i \<le> pump_left (f 0)"
proof (induction i)
  case 0
  then show ?case by simp
next
  case (Suc i)
  then have "thread_step (f i) (f (Suc i))" "threads_ok (f i)"
    using assms run_reaches [OF assms(1,2)] threads_reach_ok by (auto simp: run_of_def)
  from joining_step [OF this] assms(3) Suc have "pump_left (f (Suc i)) < pump_left (f i)" by auto
  with Suc show ?case by simp
qed

section \<open>The coarse steps are runs of the fine ones\<close>

abbreviation pump_runs :: "threads \<Rightarrow> threads \<Rightarrow> bool" where
  "pump_runs \<equiv> (\<lambda>a b. pump_action a = Some b)\<^sup>*\<^sup>*"

abbreviation main_runs :: "threads \<Rightarrow> threads \<Rightarrow> bool" where
  "main_runs \<equiv> (\<lambda>a b. main_action a = Some b)\<^sup>*\<^sup>*"

definition frame_of :: "bytes \<Rightarrow> bool" where
  "frame_of n \<longleftrightarrow> nal_type_of n = kNalSlice \<or> nal_type_of n = kNalIdr"

definition serve_all :: "bytes \<Rightarrow> nat list \<Rightarrow> media \<Rightarrow> media" where
  "serve_all n rs m =
     (let (h, w) = broadcast n (frame_of n) (hub_ts_increment (hub m)) rs (heap m) (host m)
      in m\<lparr>heap := h, host := w\<rparr>)"

lemma broadcast_append:
  "broadcast n f i (xs @ ys) h w = (case broadcast n f i xs h w of (h, w) \<Rightarrow> broadcast n f i ys h w)"
  by (induction xs arbitrary: h w) (simp_all add: Let_def split: option.split prod.split)

lemma serve_all_Nil [simp]: "serve_all n [] m = m"
  by (simp add: serve_all_def)

lemma serve_all_Cons: "serve_all n (r # rs) m = serve_all n rs (serve_one n r m)"
  using broadcast_append [of n "frame_of n" "hub_ts_increment (hub m)" "[r]" rs "heap m" "host m"]
  by (simp add: serve_all_def serve_one_def frame_of_def Let_def del: broadcast.simps split: prod.split)

lemma serving_run:
  "pump_at t = In_nal ok n ns rs \<Longrightarrow>
     pump_runs t (t\<lparr>med := serve_all n rs (med t), mu := None, pump_at := At_nals ok ns\<rparr>)"
proof (induction rs arbitrary: t)
  case Nil
  then have "pump_action t = Some (t\<lparr>mu := None, pump_at := At_nals ok ns\<rparr>)" by (simp add: pump_action_def)
  then show ?case by (simp add: r_into_rtranclp)
next
  case (Cons r rs)
  let ?t = "t\<lparr>med := serve_one n r (med t), pump_at := In_nal ok n ns rs\<rparr>"
  have "pump_action t = Some ?t" using Cons.prems by (simp add: pump_action_def)
  moreover have "pump_runs ?t (?t\<lparr>med := serve_all n rs (med ?t), mu := None, pump_at := At_nals ok ns\<rparr>)"
    by (rule Cons.IH) simp
  ultimately show ?case by (simp add: serve_all_Cons converse_rtranclp_into_rtranclp)
qed

lemma on_nal_serves:
  assumes "n \<noteq> []"
  shows "on_nal n (med t) = serve_all n (subs t) (med (enter_nal ok n ns t))"
  using assms
  by (simp add: on_nal_def serve_all_def frame_of_def enter_nal_def upd_hub_def Let_def split: prod.split)

lemma enter_nal_leave:
  "mu t = None \<Longrightarrow>
     (enter_nal ok n ns t)\<lparr>med := m, mu := None, pump_at := p\<rparr> = t\<lparr>med := m, pump_at := p\<rparr>"
  by (simp add: enter_nal_def upd_hub_def split: prod.split)

lemma nal_run:
  assumes "pump_at t = At_nals ok (n # ns)" and "n \<noteq> []" and "mu t = None"
  shows "pump_runs t (t\<lparr>med := on_nal n (med t), pump_at := At_nals ok ns\<rparr>)"
proof (rule converse_rtranclp_into_rtranclp)
  show "pump_action t = Some (enter_nal ok n ns t)" using assms by (simp add: pump_action_def)
  have "pump_at (enter_nal ok n ns t) = In_nal ok n ns (subs t)" by simp
  from serving_run [OF this]
  show "pump_runs (enter_nal ok n ns t) (t\<lparr>med := on_nal n (med t), pump_at := At_nals ok ns\<rparr>)"
    unfolding enter_nal_leave [OF assms(3)] on_nal_serves [OF assms(2), of t ok ns] .
qed

lemma nals_run:
  "pump_at t = At_nals ok ns \<Longrightarrow> [] \<notin> set ns \<Longrightarrow> mu t = None \<Longrightarrow>
     pump_runs t (t\<lparr>med := fold on_nal ns (med t), pump_at := if ok then At_check else At_stop\<rparr>)"
proof (induction ns arbitrary: t)
  case Nil
  then have "pump_action t = Some (t\<lparr>pump_at := if ok then At_check else At_stop\<rparr>)" by (simp add: pump_action_def)
  then show ?case by (simp add: r_into_rtranclp)
next
  case (Cons n ns)
  let ?t = "t\<lparr>med := on_nal n (med t), pump_at := At_nals ok ns\<rparr>"
  have "pump_runs t ?t" using Cons.prems by (intro nal_run) auto
  moreover have "pump_runs ?t (?t\<lparr>med := fold on_nal ns (med ?t), pump_at := if ok then At_check else At_stop\<rparr>)"
    using Cons.prems by (intro Cons.IH) auto
  ultimately show ?case using rtranclp_trans by fastforce
qed

lemma on_nal_source:
  "on_nal n (m\<lparr>hub := (hub m)\<lparr>hub_source := x\<rparr>\<rparr>) =
     (on_nal n m)\<lparr>hub := (hub (on_nal n m))\<lparr>hub_source := x\<rparr>\<rparr>"
  by (simp add: on_nal_def Let_def split: prod.split)

lemma fold_on_nal_source:
  "fold on_nal ns (m\<lparr>hub := (hub m)\<lparr>hub_source := x\<rparr>\<rparr>) =
     (fold on_nal ns m)\<lparr>hub := (hub (fold on_nal ns m))\<lparr>hub_source := x\<rparr>\<rparr>"
  by (induction ns arbitrary: m) (simp_all add: on_nal_source)

lemma read_run:
  assumes "pump_at t = At_read" and "mu t = None" and "hub_source (hub_of t) = Some s"
    and "pump_body (med t) = (ok, m)"
  shows "pump_runs t (t\<lparr>med := m, pump_at := if ok then At_check else At_stop\<rparr>)"
proof -
  obtain k ns d s' where r: "source_read_nal s = (k, ns, d, s')" by (metis prod_cases4)
  then have ne: "[] \<notin> set ns" by (rule source.nals_nonempty)
  have m: "k = ok" "m = (fold on_nal ns (med t))\<lparr>hub := (hub (fold on_nal ns (med t)))\<lparr>hub_source := Some s'\<rparr>\<rparr>"
    using assms(3,4) r by (simp_all add: pump_body_def Let_def)
  let ?t2 = "upd_hub (\<lambda>h. h\<lparr>hub_source := Some s'\<rparr>) (t\<lparr>pump_at := At_nals ok ns\<rparr>)"
  have "pump_action t = Some ?t2" using assms(1,3) r m(1) by (simp add: pump_action_def upd_hub_def)
  moreover have "pump_runs ?t2 (?t2\<lparr>med := fold on_nal ns (med ?t2), pump_at := if ok then At_check else At_stop\<rparr>)"
    using ne assms(2) by (intro nals_run) simp_all
  ultimately show ?thesis
    unfolding m(2) by (simp add: upd_hub_def fold_on_nal_source converse_rtranclp_into_rtranclp)
qed

lemma exit_run:
  assumes "pump_at t = At_stop"
  shows "pump_runs t (t\<lparr>med := pump_exit (med t), pump_at := Ended\<rparr>)"
proof -
  let ?t1 = "upd_hub (\<lambda>h. h\<lparr>hub_source := map_option source_stop (hub_source h)\<rparr>) (t\<lparr>pump_at := At_flag\<rparr>)"
  have "pump_action t = Some ?t1" using assms by (simp add: pump_action_def)
  moreover have "pump_action ?t1 = Some (t\<lparr>med := pump_exit (med t), pump_at := Ended\<rparr>)"
    by (simp add: pump_action_def upd_hub_def pump_exit_def)
  ultimately show ?thesis by (meson converse_rtranclp_into_rtranclp rtranclp.rtrancl_refl)
qed

lemma turn_run:
  assumes "pump_at t = At_check" and "hub_running (hub_of t)" and "mu t = None"
    and "hub_source (hub_of t) = Some s"
  shows "\<exists>p. (p = At_check \<or> p = Ended) \<and> pump_runs t (t\<lparr>med := pump_step (med t), pump_at := p\<rparr>)"
proof -
  obtain ok m where b: "pump_body (med t) = (ok, m)" by fastforce
  let ?t3 = "t\<lparr>med := m, pump_at := if ok then At_check else At_stop\<rparr>"
  have "pump_action t = Some (t\<lparr>pump_at := At_read\<rparr>)" using assms(1,2) by (simp add: pump_action_def)
  moreover have "pump_runs (t\<lparr>pump_at := At_read\<rparr>) ?t3"
    using read_run [of "t\<lparr>pump_at := At_read\<rparr>" s ok m] assms(3,4) b by simp
  ultimately have run: "pump_runs t ?t3" by (rule converse_rtranclp_into_rtranclp)
  show ?thesis
  proof (cases ok)
    case True
    with run b assms(2) show ?thesis by (intro exI [of _ At_check]) (simp add: pump_step_def)
  next
    case False
    then have "pump_runs ?t3 (t\<lparr>med := pump_exit m, pump_at := Ended\<rparr>)" using exit_run [of ?t3] by simp
    with run have "pump_runs t (t\<lparr>med := pump_exit m, pump_at := Ended\<rparr>)" by (rule rtranclp_trans)
    then show ?thesis using False b assms(2) by (intro exI [of _ Ended]) (simp add: pump_step_def)
  qed
qed

lemma pump_exit_host: "pump_exit (m\<lparr>host := w\<rparr>) = (pump_exit m)\<lparr>host := w\<rparr>"
  by (simp add: pump_exit_def)

text \<open>The pump after the flag has been cleared, from its test or from inside a turn.\<close>

lemma stopped_run:
  assumes "mu t = None" and "\<not> hub_running (hub_of t)" and "subs t = []"
    and "pump_at t = (if busy then At_read else At_check)" and "source_is_open (hub_of t)"
  shows "pump_runs t (t\<lparr>med := pump_exit (if busy then snd (pump_body (med t)) else med t), pump_at := Ended\<rparr>)"
proof -
  let ?m = "if busy then snd (pump_body (med t)) else med t"
  have check: "pump_runs (t\<lparr>med := m, pump_at := At_check\<rparr>) (t\<lparr>med := m, pump_at := At_stop\<rparr>)"
    if "\<not> hub_running (hub m)" for m
    using that by (intro r_into_rtranclp) (simp add: pump_action_def)
  have stopped: "\<not> hub_running (hub (snd (pump_body (med t))))"
    using assms(2) pump_body_kept(2) by (metis prod.collapse)
  have "pump_runs t (t\<lparr>med := ?m, pump_at := At_stop\<rparr>)"
  proof (cases busy)
    case False
    with assms(4) have "t = t\<lparr>med := med t, pump_at := At_check\<rparr>" by simp
    with False check [OF assms(2)] show ?thesis by simp
  next
    case True
    obtain s where "hub_source (hub_of t) = Some s" using assms(5) by (auto simp: source_is_open_def)
    with True assms(1,4) read_run [of t s "fst (pump_body (med t))" "snd (pump_body (med t))"]
    have run: "pump_runs t (t\<lparr>med := ?m, pump_at := if fst (pump_body (med t)) then At_check else At_stop\<rparr>)" by simp
    show ?thesis
    proof (cases "fst (pump_body (med t))")
      case True
      with run \<open>busy\<close> check [OF stopped] show ?thesis by (simp add: rtranclp_trans)
    next
      case False
      with run show ?thesis by simp
    qed
  qed
  moreover have "pump_runs (t\<lparr>med := ?m, pump_at := At_stop\<rparr>) (t\<lparr>med := pump_exit ?m, pump_at := Ended\<rparr>)"
    using exit_run [of "t\<lparr>med := ?m, pump_at := At_stop\<rparr>"] by simp
  ultimately show ?thesis by (rule rtranclp_trans)
qed

lemma runs_are_steps:
  "pump_runs a b \<Longrightarrow> thread_step\<^sup>*\<^sup>* a b" "main_runs a b \<Longrightarrow> thread_step\<^sup>*\<^sup>* a b"
proof -
  show "pump_runs a b \<Longrightarrow> thread_step\<^sup>*\<^sup>* a b"
    by (induction rule: rtranclp_induct) (blast intro: rtranclp.rtrancl_into_rtrancl thread_step.pump)+
  show "main_runs a b \<Longrightarrow> thread_step\<^sup>*\<^sup>* a b"
    by (induction rule: rtranclp_induct) (blast intro: rtranclp.rtrancl_into_rtrancl thread_step.main)+
qed

text \<open>A \<open>subscribe\<close> that has to start the source, once an old thread has been joined.\<close>

lemma start_run:
  assumes "main_at t = Sub_start r" and "mu t = Some Event_loop" and "pump_at t = No_thread"
    and "\<not> hub_pump_joinable (hub_of t)" and "\<not> hub_running (hub_of t)"
  shows "\<exists>t'. main_runs t t' \<and> main_at t' = Idle \<and> mu t' = None \<and>
     (subscribed t', med t') = (Some (fst (hub_subscribe (Some r) (med t))), snd (hub_subscribe (Some r) (med t)))"
proof -
  obtain ok s w where st: "source_start (make_source (hub_cfg (hub_of t))) (host (med t)) = (ok, s, w)"
    by (metis prod_cases3)
  have idle: "(hub_of t)\<lparr>hub_pump_joinable := False\<rparr> = hub_of t" using assms(4) by simp
  show ?thesis
  proof (cases ok)
    case False
    let ?t1 = "t\<lparr>med := (med t)\<lparr>hub := (hub_of t)\<lparr>hub_source := None\<rparr>, host := w\<rparr>, mu := None,
        main_at := Idle, subscribed := Some False\<rparr>"
    have "main_action t = Some ?t1" using assms(1) st False by (simp add: main_action_def)
    then have "main_runs t ?t1" by blast
    then show ?thesis using st False assms(5) idle
      by (intro exI [of _ ?t1]) (simp add: hub_subscribe_def hub_start_pump_def)
  next
    case True
    let ?m1 = "(med t)\<lparr>hub := (hub_of t)\<lparr>hub_source := Some s\<rparr>, host := w\<rparr>"
    let ?t1 = "t\<lparr>med := ?m1, main_at := Sub_run r\<rparr>"
    let ?m2 = "?m1\<lparr>hub := (hub ?m1)\<lparr>hub_running := True\<rparr>\<rparr>"
    let ?t2 = "?t1\<lparr>med := ?m2, main_at := Sub_thread r\<rparr>"
    let ?m3 = "?m2\<lparr>hub := (hub ?m2)\<lparr>hub_pump_joinable := True\<rparr>\<rparr>"
    let ?t3 = "?t2\<lparr>med := ?m3, pump_at := At_check, main_at := Sub_push r\<rparr>"
    let ?t4 = "?t3\<lparr>med := ?m3\<lparr>hub := (hub ?m3)\<lparr>hub_subscribers := subs t @ [r]\<rparr>\<rparr>, mu := None, main_at := Idle,
        subscribed := Some True\<rparr>"
    have "main_action t = Some ?t1" using assms(1) st True by (simp add: main_action_def)
    moreover have "main_action ?t1 = Some ?t2" by (simp add: main_action_def upd_hub_def)
    moreover have "main_action ?t2 = Some ?t3" using assms(4) by (simp add: main_action_def upd_hub_def)
    moreover have "main_action ?t3 = Some ?t4" by (simp add: main_action_def upd_hub_def)
    ultimately have "main_runs t ?t4" by (meson rtranclp.rtrancl_into_rtrancl rtranclp.rtrancl_refl)
    then show ?thesis using st True assms(5) idle
      by (intro exI [of _ ?t4]) (simp add: hub_subscribe_def hub_start_pump_def)
  qed
qed

lemma subscribe_forgets_thread:
  "\<not> hub_running (hub m) \<Longrightarrow>
     hub_subscribe (Some r) (m\<lparr>hub := (hub m)\<lparr>hub_pump_joinable := False\<rparr>\<rparr>) = hub_subscribe (Some r) m"
  by (simp add: hub_subscribe_def hub_start_pump_def Let_def split: prod.split)

lemma subscribe_run:
  assumes "threads_ok t" and "main_at t = Sub_lock r" and "mu t = None"
  shows "\<exists>t'. main_runs t t' \<and> main_at t' = Idle \<and> mu t' = None \<and>
     (subscribed t', med t') = (Some (fst (hub_subscribe (Some r) (med t))), snd (hub_subscribe (Some r) (med t)))"
proof (cases "hub_running (hub_of t)")
  case True
  let ?t1 = "t\<lparr>mu := Some Event_loop, main_at := Sub_check r\<rparr>" and ?t2 = "t\<lparr>mu := Some Event_loop, main_at := Sub_push r\<rparr>"
  let ?t3 = "t\<lparr>med := (med t)\<lparr>hub := (hub_of t)\<lparr>hub_subscribers := subs t @ [r]\<rparr>\<rparr>, mu := None, main_at := Idle,
      subscribed := Some True\<rparr>"
  have "main_action t = Some ?t1" "main_action ?t1 = Some ?t2" "main_action ?t2 = Some ?t3"
    using assms True by (simp_all add: main_action_def upd_hub_def)
  then have "main_runs t ?t3" by (meson converse_rtranclp_into_rtranclp rtranclp.rtrancl_refl)
  then show ?thesis using True by (intro exI [of _ ?t3]) (simp add: hub_subscribe_def)
next
  case False
  then have "\<not> alive (pump_at t)" using assms(1,2) by (auto simp: threads_ok_def thread_ok_def)
  then have p: "pump_at t = No_thread \<or> pump_at t = Ended" by (simp add: not_alive_iff)
  have j: "hub_pump_joinable (hub_of t) \<longleftrightarrow> pump_at t = Ended"
    using assms(1,2) p by (auto simp: threads_ok_def thread_ok_def)
  let ?m = "(med t)\<lparr>hub := (hub_of t)\<lparr>hub_pump_joinable := False\<rparr>\<rparr>"
  let ?t2 = "t\<lparr>mu := Some Event_loop, main_at := Sub_join r\<rparr>"
  let ?t3 = "t\<lparr>med := ?m, mu := Some Event_loop, pump_at := No_thread, main_at := Sub_start r\<rparr>"
  have "main_action t = Some (t\<lparr>mu := Some Event_loop, main_at := Sub_check r\<rparr>)"
    "main_action (t\<lparr>mu := Some Event_loop, main_at := Sub_check r\<rparr>) = Some ?t2"
    using assms False by (simp_all add: main_action_def)
  moreover have "main_action ?t2 = Some ?t3"
  proof (cases "pump_at t = Ended")
    case True
    with j show ?thesis by (simp add: main_action_def upd_hub_def)
  next
    case False
    with j p have "?m = med t" "pump_at t = No_thread" by simp_all
    then have "?t3 = ?t2\<lparr>main_at := Sub_start r\<rparr>" by simp
    then show ?thesis using False j by (simp add: main_action_def)
  qed
  ultimately have run: "main_runs t ?t3" by (meson converse_rtranclp_into_rtranclp rtranclp.rtrancl_refl)
  obtain t' where t': "main_runs ?t3 t'" "main_at t' = Idle" "mu t' = None"
    "(subscribed t', med t') = (Some (fst (hub_subscribe (Some r) ?m)), snd (hub_subscribe (Some r) ?m))"
    using start_run [of ?t3 r] False by auto
  from run t'(1) have "main_runs t t'" by (rule rtranclp_trans)
  with t'(2-4) subscribe_forgets_thread [OF False] show ?thesis by (intro exI [of _ t']) simp
qed

text \<open>
  The oracle \<open>in_flight\<close> of Hub says where the pump is when the last subscriber leaves: between its
  test and \<open>read_nal\<close>, or before the test.  Only the counter of system calls differs, since the join
  is counted as one in Hub.
\<close>

definition same_but_ticks :: "media \<Rightarrow> media \<Rightarrow> bool" where
  "same_but_ticks m m' \<longleftrightarrow> (\<exists>w. m' = m\<lparr>host := w\<rparr> \<and> same_host (host m) w \<and> wire w = wire (host m))"

lemma unsubscribe_run:
  assumes "threads_ok t" and "main_at t = Unsub_lock r" and "mu t = None"
    and "hub_running (hub_of t) \<longrightarrow>
      pump_at t = (if in_flight (host (med t)) (tick (host (med t))) then At_read else At_check)"
  shows "\<exists>t'. thread_step\<^sup>*\<^sup>* t t' \<and> main_at t' = Idle \<and> mu t' = None \<and>
     same_but_ticks (med t') (hub_unsubscribe r (med t))"
proof -
  let ?h = "(hub_of t)\<lparr>hub_subscribers := removeAll r (subs t)\<rparr>"
  let ?t1 = "t\<lparr>mu := Some Event_loop, main_at := Unsub_erase r\<rparr>"
  have lock: "main_action t = Some ?t1" using assms(2,3) by (simp add: main_action_def)
  show ?thesis
  proof (cases "removeAll r (subs t) = [] \<and> hub_running (hub_of t)")
    case False
    let ?t2 = "t\<lparr>med := (med t)\<lparr>hub := ?h\<rparr>, mu := None, main_at := Idle\<rparr>"
    have "main_action ?t1 = Some ?t2" using False by (auto simp: main_action_def upd_hub_def)
    with lock have "main_runs t ?t2" by (meson converse_rtranclp_into_rtranclp rtranclp.rtrancl_refl)
    moreover have "hub_unsubscribe r (med t) = med ?t2" using False by (auto simp: hub_unsubscribe_def)
    ultimately show ?thesis
      by (intro exI [of _ ?t2]) (auto simp: same_but_ticks_def runs_are_steps intro: exI [of _ "host (med t)"])
  next
    case True
    let ?busy = "in_flight (host (med t)) (tick (host (med t)))"
    let ?m = "(med t)\<lparr>hub := ?h\<lparr>hub_running := False, hub_pump_joinable := False\<rparr>\<rparr>"
    let ?t2 = "t\<lparr>med := ?m, mu := None, main_at := Unsub_join, to_join := True\<rparr>"
    let ?final = "pump_exit (if ?busy then snd (pump_body ?m) else ?m)"
    have at: "hub_running (hub_of t)" "pump_at t = (if ?busy then At_read else At_check)"
      using True assms(4) by simp_all
    then have live: "alive (pump_at t)" by simp
    then have join: "hub_pump_joinable (hub_of t)" "source_is_open (hub_of t)"
      using assms(1,2) at by (auto simp: threads_ok_def thread_ok_def split: if_splits)
    then have "main_action ?t1 = Some ?t2"
      using True by (simp add: main_action_def upd_hub_def)
    with lock have "main_runs t ?t2" by (meson converse_rtranclp_into_rtranclp rtranclp.rtrancl_refl)
    then have "thread_step\<^sup>*\<^sup>* t ?t2" by (rule runs_are_steps)
    moreover have m: "med ?t2 = ?m" by simp
    have "pump_runs ?t2 (?t2\<lparr>med := pump_exit (if ?busy then snd (pump_body (med ?t2)) else med ?t2), pump_at := Ended\<rparr>)"
      by (rule stopped_run) (use True at join(2) in \<open>simp_all add: source_is_open_def\<close>)
    then have "pump_runs ?t2 (?t2\<lparr>med := ?final, pump_at := Ended\<rparr>)" unfolding m .
    then have "thread_step\<^sup>*\<^sup>* ?t2 (?t2\<lparr>med := ?final, pump_at := Ended\<rparr>)" by (rule runs_are_steps)
    moreover have "thread_step (?t2\<lparr>med := ?final, pump_at := Ended\<rparr>)
        (?t2\<lparr>med := ?final, pump_at := No_thread, main_at := Idle, to_join := False\<rparr>)"
      by (rule thread_step.main) (simp add: main_action_def)
    ultimately have run: "thread_step\<^sup>*\<^sup>* t (?t2\<lparr>med := ?final, pump_at := No_thread, main_at := Idle, to_join := False\<rparr>)"
      by (meson rtranclp.rtrancl_into_rtrancl rtranclp_trans)
    let ?w = "ticked (host (med t))"
    have "pump_body (?m\<lparr>host := ?w\<rparr>) = (fst (pump_body ?m), (snd (pump_body ?m))\<lparr>host := ?w\<rparr>)"
      using True by (intro pump_body_unheard) simp
    then have un: "hub_unsubscribe r (med t) = ?final\<lparr>host := ?w\<rparr>"
      using True by (simp add: hub_unsubscribe_def pump_join_def Let_def pump_exit_host)
    have "host ?final = host (med t)" using True pump_body_host [of ?m] by (simp add: pump_exit_def)
    with un have "same_but_ticks ?final (hub_unsubscribe r (med t))" by (auto simp: same_but_ticks_def)
    with run show ?thesis
      by (intro exI [of _ "?t2\<lparr>med := ?final, pump_at := No_thread, main_at := Idle, to_join := False\<rparr>"]) simp
  qed
qed

end
