(* ===== verification/HubRuns.thy ===== *)
theory HubRuns
  imports HubThreads
begin

text \<open>
  What holds of the hub's threads (theory HubThreads) however they are scheduled: safety, the absence
  of deadlock, the time a join takes, what unsubscribing means for the pump, and the one window in
  which a subscriber is lost.
\<close>

section \<open>Properties\<close>

text \<open>A schedule names the thread that acts next; it is one way the threads can go.\<close>

fun schedule :: "thread list \<Rightarrow> threads \<Rightarrow> threads option" where
  "schedule [] t = Some t"
| "schedule (Event_loop # ts) t = (case main_action t of None \<Rightarrow> None | Some t \<Rightarrow> schedule ts t)"
| "schedule (Pump_thread # ts) t = (case pump_action t of None \<Rightarrow> None | Some t \<Rightarrow> schedule ts t)"

lemma schedule_reach: "schedule ts t = Some t' \<Longrightarrow> threads_reach t \<Longrightarrow> threads_reach t'"
  by (induction ts t rule: schedule.induct)
     (auto intro: threads_reach.step thread_step.pump thread_step.main split: option.splits)

text \<open>
  C9: memory and thread safety of the hub, under every interleaving.  The thread handle is never
  overwritten while joinable; the mutex excludes; the pump reads from an open source; the streamers
  it is about to serve are on the list, exist and are connected; the source is replaced only when
  there is no pump thread; and after the destructor there is none.
\<close>

theorem threads_safe:
  assumes "threads_reach t"
  shows "main_at t \<noteq> Aborted \<and> \<not> (in_nal (pump_at t) \<and> has_lock (main_at t)) \<and>
     (pump_at t = At_read \<longrightarrow> source_is_open (hub_of t)) \<and>
     (\<forall>ok n ns rs r. pump_at t = In_nal ok n ns rs \<longrightarrow> r \<in> set rs \<longrightarrow>
        r \<in> set (subs t) \<and> ready (heap (med t)) r) \<and>
     (\<forall>r. main_at t = Sub_start r \<longrightarrow> pump_at t = No_thread) \<and>
     (main_at t = Gone \<longrightarrow> pump_at t = No_thread \<and> \<not> source_is_open (hub_of t))"
proof -
  from assms have ok: "lock_ok t" "thread_ok t" "list_ok t"
    using threads_reach_ok by (simp_all add: threads_ok_def)
  have "r \<in> set (subs t) \<and> ready (heap (med t)) r" if p: "pump_at t = In_nal ok n ns rs" "r \<in> set rs" for ok n ns rs r
  proof -
    obtain served where "subs t = served @ rs" using ok(1) p(1) unfolding lock_ok_def by blast
    with p(2) ok(3) show ?thesis by (simp add: list_ok_def)
  qed
  moreover have "main_at t = Gone \<Longrightarrow> \<not> source_is_open (hub_of t)" "main_at t = Gone \<Longrightarrow> pump_at t = No_thread"
    using ok(2) by (simp_all add: thread_ok_def)
  moreover have "\<not> (in_nal (pump_at t) \<and> has_lock (main_at t))" using ok(1) by (auto simp: lock_ok_def)
  ultimately show ?thesis using ok(2) by (auto simp: thread_ok_def)
qed

text \<open>
  The example: a hub on an empty file, two connected streamers, and the first one subscribed.
\<close>

definition sample_threads :: threads where
  "sample_threads =
     (let t = threads_new (SourceConfig_default\<lparr>cfg_source := ''a.h264''\<rparr>)
                (sample_os\<lparr>fs_open := \<lambda>_. Some (fopened [])\<rparr>)
      in t\<lparr>med := (med t)\<lparr>heap := [0 \<mapsto> sample_streamer, 1 \<mapsto> sample_streamer], next_ref := 2\<rparr>\<rparr>)"

lemma sample_threads_fields [simp]:
  "main_at sample_threads = Idle" "pump_at sample_threads = No_thread" "mu sample_threads = None"
  "subs sample_threads = []" "\<not> hub_running (hub_of sample_threads)"
  "\<not> hub_pump_joinable (hub_of sample_threads)"
  "hub_cfg (hub_of sample_threads) = SourceConfig_default\<lparr>cfg_source := ''a.h264''\<rparr>"
  "heap (med sample_threads) = [0 \<mapsto> sample_streamer, 1 \<mapsto> sample_streamer]"
  "fs_open (host (med sample_threads)) = (\<lambda>_. Some (fopened []))"
  by (simp_all add: sample_threads_def threads_new_def hub_new_def Let_def split: prod.split)

lemma sample_reach: "threads_reach sample_threads"
proof -
  let ?c = "SourceConfig_default\<lparr>cfg_source := ''a.h264''\<rparr>" and ?w = "sample_os\<lparr>fs_open := \<lambda>_. Some (fopened [])\<rparr>"
  let ?m = "(med (threads_new ?c ?w))\<lparr>heap := [0 \<mapsto> sample_streamer, 1 \<mapsto> sample_streamer], next_ref := 2\<rparr>"
  have "main_work (med (threads_new ?c ?w)) ?m"
    by (auto simp: main_work_def threads_new_def hub_new_subscribers split: if_splits)
  then have "thread_step (threads_new ?c ?w) ((threads_new ?c ?w)\<lparr>med := ?m\<rparr>)"
    by (intro thread_step.work) (simp_all add: threads_new_def)
  then show ?thesis unfolding sample_threads_def Let_def by (rule threads_reach.step [OF threads_reach.start])
qed

lemma sample_ready: "ready [0 \<mapsto> sample_streamer, Suc 0 \<mapsto> sample_streamer] 0"
  "ready [0 \<mapsto> sample_streamer, Suc 0 \<mapsto> sample_streamer] (Suc 0)"
  by (simp_all add: ready_def sample_streamer_def)

lemma sample_source:
  "source_start (make_source (SourceConfig_default\<lparr>cfg_source := ''a.h264''\<rparr>)) (host (med sample_threads)) =
     (True, File_source \<lparr>f_path = ''a.h264'', f_fps = 30, f_loop = True, f_file = Some (fopened []),
        f_reader = [], f_next_frame_time = 0\<rparr>, ticked (host (med sample_threads)))"
  by (simp add: make_source_def FileSource_new_def file_start_def SourceConfig_default_def
      reader_reset_def sample_threads_def threads_new_def sample_os_def)

definition sample_file :: FileSource where
  "sample_file = \<lparr>f_path = ''a.h264'', f_fps = 30, f_loop = True, f_file = Some (fopened []),
     f_reader = [], f_next_frame_time = 0\<rparr>"

text \<open>The state after the first streamer has been subscribed, with the pump at a given place.\<close>

definition sample_at :: "pump_pc \<Rightarrow> NalSource \<Rightarrow> threads" where
  "sample_at p s = sample_threads\<lparr>pump_at := p, mu := None, main_at := Idle, subscribed := Some True,
     med := (med sample_threads)\<lparr>host := ticked (host (med sample_threads)),
       hub := (hub_of sample_threads)\<lparr>hub_source := Some s, hub_running := True,
         hub_pump_joinable := True, hub_subscribers := [0]\<rparr>\<rparr>\<rparr>"

lemma sample_subscribes:
  "schedule (replicate 7 Event_loop) (sample_threads\<lparr>main_at := Sub_lock 0\<rparr>)
     = Some (sample_at At_check (File_source sample_file))"
  by (simp add: numeral_eq_Suc main_action_def upd_hub_def sample_source sample_at_def sample_file_def)

lemma sample_reads: "source_read_nal (File_source sample_file) = (False, [], None, File_source sample_file)"
proof -
  have "align_loop [] [] = (None, [], [])" by code_simp
  then have "read_nal (Some (fopened [])) [] = (False, None, [], Some (fopened []))"
    by (simp add: read_nal_def fopened_def)
  then show ?thesis
    by (simp add: sample_file_def file_read_nal_def fopened_def rewind_def reader_reset_def opt_list_def)
qed

lemma sample_ends:
  "schedule (replicate 4 Pump_thread) (sample_at At_check (File_source sample_file))
     = Some (sample_at At_flag (source_stop (File_source sample_file)))"
  by (simp add: numeral_eq_Suc pump_action_def upd_hub_def sample_reads sample_at_def
      del: source_stop.simps source_read_nal.simps)

lemma sample_at_reach:
  "threads_reach (sample_at At_check (File_source sample_file))"
  "threads_reach (sample_at At_flag (source_stop (File_source sample_file)))"
proof -
  have "threads_reach (sample_threads\<lparr>main_at := Sub_lock 0\<rparr>)"
    by (rule threads_reach.step [OF sample_reach thread_step.call_subscribe]) (simp_all add: sample_ready)
  from schedule_reach [OF sample_subscribes this]
  show "threads_reach (sample_at At_check (File_source sample_file))" .
  from schedule_reach [OF sample_ends this]
  show "threads_reach (sample_at At_flag (source_stop (File_source sample_file)))" .
qed

lemma sample_at_fields [simp]:
  "main_at (sample_at p s) = Idle" "pump_at (sample_at p s) = p" "mu (sample_at p s) = None"
  "subs (sample_at p s) = [0]" "hub_running (hub_of (sample_at p s))"
  "hub_source (hub_of (sample_at p s)) = Some s"
  "heap (med (sample_at p s)) = [0 \<mapsto> sample_streamer, 1 \<mapsto> sample_streamer]"
  by (simp_all add: sample_at_def)

lemma threads_safe_witness:
  "main_at (sample_at At_flag (source_stop (File_source sample_file))) \<noteq> Aborted"
  using threads_safe [OF sample_at_reach(2)] by simp

text \<open>
  C10: no deadlock.  In every reachable state in which the event loop is inside an operation of the
  hub, it or the pump can go on; and while it holds the mutex it is the event loop itself that can,
  so that it never waits for the pump with the mutex in its hands.
\<close>

theorem no_deadlock:
  assumes "threads_reach t" and "main_at t \<noteq> Idle" and "main_at t \<noteq> Gone"
  shows "(main_action t \<noteq> None \<or> pump_action t \<noteq> None) \<and> (has_lock (main_at t) \<longrightarrow> main_action t \<noteq> None)"
proof (cases "has_lock (main_at t)")
  case True
  with locked_never_blocks [OF threads_reach_ok [OF assms(1)]] show ?thesis by simp
next
  case False
  have ok: "threads_ok t" using assms(1) by (rule threads_reach_ok)
  have free: "mu t = None \<or> mu t = Some Pump_thread"
    using ok False by (cases "mu t"; cases "the (mu t)") (auto simp: threads_ok_def lock_ok_def)
  have "alive (pump_at t)" if none: "main_action t = None"
  proof -
    have "main_at t \<noteq> Aborted" using ok by (auto simp: threads_ok_def thread_ok_def)
    with main_blocked [OF none assms(2,3)] False
    have "mu t = Some Pump_thread \<or> pump_at t \<noteq> Ended \<and> (main_at t = Unsub_join \<and> to_join t \<or> hub_pump_joinable (hub_of t))"
      using free by auto
    then show ?thesis
    proof
      assume "mu t = Some Pump_thread"
      then have "in_nal (pump_at t)" using ok by (simp add: threads_ok_def lock_ok_def)
      then show ?thesis by (cases "pump_at t") auto
    next
      assume "pump_at t \<noteq> Ended \<and> (main_at t = Unsub_join \<and> to_join t \<or> hub_pump_joinable (hub_of t))"
      then have "pump_at t \<noteq> Ended" "pump_at t \<noteq> No_thread"
        using ok by (auto simp: threads_ok_def thread_ok_def)
      then show ?thesis using not_alive_iff by blast
    qed
  qed
  with alive_acts [OF ok _ free] show ?thesis using False by blast
qed

lemma no_deadlock_witness:
  "let t = (sample_at At_check (File_source sample_file))\<lparr>main_at := Unsub_lock 0\<rparr>
   in \<not> (main_action t = None \<and> pump_action t = None)"
proof -
  have "threads_reach ((sample_at At_check (File_source sample_file))\<lparr>main_at := Unsub_lock 0\<rparr>)"
    by (rule threads_reach.step [OF sample_at_reach(1) thread_step.call_unsubscribe]) simp
  from no_deadlock [OF this] show ?thesis by simp
qed

text \<open>
  C19: a join takes a bounded number of steps.  From any reachable state in which the event loop
  joins the pump, in \<open>unsubscribe\<close> or in the destructor, every run of the system leaves the join within
  as many steps as the pump has left: those for the NAL units it has in hand, and the end of the
  thread.
\<close>

theorem join_returns:
  assumes "threads_reach (f 0)" and "run_of f n" and "pump_left (f 0) < n"
  shows "\<exists>i \<le> n. \<not> joining (main_at (f i))"
proof (rule ccontr)
  assume "\<not> (\<exists>i \<le> n. \<not> joining (main_at (f i)))"
  then have "\<forall>i \<le> n. joining (main_at (f i))" by blast
  from run_joining [OF assms(2,1) this, of n] assms(3) show False by simp
qed

text \<open>The example: the only subscriber leaves while the pump is about to test its flag.\<close>

definition sample_plan :: "thread list" where
  "sample_plan = Event_loop # Event_loop # replicate 3 Pump_thread @ [Event_loop]"

definition sample_leaves :: "nat \<Rightarrow> threads" where
  "sample_leaves i = the (schedule (take i sample_plan)
     ((sample_at At_check (File_source sample_file))\<lparr>main_at := Unsub_lock 0\<rparr>))"

lemma sample_leaves_defined:
  assumes "i \<le> 6"
  shows "schedule (take i sample_plan) ((sample_at At_check (File_source sample_file))\<lparr>main_at := Unsub_lock 0\<rparr>)
     = Some (sample_leaves i)"
proof -
  have "i \<in> {0, 1, 2, 3, 4, 5, 6}" using assms by auto
  then have "schedule (take i sample_plan)
     ((sample_at At_check (File_source sample_file))\<lparr>main_at := Unsub_lock 0\<rparr>) \<noteq> None"
    by (elim insertE)
       (simp_all add: sample_plan_def numeral_eq_Suc main_action_def pump_action_def upd_hub_def sample_at_def)
  then show ?thesis by (simp add: sample_leaves_def)
qed

lemma schedule_append:
  "schedule (xs @ ys) t = (case schedule xs t of None \<Rightarrow> None | Some t \<Rightarrow> schedule ys t)"
  by (induction xs t rule: schedule.induct) (auto split: option.split)

lemma schedule_one_step: "schedule [x] t = Some t' \<Longrightarrow> thread_step t t'"
  by (cases x) (auto intro: thread_step.intros split: option.splits)

lemma sample_leaves_run: "run_of sample_leaves 6"
  unfolding run_of_def
proof (intro allI impI)
  fix i :: nat assume i: "i < 6"
  let ?t = "(sample_at At_check (File_source sample_file))\<lparr>main_at := Unsub_lock 0\<rparr>"
  have "length sample_plan = 6" by (simp add: sample_plan_def)
  then have "schedule (take i sample_plan @ [sample_plan ! i]) ?t = Some (sample_leaves (Suc i))"
    using sample_leaves_defined [of "Suc i"] i by (simp add: take_Suc_conv_app_nth)
  then have "schedule [sample_plan ! i] (sample_leaves i) = Some (sample_leaves (Suc i))"
    using sample_leaves_defined [of i] i by (simp add: schedule_append)
  then show "thread_step (sample_leaves i) (sample_leaves (Suc i))" by (rule schedule_one_step)
qed

lemma join_returns_witness:
  "joining (main_at (sample_leaves 2)) \<and> (\<exists>i \<le> 4. \<not> joining (main_at (sample_leaves (2 + i))))"
proof -
  let ?f = "\<lambda>i. sample_leaves (2 + i)"
  have "sample_leaves 0 = (sample_at At_check (File_source sample_file))\<lparr>main_at := Unsub_lock 0\<rparr>"
    by (simp add: sample_leaves_def)
  then have r: "threads_reach (sample_leaves 0)"
    using threads_reach.step [OF sample_at_reach(1) thread_step.call_unsubscribe [of _ 0]] by simp
  have "threads_reach (?f 0)" using run_reaches [OF sample_leaves_run r, of 2] by simp
  moreover have "run_of ?f 4" using sample_leaves_run by (simp add: run_of_def)
  moreover have "pump_left (sample_leaves 2) = 3" "main_at (sample_leaves 2) = Unsub_join"
    by (simp_all add: sample_leaves_def sample_plan_def numeral_eq_Suc main_action_def upd_hub_def sample_at_def pump_left_def)
  ultimately show ?thesis using join_returns [of ?f 4] by simp
qed

text \<open>
  C18: when a streamer has been erased from the list, the pump is done with it.  However the threads
  go on, as long as nobody subscribes it again, it stays off the list, no step of the pump changes
  it, and what the pump sends goes to other streamers, each on the list at that moment.
\<close>

definition addressed_to :: "nat set \<Rightarrow> store \<Rightarrow> (address \<times> bytes) list \<Rightarrow> bool" where
  "addressed_to R h ds \<longleftrightarrow>
     (\<forall>(a, p) \<in> set ds. \<exists>r \<in> R. \<exists>st. h r = Some st \<and> udp_peer (socket st) = Some a)"

lemma serve_one_sends:
  assumes "ready (heap m) r" and "n \<noteq> []"
  shows "\<exists>ds. wire (host (serve_one n r m)) = wire (host m) @ ds \<and> addressed_to {r} (heap m) ds"
proof -
  obtain h w where b: "broadcast n (nal_type_of n = kNalSlice \<or> nal_type_of n = kNalIdr)
      (hub_ts_increment (hub m)) [r] (heap m) (host m) = (h, w)" by fastforce
  from broadcast_effect [OF b _ _ assms(2)] assms(1) obtain ds where
    "wire w = wire (host m) @ ds" "\<exists>st k q. heap m r = Some st \<and> portion st n k q ds"
    by (force simp: length_Suc_conv)
  moreover have "host (serve_one n r m) = w" using b by (simp add: serve_one_def del: broadcast.simps)
  ultimately show ?thesis by (auto simp: portion_def addressed_to_def)
qed

lemma pump_action_touches:
  assumes "pump_action t = Some t'" and "threads_ok t"
  shows "(\<forall>r. r \<notin> set (subs t) \<longrightarrow> heap (med t') r = heap (med t) r) \<and>
    (\<exists>ds. wire (host (med t')) = wire (host (med t)) @ ds \<and> addressed_to (set (subs t)) (heap (med t)) ds)"
  using assms(1)
proof (cases rule: pump_action_cases)
  case (serve ok n nals r rs)
  then have "n \<noteq> []" and s: "\<exists>served. subs t = served @ r # rs"
    using assms(2) unfolding threads_ok_def lock_ok_def by blast+
  then have r: "r \<in> set (subs t)" by auto
  then have "ready (heap (med t)) r" using assms(2) by (simp add: threads_ok_def list_ok_def)
  from serve_one_sends [OF this \<open>n \<noteq> []\<close>] obtain ds where
    "wire (host (med t')) = wire (host (med t)) @ ds" "addressed_to {r} (heap (med t)) ds"
    using serve(2) by auto
  moreover have "addressed_to (set (subs t)) (heap (med t)) ds"
    using r calculation(2) unfolding addressed_to_def by fast
  moreover have "heap (med t') k = heap (med t) k" if "k \<notin> set (subs t)" for k
    using serve_one_keeps(3) [of k r n "med t"] that r serve(2) by auto
  ultimately show ?thesis by blast
qed (auto simp: addressed_to_def)

lemma unlisted_step:
  assumes "thread_step t t'" and "r \<notin> set (subs t)" and "newcomer (main_at t) \<noteq> Some r"
  shows "r \<notin> set (subs t')"
  using assms
proof (induction rule: thread_step.induct)
  case (pump t t')
  then show ?case using pump_action_frame(5) by simp
next
  case (main t t')
  from main(1) show ?case
  proof (cases rule: main_action_cases)
    case (sub_start q)
    with main(1) show ?thesis by (rule main_start_cases) (use main(2) in auto)
  qed (use main(2,3) in auto)
qed (auto simp: main_work_def)

theorem unsubscribed_for_good:
  assumes "threads_reach t0" and "main_at t0 = Unsub_erase r" and "main_action t0 = Some (f 0)"
    and "run_of f n" and "\<forall>i \<le> n. newcomer (main_at (f i)) \<noteq> Some r" and "pump_action (f n) = Some t'"
  shows "r \<notin> set (subs (f n)) \<and> heap (med t') r = heap (med (f n)) r \<and>
    (\<exists>ds. wire (host (med t')) = wire (host (med (f n))) @ ds \<and>
      addressed_to (set (subs (f n)) - {r}) (heap (med (f n))) ds)"
proof -
  have "r \<notin> set (subs (f 0))"
    using assms(3) by (cases rule: main_action_cases) (use assms(2) in auto)
  moreover have "i \<le> n \<Longrightarrow> r \<notin> set (subs (f 0)) \<Longrightarrow> r \<notin> set (subs (f i))" for i
  proof (induction i)
    case (Suc i)
    then show ?case using unlisted_step [of "f i" "f (Suc i)" r] assms(4,5) by (auto simp: run_of_def)
  qed
  ultimately have off: "r \<notin> set (subs (f n))" by blast
  have "threads_reach (f 0)" by (rule threads_reach.step [OF assms(1) thread_step.main [OF assms(3)]])
  from threads_reach_ok [OF run_reaches [OF assms(4) this]] have "threads_ok (f n)" by simp
  from pump_action_touches [OF assms(6) this] off show ?thesis by auto
qed

lemma unsubscribed_for_good_witness:
  "0 \<notin> set (subs (sample_leaves 4)) \<and> heap (med (sample_leaves 5)) 0 = heap (med (sample_leaves 4)) 0"
proof -
  let ?f = "\<lambda>i. sample_leaves (2 + i)"
  note eval = sample_leaves_def sample_plan_def numeral_eq_Suc main_action_def pump_action_def upd_hub_def sample_at_def
  have "sample_leaves 0 = (sample_at At_check (File_source sample_file))\<lparr>main_at := Unsub_lock 0\<rparr>"
    by (simp add: sample_leaves_def)
  then have "threads_reach (sample_leaves 0)"
    using threads_reach.step [OF sample_at_reach(1) thread_step.call_unsubscribe [of _ 0]] by simp
  then have r: "threads_reach (sample_leaves 1)" using run_reaches [OF sample_leaves_run, of 1] by simp
  have m: "main_at (sample_leaves 1) = Unsub_erase 0" "main_action (sample_leaves 1) = Some (?f 0)"
    "pump_action (?f 2) = Some (sample_leaves 5)" by (simp_all add: eval)
  have run: "run_of ?f 2" using sample_leaves_run by (simp add: run_of_def)
  have "i \<le> 2 \<Longrightarrow> main_at (?f i) = Unsub_join" for i :: nat
    by (cases i; cases "i - 1") (auto simp: eval le_Suc_eq)
  then have "\<forall>i \<le> 2. newcomer (main_at (?f i)) \<noteq> Some 0" by simp
  from unsubscribed_for_good [OF r m(1,2) run this m(3)] show ?thesis by (simp add: numeral_eq_Suc)
qed

text \<open>
  C13: the steps of theory Hub are runs of the threads.  With the mutex free, a pump before its loop
  test that is let run alone gets, through all its single actions, exactly to the state after
  \<open>pump_step\<close>; and an event loop that calls \<open>subscribe\<close> gets, through its own, to the state and the
  result of \<open>hub_subscribe\<close>, without waiting.  One that calls \<open>unsubscribe\<close>, with the pump where the
  oracle \<open>in_flight\<close> says, gets with the pump's help through the join to the state after
  \<open>hub_unsubscribe\<close>, up to the counter of system calls.
\<close>

theorem coarse_steps_are_runs:
  assumes "threads_reach t" and "mu t = None"
  shows "(pump_at t = At_check \<and> hub_running (hub_of t) \<longrightarrow>
      (\<exists>t'. pump_runs t t' \<and> med t' = pump_step (med t) \<and> mu t' = None \<and>
        pump_at t' \<in> {At_check, Ended} \<and> main_at t' = main_at t)) \<and>
    (main_at t = Sub_lock r \<longrightarrow>
      (\<exists>t'. main_runs t t' \<and> med t' = snd (hub_subscribe (Some r) (med t)) \<and>
        subscribed t' = Some (fst (hub_subscribe (Some r) (med t))) \<and> mu t' = None \<and> main_at t' = Idle)) \<and>
    (main_at t = Unsub_lock r \<and> (hub_running (hub_of t) \<longrightarrow>
        pump_at t = (if in_flight (host (med t)) (tick (host (med t))) then At_read else At_check)) \<longrightarrow>
      (\<exists>t'. thread_step\<^sup>*\<^sup>* t t' \<and> same_but_ticks (med t') (hub_unsubscribe r (med t)) \<and>
        mu t' = None \<and> main_at t' = Idle))"
proof (intro conjI impI)
  have ok: "threads_ok t" using assms(1) by (rule threads_reach_ok)
  assume p: "pump_at t = At_check \<and> hub_running (hub_of t)"
  then have "source_is_open (hub_of t)" using ok by (simp add: threads_ok_def thread_ok_def)
  then obtain s where "hub_source (hub_of t) = Some s" by (auto simp: source_is_open_def)
  with p assms(2) turn_run [of t s] obtain q where q: "q = At_check \<or> q = Ended"
    "pump_runs t (t\<lparr>med := pump_step (med t), pump_at := q\<rparr>)" by auto
  then show "\<exists>t'. pump_runs t t' \<and> med t' = pump_step (med t) \<and> mu t' = None \<and>
        pump_at t' \<in> {At_check, Ended} \<and> main_at t' = main_at t"
    using assms(2) by (intro exI [of _ "t\<lparr>med := pump_step (med t), pump_at := q\<rparr>"]) auto
next
  assume "main_at t = Sub_lock r"
  from subscribe_run [OF threads_reach_ok [OF assms(1)] this assms(2)]
  show "\<exists>t'. main_runs t t' \<and> med t' = snd (hub_subscribe (Some r) (med t)) \<and>
        subscribed t' = Some (fst (hub_subscribe (Some r) (med t))) \<and> mu t' = None \<and> main_at t' = Idle"
    by auto
next
  assume "main_at t = Unsub_lock r \<and> (hub_running (hub_of t) \<longrightarrow>
      pump_at t = (if in_flight (host (med t)) (tick (host (med t))) then At_read else At_check))"
  then show "\<exists>t'. thread_step\<^sup>*\<^sup>* t t' \<and> same_but_ticks (med t') (hub_unsubscribe r (med t)) \<and>
        mu t' = None \<and> main_at t' = Idle"
    using unsubscribe_run [OF threads_reach_ok [OF assms(1)] _ assms(2)] by blast
qed

lemma coarse_steps_are_runs_witness:
  "\<exists>t'. pump_runs (sample_at At_check (File_source sample_file)) t' \<and>
     med t' = pump_step (med (sample_at At_check (File_source sample_file)))"
  using coarse_steps_are_runs [OF sample_at_reach(1)] by auto

text \<open>
  C30: the one window in which a subscriber is lost.  When the source has ended and the pump thread
  has not yet cleared the flag, a \<open>subscribe\<close> reports success without starting anything: the pump
  then ends, the streamer stays on the list, and nothing is sent to anybody until the event loop
  calls the hub again.
\<close>

abbreviation undisturbed :: "threads \<Rightarrow> threads \<Rightarrow> bool" where
  "undisturbed \<equiv> (\<lambda>a b. thread_step a b \<and> main_at b = Idle)\<^sup>*\<^sup>*"

lemma ended_is_silent:
  assumes "undisturbed t t'" and "main_at t = Idle" and "pump_at t = Ended"
  shows "main_at t' = Idle \<and> pump_at t' = Ended \<and> wire (host (med t')) = wire (host (med t))"
  using assms
proof (induction rule: rtranclp_induct)
  case base
  then show ?case by simp
next
  case (step a b)
  then have "main_at a = Idle" "pump_at a = Ended" "wire (host (med a)) = wire (host (med t))" by simp_all
  with step(2) show ?case by (auto elim!: thread_step.cases simp: pump_action_def main_action_def main_work_def)
qed

theorem late_subscriber_unserved:
  assumes "threads_reach t" and "main_at t = Idle" and "pump_at t = At_flag"
    and "ready (heap (med t)) r" and "r \<notin> set (subs t)"
  shows "\<exists>t'. thread_step\<^sup>*\<^sup>* t t' \<and> main_at t' = Idle \<and> subscribed t' = Some True \<and> r \<in> set (subs t') \<and>
    \<not> hub_running (hub_of t') \<and>
    (\<forall>t''. undisturbed t' t'' \<longrightarrow> wire (host (med t'')) = wire (host (med t)))"
proof -
  have ok: "lock_ok t" "thread_ok t" using threads_reach_ok [OF assms(1)] by (simp_all add: threads_ok_def)
  have run: "hub_running (hub_of t)" using ok(2) assms(2,3) by (auto simp: thread_ok_def)
  have mu: "mu t = None"
    using ok(1) assms(2,3) by (cases "mu t"; cases "the (mu t)") (auto simp: lock_ok_def)
  let ?t1 = "t\<lparr>main_at := Sub_lock r\<rparr>" and ?t2 = "t\<lparr>mu := Some Event_loop, main_at := Sub_check r\<rparr>"
  let ?t3 = "t\<lparr>mu := Some Event_loop, main_at := Sub_push r\<rparr>"
  let ?t4 = "t\<lparr>med := (med t)\<lparr>hub := (hub_of t)\<lparr>hub_subscribers := subs t @ [r]\<rparr>\<rparr>, mu := None,
      main_at := Idle, subscribed := Some True\<rparr>"
  let ?t5 = "upd_hub (\<lambda>h. h\<lparr>hub_running := False\<rparr>) (?t4\<lparr>pump_at := Ended\<rparr>)"
  have "thread_step t ?t1" using assms(2,4,5) by (rule thread_step.call_subscribe)
  moreover have "thread_step ?t1 ?t2" "thread_step ?t2 ?t3" "thread_step ?t3 ?t4"
    by (rule thread_step.main, simp add: main_action_def upd_hub_def mu run)+
  moreover have "thread_step ?t4 ?t5"
    using assms(3) by (intro thread_step.pump) (simp add: pump_action_def)
  ultimately have "thread_step\<^sup>*\<^sup>* t ?t5"
    by (meson converse_rtranclp_into_rtranclp rtranclp.rtrancl_refl)
  moreover have "wire (host (med t'')) = wire (host (med t))" if "undisturbed ?t5 t''" for t''
    using ended_is_silent [OF that] by simp
  ultimately show ?thesis by (intro exI [of _ ?t5]) simp
qed

lemma late_subscriber_unserved_witness:
  "\<exists>t'. thread_step\<^sup>*\<^sup>* (sample_at At_flag (source_stop (File_source sample_file))) t' \<and>
     subscribed t' = Some True \<and> 1 \<in> set (subs t') \<and> \<not> hub_running (hub_of t')"
  using late_subscriber_unserved [OF sample_at_reach(2), of 1] sample_ready by auto

end
