(* ===== verification/Service.thy ===== *)
theory Service
  imports Server
begin

text \<open>
  The server as a service: an abstract machine that knows of each connection only the state its
  session is in.  Every run of the server, with any events and any scheduling of the pump, is a run of
  that machine, and the streams it keeps are those of the connections in the state \<open>PLAYING\<close>.
\<close>

section \<open>The abstract machine\<close>

text \<open>
  A connection appears in \<open>INIT\<close>, moves along the diagram at the top of src/rtsp/session.hpp by one
  request at a time, and goes away.
\<close>

type_synonym service = "int \<Rightarrow> State option"

inductive service_step :: "service \<Rightarrow> service \<Rightarrow> bool" where
  arrives: "A fd = None \<Longrightarrow> service_step A (A(fd \<mapsto> INIT))"
| asks: "A fd = Some st \<Longrightarrow> moves st m st' \<Longrightarrow> service_step A (A(fd \<mapsto> st'))"
| leaves: "A fd = Some st \<Longrightarrow> service_step A (A(fd := None))"

definition phase :: "server \<Rightarrow> service" where
  "phase srv = (\<lambda>fd. map_option state (clients srv fd))"

definition server_step :: "(header_table \<Rightarrow> header_table) \<Rightarrow> server \<Rightarrow> server \<Rightarrow> bool" where
  "server_step iter a b \<longleftrightarrow>
     (\<exists>ev. handle_event iter ev a = Inr b) \<or> b = a\<lparr>plant := pump_step (plant a)\<rparr>"

lemma reaches_steps: "reaches iter a b \<longleftrightarrow> (server_step iter)\<^sup>*\<^sup>* a b"
proof
  show "reaches iter a b \<Longrightarrow> (server_step iter)\<^sup>*\<^sup>* a b"
    by (induction rule: reaches.induct) (auto simp: server_step_def intro: rtranclp.rtrancl_into_rtrancl)
  show "(server_step iter)\<^sup>*\<^sup>* a b \<Longrightarrow> reaches iter a b"
    by (induction rule: rtranclp_induct) (auto simp: server_step_def intro: reaches.intros)
qed

section \<open>The simulation\<close>

definition asked :: "State \<Rightarrow> State \<Rightarrow> bool" where
  "asked st st' \<longleftrightarrow> (\<exists>m. moves st m st')"

lemma feed_loop_asked:
  assumes "feed_loop iter s m = (out, res, s', m')" and "state s \<noteq> CLOSED"
  shows "asked\<^sup>*\<^sup>* (state s) (state s')"
proof -
  have one: "state s1 = state s \<or> asked (state s) (state s1)"
    if "handle req (s\<lparr>rx_buffer := b\<rparr>) m = (resp, sent, s1, m1)" "state s \<noteq> CLOSED" for req s b m resp sent s1 m1
    using handle_cases [OF that(1)] that(2) by (auto simp: asked_def)
  show ?thesis
    using assms
  proof (induction rule: feed_loop_rule)
    case (closed s m n req resp sent s1 m1)
    then show ?case using one [OF closed(3)] by auto
  next
    case (more s m n req resp sent s1 m1 out res s' m')
    then show ?case using one [OF more(3)] by (auto intro: converse_rtranclp_into_rtranclp)
  qed simp_all
qed

lemma feed_asked:
  assumes "feed iter data s m = (out, res, s', m')" and "state s \<noteq> CLOSED"
  shows "asked\<^sup>*\<^sup>* (state s) (state s')"
  using assms feed_loop_asked [of iter "s\<lparr>rx_buffer := rx_buffer s @ data\<rparr>" m out res s' m']
  by (auto simp: feed_def Let_def split: if_splits)

lemma asked_steps:
  assumes "asked\<^sup>*\<^sup>* st st'" and "A fd = Some st"
  shows "service_step\<^sup>*\<^sup>* A (A(fd \<mapsto> st'))"
  using assms(1)
proof (induction rule: rtranclp_induct)
  case base
  then show ?case using assms(2) by (simp add: fun_upd_idem)
next
  case (step y z)
  then obtain m where "moves y m z" by (auto simp: asked_def)
  then have "service_step (A(fd \<mapsto> y)) ((A(fd \<mapsto> y))(fd \<mapsto> z))" by (intro service_step.asks) auto
  then have "service_step (A(fd \<mapsto> y)) (A(fd \<mapsto> z))" by (simp only: fun_upd_upd)
  with step.IH show ?case by (rule rtranclp.rtrancl_into_rtrancl [of service_step])
qed

lemma phase_update [simp]:
  "phase (srv\<lparr>clients := (clients srv)(fd := c), plant := m, sent_to := t\<rparr>) = (phase srv)(fd := map_option state c)"
  "phase (srv\<lparr>plant := m\<rparr>) = phase srv" "phase (drop_client fd srv) = (phase srv)(fd := None)"
  by (auto simp: phase_def)

lemma handle_event_service:
  assumes "server_ok srv" and "handle_event iter ev srv = Inr srv'"
  shows "service_step\<^sup>*\<^sup>* (phase srv) (phase srv')"
proof (cases "ev_fd ev = listener_fd srv")
  case True
  let ?fd = "accept_one (ev_accept ev)"
  from True assms(2) accept_client_cases [of ev srv]
  have "phase srv' = phase srv \<or> phase srv ?fd = None \<and> phase srv' = (phase srv)(?fd \<mapsto> INIT)"
    by (auto simp: handle_event_def phase_def)
  then show ?thesis using service_step.arrives [of "phase srv" ?fd] by auto
next
  case False
  show ?thesis
  proof (cases "clients srv (ev_fd ev)")
    case None
    with False assms show ?thesis by (simp add: handle_event_def)
  next
    case (Some s)
    let ?fd = "ev_fd ev"
    have at: "phase srv ?fd = Some (state s)" using Some by (simp add: phase_def)
    have open_s: "state s \<noteq> CLOSED" using assms(1) Some by (simp add: server_ok_def)
    from assms(2) False Some show ?thesis
    proof (cases rule: handle_event_cases)
      case drop
      then show ?thesis using service_step.leaves [of "phase srv" ?fd, OF at] by simp
    next
      case (fed buffer out s' m' taken)
      then show ?thesis using asked_steps [OF feed_asked [OF fed(1) open_s], of "phase srv" ?fd] at by simp
    next
      case (ended buffer out s' m' taken)
      have "service_step ((phase srv)(?fd \<mapsto> state s')) (((phase srv)(?fd \<mapsto> state s'))(?fd := None))"
        by (intro service_step.leaves) auto
      with asked_steps [OF feed_asked [OF ended(1) open_s], of "phase srv" ?fd] at show ?thesis
        unfolding ended(3) by (simp add: rtranclp.rtrancl_into_rtrancl)
    qed
  qed
qed

interpretation service: simulation "server_step iter" service_step "\<lambda>srv A. A = phase srv \<and> server_ok srv" for iter
proof unfold_locales
  fix c a c' assume m: "a = phase c \<and> server_ok c" and step: "server_step iter c c'"
  then have "server_ok c'" by (auto simp: server_step_def intro: handle_event_ok pump_server_ok)
  moreover have "service_step\<^sup>*\<^sup>* a (phase c')"
    using m step handle_event_service by (auto simp: server_step_def)
  ultimately show "\<exists>a'. service_step\<^sup>*\<^sup>* a a' \<and> a' = phase c' \<and> server_ok c'" by blast
qed

section \<open>Properties\<close>

text \<open>
  C4: the server implements the service.  Whatever the clients and the kernel do and however the pump
  is scheduled, what happens to the connections is a run of the abstract machine: each comes in
  \<open>INIT\<close> and moves along the diagram only, by requests, until it goes away; and what the hub streams to
  is one streamer for each connection that is \<open>PLAYING\<close> there, and nothing else.
\<close>

theorem server_refines_service:
  assumes "reaches iter (server_new fd epoll path w) srv"
  shows "service_step\<^sup>*\<^sup>* (\<lambda>_. None) (phase srv) \<and>
    (\<exists>f. bij_betw f {c. phase srv c = Some PLAYING} (set (hub_subscribers (hub (plant srv)))) \<and>
       (\<forall>c s. clients srv c = Some s \<longrightarrow> state s = PLAYING \<longrightarrow> streamer s = Some (f c)))"
proof
  have start: "phase (server_new fd epoll path w) = (\<lambda>_. None)" by (simp add: phase_def server_new_def)
  have "(server_step iter)\<^sup>*\<^sup>* (server_new fd epoll path w) srv" using assms reaches_steps by blast
  from service.run_matched [OF this] server_new_ok start
  show "service_step\<^sup>*\<^sup>* (\<lambda>_. None) (phase srv)" by auto
next
  have ok: "server_ok srv" by (rule reaches_ok [OF assms server_new_ok])
  let ?f = "\<lambda>c. the (streamer (the (clients srv c)))"
  have str: "streamer s = Some (?f c)" if "clients srv c = Some s" "state s = PLAYING" for c s
    using ok that by (auto simp: server_ok_def session_ok_def)
  have "inj_on ?f {c. phase srv c = Some PLAYING}"
  proof (rule inj_onI)
    fix c d assume "c \<in> {c. phase srv c = Some PLAYING}" "d \<in> {c. phase srv c = Some PLAYING}" "?f c = ?f d"
    moreover from this(1,2) obtain s t where "clients srv c = Some s" "state s = PLAYING"
      "clients srv d = Some t" "state t = PLAYING" by (auto simp: phase_def)
    ultimately show "c = d" using ok str unfolding server_ok_def by metis
  qed
  moreover have "?f ` {c. phase srv c = Some PLAYING} = set (hub_subscribers (hub (plant srv)))"
    unfolding running_audience [OF ok] using str by (force simp: phase_def image_iff)
  ultimately show "\<exists>f. bij_betw f {c. phase srv c = Some PLAYING} (set (hub_subscribers (hub (plant srv)))) \<and>
       (\<forall>c s. clients srv c = Some s \<longrightarrow> state s = PLAYING \<longrightarrow> streamer s = Some (f c))"
    using str by (intro exI [of _ ?f]) (simp add: bij_betw_def)
qed

lemma server_refines_service_witness:
  "let srv = accept_client \<lparr>ev_fd = 3, ev_hangup = False, ev_accept = 7, ev_peername = Some ''10.0.0.2'',
       ev_epoll_add = True, ev_read = [], ev_writes = []\<rparr> (server_new 3 4 ''a.h264'' sample_os)
   in service_step\<^sup>*\<^sup>* (\<lambda>_. None) (phase srv) \<and> phase srv 7 = Some INIT"
proof -
  let ?ev = "\<lparr>ev_fd = 3, ev_hangup = False, ev_accept = 7, ev_peername = Some ''10.0.0.2'',
       ev_epoll_add = True, ev_read = [], ev_writes = []\<rparr>"
  let ?srv = "server_new 3 4 ''a.h264'' sample_os"
  have "handle_event id ?ev ?srv = Inr (accept_client ?ev ?srv)" by (simp add: handle_event_def server_new_def)
  from server_refines_service [OF reaches.event [OF reaches.here this]]
  show ?thesis by (simp add: Let_def phase_def accept_client_def accept_one_def server_new_def)
qed

end
