(* ===== verification/Playback.thy ===== *)
theory Playback
  imports Dialogue HubThreads
begin

text \<open>
  From the file to the client: what a client that plays a file receives, through the session, the
  hub, the pump, the file source, the reader, the fragmentation, the packetizer and the socket.  The
  other end is a receiver after RFC 3550 and RFC 6184, which puts the NAL units together again.
\<close>

section \<open>The receiver\<close>

text \<open>
  \<open>receive src q part pkts\<close>: the packets must come from \<open>src\<close> and be numbered on from \<open>q\<close>; \<open>part\<close>
  is what there is of the NAL unit under way, which the marker ends.  The result are the NAL units
  with their timestamps; it is \<open>None\<close> for anything unexpected, a NAL unit left incomplete included.
\<close>

fun receive :: "32 word \<Rightarrow> 16 word \<Rightarrow> bytes list \<Rightarrow> bytes list \<Rightarrow> (32 word \<times> bytes) list option" where
  "receive src q part [] = (if part = [] then Some [] else None)"
| "receive src q part (pkt # pkts) =
     (case parse_rtp pkt of
        None \<Rightarrow> None
      | Some (h, payload) \<Rightarrow>
          if ssrc h \<noteq> src \<or> sequence h \<noteq> q \<or> payload_type h \<noteq> 96 then None
          else if \<not> marker h then receive src (q + 1) (part @ [payload]) pkts
          else (case depacketize (part @ [payload]) of
                  None \<Rightarrow> None
                | Some nal \<Rightarrow> map_option ((#) (timestamp h, nal)) (receive src (q + 1) [] pkts)))"

lemma receive_packets:
  assumes "ps \<noteq> []" and "depacketize (part @ ps) = Some nal" and "st_payload_type st = 96"
  shows "receive (st_ssrc st) (st_sequence st) part (packets_of st ps @ rest) =
     map_option ((#) (st_timestamp st, nal))
       (receive (st_ssrc st) (st_sequence st + of_nat (length ps)) [] rest)"
  using assms
proof (induction ps arbitrary: part st)
  case Nil
  then show ?case by simp
next
  case (Cons p ps)
  show ?case
  proof (cases "ps = []")
    case True
    with Cons.prems show ?thesis by (simp add: parse_header_bytes)
  next
    case False
    with Cons.IH [of "part @ [p]" "st\<lparr>st_sequence := st_sequence st + 1\<rparr>"] Cons.prems show ?thesis
      by (simp add: parse_header_bytes add.assoc)
  qed
qed

section \<open>What is sent for a list of NAL units\<close>

fun stream_packets :: "32 word \<Rightarrow> Streamer \<Rightarrow> bytes list \<Rightarrow> bytes list" where
  "stream_packets inc st [] = []"
| "stream_packets inc st (nal # nals) =
     nal_packets st nal @ stream_packets inc (after_nal (is_vcl nal) inc (length (nal_packets st nal)) st) nals"

text \<open>The timestamp moves on by \<open>inc\<close> after every coded slice.\<close>

fun stamped :: "32 word \<Rightarrow> 32 word \<Rightarrow> bytes list \<Rightarrow> (32 word \<times> bytes) list" where
  "stamped inc t [] = []"
| "stamped inc t (nal # nals) = (t, nal) # stamped inc (if is_vcl nal then t + inc else t) nals"

lemma stamped_nth:
  "length (stamped inc t nals) = length nals"
  "i < length nals \<Longrightarrow>
     stamped inc t nals ! i = (t + inc * of_nat (length (filter is_vcl (take i nals))), nals ! i)"
proof -
  show "length (stamped inc t nals) = length nals" by (induction nals arbitrary: t) auto
  show "i < length nals \<Longrightarrow>
     stamped inc t nals ! i = (t + inc * of_nat (length (filter is_vcl (take i nals))), nals ! i)"
  proof (induction nals arbitrary: t i)
    case Nil
    then show ?case by simp
  next
    case (Cons nal nals)
    then show ?case by (cases i) (auto simp: algebra_simps)
  qed
qed

definition sendable :: "bytes \<Rightarrow> bool" where
  "sendable nal \<longleftrightarrow> nal \<noteq> [] \<and> hd nal AND 0x1F \<noteq> 28"

lemma receive_stream:
  assumes "\<forall>nal \<in> set nals. sendable nal" and "st_payload_type st = 96"
  shows "receive (st_ssrc st) (st_sequence st) [] (stream_packets inc st nals) =
     Some (stamped inc (st_timestamp st) nals)"
  using assms
proof (induction nals arbitrary: st)
  case Nil
  then show ?case by simp
next
  case (Cons nal nals)
  from Cons.prems(1) have nal: "nal \<noteq> []" "hd nal AND 0x1F \<noteq> 28" by (simp_all add: sendable_def)
  from reassemble_default [OF nal] obtain fs where
    fs: "fragment_nal nal kDefaultMtu = Some fs" "depacketize fs = Some nal"
    by (auto simp: kDefaultMtu_def)
  then have ne: "fs \<noteq> []" and pk: "nal_packets st nal = packets_of st fs" by (auto simp: nal_packets_def)
  let ?st = "after_nal (is_vcl nal) inc (length (nal_packets st nal)) st"
  have st: "st_ssrc ?st = st_ssrc st" "st_payload_type ?st = 96"
    "st_sequence ?st = st_sequence st + of_nat (length fs)"
    "st_timestamp ?st = (if is_vcl nal then st_timestamp st + inc else st_timestamp st)"
    using Cons.prems(2) by (simp_all add: after_nal_def pk)
  have "receive (st_ssrc ?st) (st_sequence ?st) [] (stream_packets inc ?st nals) =
      Some (stamped inc (st_timestamp ?st) nals)"
    using Cons.prems(1) st(2) by (intro Cons.IH) simp_all
  with receive_packets [OF ne, of "[]" nal st "stream_packets inc ?st nals"] fs(2) Cons.prems(2)
  show ?case by (simp add: pk [symmetric] st(1,3,4))
qed

section \<open>One client's share of what the pump sends\<close>

definition to_peer :: "address \<Rightarrow> (address \<times> bytes) list \<Rightarrow> bytes list" where
  "to_peer a ds = map snd (filter (\<lambda>d. fst d = a) ds)"

lemma to_peer_simps [simp]:
  "to_peer a [] = []" "to_peer a (ds @ es) = to_peer a ds @ to_peer a es"
  "to_peer a (map (Pair b) pkts) = (if b = a then pkts else [])"
  by (auto simp: to_peer_def filter_map comp_def)

definition sends_ok :: "os \<Rightarrow> bool" where
  "sends_ok w \<longleftrightarrow> (\<forall>n. sys_ok w n)"

lemma sends_ok_same: "same_host v w \<Longrightarrow> sends_ok w = sends_ok v"
  by (simp add: sends_ok_def same_host_def)

definition streams_to :: "address \<Rightarrow> Streamer \<Rightarrow> bool" where
  "streams_to a st \<longleftrightarrow> connected st \<and> udp_peer (socket st) = Some a \<and> 0 \<le> udp_fd (socket st)"

lemma send_fragments_ok:
  assumes "sends_ok w" and "streams_to a st" and "send_fragments st ps w = (ok, st', w')"
  shows "ok"
  using assms
proof (induction ps arbitrary: st w)
  case Nil
  then show ?case by simp
next
  case (Cons p ps)
  have next_ok: "streams_to a (st\<lparr>st_sequence := q\<rparr>)" "sends_ok ((ticked w)\<lparr>wire := x\<rparr>)" for q x
    using Cons.prems(1,2) by (simp_all add: streams_to_def sends_ok_def ticked_def)
  show ?case
    using Cons.prems Cons.IH [OF next_ok(2,1)]
    by (auto simp: Let_def build_packet_bytes udp_send_def streams_to_def sends_ok_def)
qed

lemma send_nal_ok:
  assumes "sends_ok w" and "streams_to a st" and "nal \<noteq> []" and "send_nal st nal w = (ok, st', w')"
  shows "wire w' = wire w @ map (Pair a) (nal_packets st nal) \<and>
     st' = st\<lparr>st_sequence := st_sequence st + of_nat (length (nal_packets st nal))\<rparr>"
proof -
  have st: "connected st" "udp_peer (socket st) = Some a" using assms(2) by (simp_all add: streams_to_def)
  obtain fs where "send_nal st nal w = send_fragments st fs w"
    using send_nal_fragments [OF st(1) assms(3)] by metis
  with assms(4) send_fragments_ok [OF assms(1,2)] have "ok" by simp
  with send_nal_effect [OF assms(4) st(1) assms(3) st(2)] show ?thesis by auto
qed

text \<open> Of the streamers \<open>rs\<close> none but \<open>r\<close> sends to \<open>a\<close>.\<close>

definition others_elsewhere :: "address \<Rightarrow> nat \<Rightarrow> nat list \<Rightarrow> store \<Rightarrow> bool" where
  "others_elsewhere a r rs h \<longleftrightarrow>
     (\<forall>r' \<in> set rs. r' \<noteq> r \<longrightarrow> (\<forall>st. h r' = Some st \<longrightarrow> udp_peer (socket st) \<noteq> Some a))"

lemma others_elsewhere_cong:
  "\<forall>r' \<in> set rs. g r' = h r' \<Longrightarrow> others_elsewhere a r rs g = others_elsewhere a r rs h"
  by (simp add: others_elsewhere_def)

lemma broadcast_elsewhere:
  assumes "broadcast nal frame inc rs h w = (h', w')" and "others_elsewhere a r rs h" and "r \<notin> set rs"
    and "distinct rs" and "\<forall>r \<in> set rs. ready h r" and "nal \<noteq> []"
  shows "\<exists>ds. wire w' = wire w @ ds \<and> to_peer a ds = []"
proof -
  from broadcast_effect [OF assms(1,4,5,6)] obtain dss where d: "length dss = length rs"
    "wire w' = wire w @ concat dss"
    "\<forall>i < length rs. \<exists>st k q. h (rs ! i) = Some st \<and> portion st nal k q (dss ! i)" by fastforce
  have "to_peer a ds = []" if "ds \<in> set dss" for ds
  proof -
    from that obtain i where i: "i < length rs" "ds = dss ! i" using d(1) by (metis in_set_conv_nth)
    with d(3) obtain st k q where "h (rs ! i) = Some st" "portion st nal k q ds" by blast
    moreover have "rs ! i \<in> set rs" "rs ! i \<noteq> r" using i(1) assms(3) by auto
    ultimately show ?thesis using assms(2) by (auto simp: others_elsewhere_def portion_def)
  qed
  then have "to_peer a (concat dss) = []" by (induction dss) auto
  with d(2) show ?thesis by blast
qed

lemma broadcast_share:
  assumes b: "broadcast nal frame inc rs h w = (h', w')" and "others_elsewhere a r rs h" and "r \<in> set rs"
    and "distinct rs" and "\<forall>r \<in> set rs. ready h r" and "nal \<noteq> []"
    and st: "h r = Some st" "streams_to a st" and "sends_ok w"
  shows "\<exists>ds. wire w' = wire w @ ds \<and> to_peer a ds = nal_packets st nal \<and>
     h' r = Some (after_nal frame inc (length (nal_packets st nal)) st)"
proof -
  obtain xs ys where rs: "rs = xs @ r # ys" using assms(3) by (meson split_list)
  obtain h1 w1 where b1: "broadcast nal frame inc xs h w = (h1, w1)" by fastforce
  note k1 = broadcast_keeps [OF b1]
  have h1: "h1 r = Some st" "sends_ok w1"
    using k1 st(1) assms(4,9) sends_ok_same unfolding rs by auto
  obtain ok st2 w2 where s: "send_nal st nal w1 = (ok, st2, w2)" by (metis prod_cases3)
  note sent = send_nal_ok [OF h1(2) st(2) assms(6) s]
  let ?st = "after_nal frame inc (length (nal_packets st nal)) st"
  have st2: "(if frame then advance_timestamp st2 inc else st2) = ?st"
    using sent by (simp add: after_nal_def advance_timestamp_def)
  let ?h = "h1(r \<mapsto> ?st)"
  have b2: "broadcast nal frame inc ys ?h w2 = (h', w')"
    using b s h1(1) st2 by (simp add: rs broadcast_append b1)
  have r: "r \<notin> set xs" "r \<notin> set ys" "distinct xs" "distinct ys" "set xs \<inter> set ys = {}"
    using assms(4) by (auto simp: rs)
  have other: "\<forall>r' \<in> set ys. ?h r' = h r'" using k1 r by auto
  have "others_elsewhere a r xs h" "others_elsewhere a r ys h"
    using assms(2) by (auto simp: rs others_elsewhere_def)
  moreover from this(2) have "others_elsewhere a r ys ?h" unfolding others_elsewhere_cong [OF other] .
  moreover have "\<forall>r \<in> set xs. ready h r" using assms(5) by (simp add: rs)
  moreover have "\<forall>r \<in> set ys. ready ?h r" using assms(5) other by (simp add: rs ready_def)
  ultimately have a: "others_elsewhere a r xs h" "others_elsewhere a r ys ?h" "\<forall>r \<in> set xs. ready h r"
    "\<forall>r \<in> set ys. ready ?h r" by blast+
  from broadcast_elsewhere [OF b1 a(1) r(1,3) a(3) assms(6)] broadcast_elsewhere [OF b2 a(2) r(2,4) a(4) assms(6)]
  obtain d1 d2 where "wire w1 = wire w @ d1" "to_peer a d1 = []" "wire w' = wire w2 @ d2" "to_peer a d2 = []"
    by blast
  moreover have "h' r = Some ?st" using broadcast_keeps [OF b2] r(2) by simp
  ultimately show ?thesis using sent
    by (intro exI [of _ "d1 @ map (Pair a) (nal_packets st nal) @ d2"]) simp
qed

text \<open>
  \<open>watching a r st m\<close>: the hub distributes to \<open>r\<close>, which is \<open>st\<close> and sends to \<open>a\<close>, as no other
  subscriber does, and the network takes what is sent.
\<close>

definition watching :: "address \<Rightarrow> nat \<Rightarrow> Streamer \<Rightarrow> media \<Rightarrow> bool" where
  "watching a r st m \<longleftrightarrow>
     r \<in> set (hub_subscribers (hub m)) \<and> distinct (hub_subscribers (hub m)) \<and>
     (\<forall>r \<in> set (hub_subscribers (hub m)). ready (heap m) r) \<and>
     others_elsewhere a r (hub_subscribers (hub m)) (heap m) \<and>
     heap m r = Some st \<and> streams_to a st \<and> sends_ok (host m)"

lemma on_nal_share:
  assumes "watching a r st m" and "nal \<noteq> []"
  defines "st' \<equiv> after_nal (is_vcl nal) (hub_ts_increment (hub m)) (length (nal_packets st nal)) st"
  shows "(\<exists>ds. wire (host (on_nal nal m)) = wire (host m) @ ds \<and> to_peer a ds = nal_packets st nal) \<and>
     watching a r st' (on_nal nal m) \<and>
     hub_ts_increment (hub (on_nal nal m)) = hub_ts_increment (hub m) \<and>
     hub_running (hub (on_nal nal m)) = hub_running (hub m)"
proof -
  let ?rs = "hub_subscribers (hub m)"
  have vcl: "is_vcl nal = (nal_type_of nal = kNalSlice \<or> nal_type_of nal = kNalIdr)"
    using assms(2) by (auto simp: is_vcl_def nal_type_of_def kNalSlice_def kNalIdr_def Let_def)
  obtain h w where b: "broadcast nal (is_vcl nal) (hub_ts_increment (hub m)) ?rs (heap m) (host m) = (h, w)"
    by fastforce
  have fin: "heap (on_nal nal m) = h" "host (on_nal nal m) = w"
    "hub_subscribers (hub (on_nal nal m)) = ?rs"
    "hub_ts_increment (hub (on_nal nal m)) = hub_ts_increment (hub m)"
    "hub_running (hub (on_nal nal m)) = hub_running (hub m)"
    using b assms(2) by (auto simp: on_nal_def Let_def vcl split: prod.splits)
  note wt = assms(1) [unfolded watching_def]
  from wt broadcast_share [OF b _ _ _ _ assms(2)] obtain ds where
    ds: "wire w = wire (host m) @ ds" "to_peer a ds = nal_packets st nal" "h r = Some st'"
    unfolding st'_def by blast
  note k = broadcast_keeps [OF b]
  have "others_elsewhere a r ?rs h"
    unfolding others_elsewhere_def
  proof (intro ballI impI allI)
    fix r' st1 assume r': "r' \<in> set ?rs" "r' \<noteq> r" "h r' = Some st1"
    with k have "map_option socket (heap m r') = map_option socket (Some st1)" by metis
    then obtain st0 where "heap m r' = Some st0" "socket st0 = socket st1"
      by (cases "heap m r'") auto
    with r' wt show "udp_peer (socket st1) \<noteq> Some a" unfolding others_elsewhere_def by metis
  qed
  moreover have "streams_to a st'" using wt by (simp add: streams_to_def st'_def after_nal_def)
  moreover have "\<forall>r \<in> set ?rs. ready h r" using k wt by blast
  moreover have "sends_ok w" using k wt sends_ok_same by blast
  ultimately have "watching a r st' (on_nal nal m)" using wt ds(3) by (simp add: watching_def fin)
  with ds fin show ?thesis by auto
qed

fun after_nals :: "32 word \<Rightarrow> Streamer \<Rightarrow> bytes list \<Rightarrow> Streamer" where
  "after_nals inc st [] = st"
| "after_nals inc st (nal # nals) =
     after_nals inc (after_nal (is_vcl nal) inc (length (nal_packets st nal)) st) nals"

lemma stream_packets_append:
  "stream_packets inc st (xs @ ys) = stream_packets inc st xs @ stream_packets inc (after_nals inc st xs) ys"
  by (induction xs arbitrary: st) simp_all

lemma on_nals_share:
  assumes "watching a r st m" and "\<forall>nal \<in> set nals. nal \<noteq> []" and "hub_ts_increment (hub m) = inc"
  shows "(\<exists>ds. wire (host (fold on_nal nals m)) = wire (host m) @ ds \<and> to_peer a ds = stream_packets inc st nals) \<and>
     watching a r (after_nals inc st nals) (fold on_nal nals m) \<and>
     hub_ts_increment (hub (fold on_nal nals m)) = inc \<and>
     hub_running (hub (fold on_nal nals m)) = hub_running (hub m)"
  using assms
proof (induction nals arbitrary: m st)
  case Nil
  then show ?case by simp
next
  case (Cons nal nals)
  from Cons.prems have ne: "nal \<noteq> []" by simp
  note one = on_nal_share [OF Cons.prems(1) ne, unfolded Cons.prems(3)]
  then obtain d1 where d1: "wire (host (on_nal nal m)) = wire (host m) @ d1" "to_peer a d1 = nal_packets st nal"
    by blast
  let ?st = "after_nal (is_vcl nal) inc (length (nal_packets st nal)) st"
  have w: "watching a r ?st (on_nal nal m)" using one by blast
  have i: "hub_ts_increment (hub (on_nal nal m)) = inc" using one by blast
  have rest: "\<forall>nal \<in> set nals. nal \<noteq> []" using Cons.prems(2) by simp
  note two = Cons.IH [OF w rest i]
  then obtain d2 where
    "wire (host (fold on_nal nals (on_nal nal m))) = wire (host (on_nal nal m)) @ d2"
    "to_peer a d2 = stream_packets inc ?st nals" by blast
  with d1 have "wire (host (fold on_nal (nal # nals) m)) = wire (host m) @ (d1 @ d2)"
    "to_peer a (d1 @ d2) = stream_packets inc st (nal # nals)" by simp_all
  then show ?case using one two by auto
qed

section \<open>The pump on a file\<close>

lemma watching_source: "watching a r st (m\<lparr>hub := (hub m)\<lparr>hub_source := x\<rparr>\<rparr>) = watching a r st m"
  by (simp add: watching_def)

lemma pump_steps_share:
  assumes "watching a r st m" and "hub_running (hub m)" and "hub_source (hub m) = Some (File_source src)"
    and "file_play n src = (True, nals, src')" and "\<forall>nal \<in> set nals. nal \<noteq> []"
  shows "\<exists>ds. wire (host ((pump_step ^^ n) m)) = wire (host m) @ ds \<and>
     to_peer a ds = stream_packets (hub_ts_increment (hub m)) st nals"
  using assms
proof (induction n arbitrary: m st src nals)
  case 0
  then show ?case by simp
next
  case (Suc n)
  obtain ok ns t s1 where rd: "file_read_nal src = (ok, ns, t, s1)" by (metis prod_cases4)
  obtain oks rest s2 where pl: "file_play n s1 = (oks, rest, s2)" by (metis prod_cases3)
  from Suc.prems(4) rd pl have all: "ok" "oks" "nals = ns @ rest" "s2 = src'" by simp_all
  let ?inc = "hub_ts_increment (hub m)"
  let ?m = "(fold on_nal ns m)\<lparr>hub := (hub (fold on_nal ns m))\<lparr>hub_source := Some (File_source s1)\<rparr>\<rparr>"
  have step: "pump_step m = ?m" using Suc.prems(2,3) rd all(1) by (simp add: pump_step_def pump_body_def Let_def)
  have ne: "\<forall>nal \<in> set ns. nal \<noteq> []" "\<forall>nal \<in> set rest. nal \<noteq> []" using Suc.prems(5) all(3) by simp_all
  note one = on_nals_share [OF Suc.prems(1) ne(1) refl]
  then obtain d1 where d1: "wire (host ?m) = wire (host m) @ d1" "to_peer a d1 = stream_packets ?inc st ns"
    by auto
  have "watching a r (after_nals ?inc st ns) ?m" "hub_running (hub ?m)" "hub_ts_increment (hub ?m) = ?inc"
    using one Suc.prems(2) by (simp_all add: watching_source)
  with Suc.IH [of _ ?m s1 rest] pl all(2,4) ne(2) obtain d2 where
    "wire (host ((pump_step ^^ n) ?m)) = wire (host ?m) @ d2"
    "to_peer a d2 = stream_packets ?inc (after_nals ?inc st ns) rest" by auto
  then show ?case using d1 all(3)
    by (intro exI [of _ "d1 @ d2"]) (simp add: funpow_Suc_right step stream_packets_append del: funpow.simps)
qed

section \<open>Play\<close>

lemma Streamer_new_fields:
  "Streamer_new w = (st, w') \<Longrightarrow> st_timestamp st = 0 \<and> st_payload_type st = 96 \<and> same_host w w'"
  by (auto simp: Streamer_new_def UdpSocket_new_def draw_def Let_def same_host_def ticked_def split: prod.splits)

lemma streamer_connect_streams:
  "streamer_connect st ip port w = (True, st', w') \<Longrightarrow>
     streams_to (ip, port) st' \<and> st_timestamp st' = st_timestamp st \<and>
     st_payload_type st' = st_payload_type st \<and> same_host w w'"
  by (auto simp: streamer_connect_def udp_connect_to_def streams_to_def Let_def same_host_def ticked_def
      split: if_splits)

lemma hub_start_file:
  assumes "hub_start_pump m = (True, m')" and "cfg_source (hub_cfg (hub m)) \<noteq> ''camera''"
  shows "\<exists>src. file_start (FileSource_new (cfg_source (hub_cfg (hub m))) (cfg_fps (hub_cfg (hub m))) True) (host m) =
      (True, src, host m') \<and> hub_source (hub m') = Some (File_source src) \<and>
      hub_ts_increment (hub m') = hub_ts_increment (hub m)"
  using assms by (auto simp: hub_start_pump_def make_source_def Let_def split: prod.splits if_splits)

lemma play_on_quiet_hub:
  assumes "handle_play req s m = (resp, sent, s', m')" and "streamer s = None" and "streamer s' \<noteq> None"
    and "\<not> hub_running (hub m)" and "cfg_source (hub_cfg (hub m)) \<noteq> ''camera''"
  shows "\<exists>st src w. heap m' = (heap m)(next_ref m \<mapsto> st) \<and>
     streams_to (client_ip s, word_of_int (client_rtp_port s)) st \<and> st_timestamp st = 0 \<and> st_payload_type st = 96 \<and>
     same_host (host m) w \<and> same_host (host m) (host m') \<and>
     file_start (FileSource_new (cfg_source (hub_cfg (hub m))) (cfg_fps (hub_cfg (hub m))) True) w =
       (True, src, host m') \<and>
     hub_source (hub m') = Some (File_source src) \<and> hub_ts_increment (hub m') = hub_ts_increment (hub m)"
proof -
  obtain st0 w0 where new: "Streamer_new (host m) = (st0, w0)" by fastforce
  obtain ok st w where con: "streamer_connect st0 (client_ip s) (word_of_int (client_rtp_port s)) w0 = (ok, st, w)"
    by (metis prod_cases3)
  let ?a = "m\<lparr>host := w, heap := (heap m)(next_ref m \<mapsto> st), next_ref := Suc (next_ref m)\<rparr>"
  obtain up b where pump: "hub_start_pump ?a = (up, b)" by fastforce
  from assms(1-4) new con pump have ok: "ok" "up" and m': "hub m' = (hub b)\<lparr>hub_subscribers := hub_subscribers (hub b) @ [next_ref m]\<rparr>"
    "heap m' = heap b" "host m' = host b"
    by (auto simp: handle_play_def hub_subscribe_def Let_def split: if_splits prod.splits)
  have "streamer_connect st0 (client_ip s) (word_of_int (client_rtp_port s)) w0 = (True, st, w)"
    using con ok(1) by simp
  note st = Streamer_new_fields [OF new] streamer_connect_streams [OF this]
  have "hub_start_pump ?a = (True, b)" using pump ok(2) by simp
  note started = hub_start_file [OF this] hub_start_pump_result(1,4) [OF this]
  then obtain src where src: "file_start (FileSource_new (cfg_source (hub_cfg (hub m))) (cfg_fps (hub_cfg (hub m))) True) w =
      (True, src, host b)" "hub_source (hub b) = Some (File_source src)"
    "hub_ts_increment (hub b) = hub_ts_increment (hub m)" using assms(5) by auto
  have "same_host (host m) w" using st same_host_trans by blast
  moreover from this have "same_host (host m) (host b)" using started(3) same_host_trans by auto
  ultimately show ?thesis using st m' src started(2) by (intro exI [of _ st] exI [of _ src] exI [of _ w]) auto
qed

text \<open>What a looping file source delivers can be sent when the NAL units of the file can.\<close>

lemma cycled_sendable:
  assumes "\<forall>(four, nal) \<in> set xs. clean_nal nal \<and> hd nal AND 0x1F \<noteq> 28" and "2 \<le> length xs"
    and "\<forall>i < length nals. nals ! i = snd (xs ! (i mod length xs))"
  shows "\<forall>nal \<in> set nals. sendable nal"
proof
  fix nal assume "nal \<in> set nals"
  then obtain i where "i < length nals" "nal = nals ! i" by (metis in_set_conv_nth)
  moreover have "i mod length xs < length xs" using assms(2) by (intro mod_less_divisor) linarith
  ultimately have "(fst (xs ! (i mod length xs)), nal) \<in> set xs" using assms(3) nth_mem by fastforce
  with assms(1) show "sendable nal" by (fastforce simp: sendable_def clean_nal_def)
qed

lemma play_watching:
  assumes "hub_ok m" and "hub_ok m'" and "hub_subscribers (hub m') = hub_subscribers (hub m) @ [next_ref m]"
    and "heap m' = (heap m)(next_ref m \<mapsto> st)" and "streams_to a st" and "sends_ok (host m')"
    and "others_elsewhere a (next_ref m) (hub_subscribers (hub m)) (heap m)"
  shows "watching a (next_ref m) st m'"
  unfolding watching_def assms(3)
proof (intro conjI)
  have "next_ref m \<notin> set (hub_subscribers (hub m))" using hub_ok_fresh [OF assms(1)] by simp
  then have "\<forall>r' \<in> set (hub_subscribers (hub m)). heap m' r' = heap m r'" using assms(4) by auto
  from others_elsewhere_cong [OF this] assms(7)
  show "others_elsewhere a (next_ref m) (hub_subscribers (hub m) @ [next_ref m]) (heap m')"
    by (auto simp: others_elsewhere_def)
  show "distinct (hub_subscribers (hub m) @ [next_ref m])"
    "\<forall>r \<in> set (hub_subscribers (hub m) @ [next_ref m]). ready (heap m') r"
    using assms(2) unfolding hub_ok_def assms(3) by blast+
qed (use assms in simp_all)

section \<open>Properties\<close>

text \<open>
  a client that plays a file gets the file.  Let a session that is ready be told to play on a
  hub whose source is a file of at least two NAL units and is not running yet, with nobody else
  streaming to the same address, and let the network take every datagram.  Then, after any number of
  turns of the pump, what has been sent to the client's address is a gapless RTP stream with one
  SSRC, from which a receiver puts together the NAL units of the file in order, over and over, at
  least one per turn; the timestamps start at zero and move on by the hub's increment after each
  coded slice.
\<close>

theorem play_delivers_file:
  assumes "hub_ok m" and "session_ok s m" and "req_method req = PLAY" and "state s = READY"
    and "handle req s m = (resp, sent, s', m')" and "state s' = PLAYING"
    and "\<not> hub_running (hub m)" and "cfg_source (hub_cfg (hub m)) = path" and "path \<noteq> ''camera''"
    and "fs_open (host m) path = Some (fopened cs)" and "concat cs = annexb_stream xs"
    and "2 \<le> length xs" and "\<forall>(four, nal) \<in> set xs. clean_nal nal \<and> hd nal AND 0x1F \<noteq> 28"
    and "sends_ok (host m)" and "a = (client_ip s, word_of_int (client_rtp_port s))"
    and "others_elsewhere a (next_ref m) (hub_subscribers (hub m)) (heap m)"
  shows "\<exists>ds src q got. wire (host ((pump_step ^^ n) m')) = wire (host m) @ ds \<and>
     receive src q [] (to_peer a ds) = Some got \<and> n \<le> length got \<and>
     (\<forall>i < length got. snd (got ! i) = snd (xs ! (i mod length xs)) \<and>
        fst (got ! i) = hub_ts_increment (hub m) * of_nat (length (filter is_vcl (map snd (take i got)))))"
proof -
  let ?r = "next_ref m" and ?inc = "hub_ts_increment (hub m)"
  have h: "handle_play req s m = (resp, sent, s', m')"
    using assms(3-5) by (simp add: handle_def method_allowed_def)
  have none: "streamer s = None" using assms(2,4) by (auto simp: session_ok_def)
  note eff = handle_play_effect [OF assms(1) none h]
  have some: "streamer s' \<noteq> None" using eff assms(4,6) by (auto split: if_splits)
  have m': "hub_ok m'" "hub_running (hub m')" "wire (host m') = wire (host m)"
    "hub_subscribers (hub m') = hub_subscribers (hub m) @ [?r]"
    using eff some by (simp_all add: streams_step_def)
  from play_on_quiet_hub [OF h none some assms(7)] assms(8,9) obtain st src w where
    st: "heap m' = (heap m)(?r \<mapsto> st)" "streams_to a st" "st_timestamp st = 0" "st_payload_type st = 96"
    and w: "same_host (host m) w" "same_host (host m) (host m')"
    and src: "file_start (FileSource_new path (cfg_fps (hub_cfg (hub m))) True) w = (True, src, host m')"
      "hub_source (hub m') = Some (File_source src)" "hub_ts_increment (hub m') = ?inc"
    unfolding assms(15) by blast
  obtain oks nals src' where pl: "file_play n src = (oks, nals, src')" by (metis prod_cases3)
  have op: "fs_open w path = Some (fopened cs)" using w(1) assms(10) by (simp add: same_host_def)
  have clean: "\<forall>(four, nal) \<in> set xs. clean_nal nal" using assms(13) by auto
  from file_play_from_start [OF clean assms(12) op assms(11) src(1) pl]
  have cyc: "oks" "n \<le> length nals" "\<forall>i < length nals. nals ! i = snd (xs ! (i mod length xs))" by auto
  note nals = cycled_sendable [OF assms(13,12) cyc(3)]
  have "sends_ok (host m')" using sends_ok_same [OF w(2)] assms(14) by simp
  note watch = play_watching [OF assms(1) m'(1,4) st(1,2) this assms(16)]
  have play: "file_play n src = (True, nals, src')" "\<forall>nal \<in> set nals. nal \<noteq> []"
    using pl cyc(1) nals by (simp_all add: sendable_def)
  from pump_steps_share [OF watch m'(2) src(2) play] src(3) obtain ds where
    ds: "wire (host ((pump_step ^^ n) m')) = wire (host m') @ ds" "to_peer a ds = stream_packets ?inc st nals"
    by auto
  have "receive (st_ssrc st) (st_sequence st) [] (to_peer a ds) = Some (stamped ?inc 0 nals)"
    using receive_stream [OF nals st(4), of ?inc] st(3) ds(2) by simp
  moreover have "map snd (take i (stamped ?inc 0 nals)) = take i nals" if "i < length nals" for i
    using that by (intro nth_equalityI) (simp_all add: stamped_nth)
  ultimately show ?thesis
    using ds(1) m'(3) cyc(2,3)
    by (intro exI [of _ ds] exI [of _ "st_ssrc st"] exI [of _ "st_sequence st"] exI [of _ "stamped ?inc 0 nals"])
       (simp add: stamped_nth)
qed

definition file_media :: media where
  "file_media =
     (let w = sample_os\<lparr>fs_open := \<lambda>_. Some (fopened [[0, 0, 1, 0x67, 0x42, 0], [0, 1, 0x65, 9]])\<rparr>
      in \<lparr>hub = hub_new (SourceConfig_default\<lparr>cfg_source := ''a.h264''\<rparr>) w, heap = (\<lambda>_. None), next_ref = 0, host = w\<rparr>)"

lemma play_delivers_file_witness:
  "\<exists>resp sent s' m' ds src q got. handle (sample_request PLAY) sample_session file_media = (resp, sent, s', m') \<and>
     wire (host ((pump_step ^^ 9) m')) = ds \<and>
     receive src q [] (to_peer (''10.0.0.2'', 5000) ds) = Some got \<and> 9 \<le> length got"
proof -
  obtain resp sent s' m' where h: "handle (sample_request PLAY) sample_session file_media = (resp, sent, s', m')"
    by (metis prod_cases4)
  let ?xs = "[(False, [0x67, 0x42]), (False, [0x65, 9])]"
  have ok: "hub_ok file_media" "session_ok sample_session file_media" using hub_new_ok
    by (simp_all add: file_media_def Let_def session_ok_def owned_def sample_session_def Session_new_def)
  have r: "req_method (sample_request PLAY) = PLAY" "state sample_session = READY"
    by (simp_all add: sample_request_def sample_session_def)
  have m: "\<not> hub_running (hub file_media)" "cfg_source (hub_cfg (hub file_media)) = ''a.h264''"
    "fs_open (host file_media) ''a.h264'' = Some (fopened [[0, 0, 1, 0x67, 0x42, 0], [0, 1, 0x65, 9]])"
    "sends_ok (host file_media)" "hub_subscribers (hub file_media) = []" "wire (host file_media) = []"
    by (simp_all add: file_media_def hub_new_def sends_ok_def sample_os_def SourceConfig_default_def Let_def
        split: prod.split)
  have "state s' = PLAYING"
    using h r sample_matches [of PLAY]
    by (auto simp: handle_def method_allowed_def handle_play_def Streamer_new_def UdpSocket_new_def
        draw_def streamer_connect_def udp_connect_to_def sample_session_def Session_new_def file_media_def
        sample_os_def ticked_def hub_subscribe_def hub_start_pump_def hub_new_def
        SourceConfig_default_def make_source_def FileSource_new_def file_start_def Let_def split: prod.splits if_splits)
  from play_delivers_file [OF ok r h this m(1,2) _ m(3) _ _ _ m(4) refl, of ?xs 9] m(5,6)
  obtain src q got where "receive src q [] (to_peer (''10.0.0.2'', 5000) (wire (host ((pump_step ^^ 9) m')))) = Some got"
    "9 \<le> length got"
    by (auto simp: clean_nal_def code_at_def annexb_stream_def start_code_def others_elsewhere_def
        sample_session_def Session_new_def)
  with h show ?thesis by blast
qed

end
