(* ===== verification/Keeping.thy ===== *)
theory Keeping
  imports Server
begin

text \<open>
  What holds of the streams and of the host at the beginning and is kept by each of the few things
  the sessions do to them, holds in every state the server reaches.  The things are those of
  src/media/hub.hpp and src/rtp/streamer.hpp that src/rtsp/session.cpp calls; the argument from them up
  to the event loop is made once, for any predicate.
\<close>

section \<open>The interface\<close>

locale stream_invariant =
  fixes P :: "media \<Rightarrow> bool"
  assumes P_pump: "P m \<Longrightarrow> P (pump_step m)"
    and P_subscribe: "P m \<Longrightarrow> P a \<Longrightarrow> next_ref a = Suc (next_ref m) \<Longrightarrow>
      hub_subscribe (Some (next_ref m)) a = (ok, m') \<Longrightarrow> P m'"
    and P_unsubscribe: "P m \<Longrightarrow> P (hub_unsubscribe r m)"
    and P_draw: "P m \<Longrightarrow> P (m\<lparr>host := snd (draw (host m))\<rparr>)"
    and P_release: "P m \<Longrightarrow> P (streamer_release r m)"
    and P_connected: "Streamer_new (host m) = (st0, w0) \<Longrightarrow> streamer_connect st0 ip port w0 = (True, st, w) \<Longrightarrow>
      P m \<Longrightarrow> P (m\<lparr>host := w, heap := (heap m)(next_ref m \<mapsto> st), next_ref := Suc (next_ref m)\<rparr>)"
    and P_refused: "Streamer_new (host m) = (st0, w0) \<Longrightarrow> streamer_connect st0 ip port w0 = (False, st, w) \<Longrightarrow>
      P m \<Longrightarrow> P (m\<lparr>host := Streamer_delete st w\<rparr>)"
begin

lemma stop_streaming_P: "stop_streaming s m = (s', m') \<Longrightarrow> P m \<Longrightarrow> P m'"
  by (auto simp: stop_streaming_def Let_def P_release P_unsubscribe split: option.splits)

lemma handle_setup_P: "handle_setup req s m = (resp, sent, s', m') \<Longrightarrow> P m \<Longrightarrow> P m'"
  using P_draw [of m]
  by (auto simp: handle_setup_def generate_session_id_def draw_def Let_def
      split: option.splits prod.splits if_splits)

lemma handle_play_P:
  assumes "handle_play req s m = (resp, sent, s', m')" and "P m"
  shows "P m'"
proof (cases "session_header_matches req s")
  case False
  with assms show ?thesis by (simp add: handle_play_def)
next
  case True
  obtain st0 w0 where new: "Streamer_new (host m) = (st0, w0)" by fastforce
  obtain ok st w where con: "streamer_connect st0 (client_ip s) (word_of_int (client_rtp_port s)) w0 = (ok, st, w)"
    by (metis prod_cases3)
  show ?thesis
  proof (cases ok)
    case False
    with True assms(1) new con have "m' = m\<lparr>host := Streamer_delete st w\<rparr>" by (simp add: handle_play_def)
    then show ?thesis using P_refused [OF new] con False assms(2) by simp
  next
    case ok: True
    let ?a = "m\<lparr>host := w, heap := (heap m)(next_ref m \<mapsto> st), next_ref := Suc (next_ref m)\<rparr>"
    have a: "P ?a" using P_connected [OF new] con ok assms(2) by simp
    obtain k b where sub: "(if has_hub s then hub_subscribe (Some (next_ref m)) ?a else (False, ?a)) = (k, b)"
      by fastforce
    with P_subscribe [OF assms(2) a] a have "P b" by (auto split: if_splits)
    moreover have "m' = (if k then b else streamer_release (next_ref m) b)"
      using True ok assms(1) new con sub by (auto simp: handle_play_def Let_def split: if_splits)
    ultimately show ?thesis by (simp add: P_release)
  qed
qed

lemma handle_P:
  assumes "handle req s m = (resp, sent, s', m')" and "P m"
  shows "P m'"
proof (cases "req_method req = UNKNOWN \<or> \<not> method_allowed (state s) (req_method req)")
  case True
  with assms show ?thesis by (auto simp: handle_def split: if_splits)
next
  case False
  have "handle_pause req s m = (resp, sent, s', m') \<Longrightarrow> P m'"
    "handle_teardown req s m = (resp, sent, s', m') \<Longrightarrow> P m'"
    using assms(2) by (auto simp: handle_pause_def handle_teardown_def Let_def dest: stop_streaming_P
        split: prod.splits if_splits)
  with False show ?thesis
    using assms handle_play_P handle_setup_P
    by (cases "req_method req") (auto simp: handle_def handle_describe_def Let_def)
qed

lemma feed_loop_P: "feed_loop iter s m = (out, res, s', m') \<Longrightarrow> P m \<Longrightarrow> P m'"
  by (induction rule: feed_loop_rule) (auto dest: handle_P)

lemma feed_P: "feed iter data s m = (out, res, s', m') \<Longrightarrow> P m \<Longrightarrow> P m'"
  by (auto simp: feed_def Let_def dest: feed_loop_P split: if_splits)

lemma on_disconnect_P: "on_disconnect s m = (s', m') \<Longrightarrow> P m \<Longrightarrow> P m'"
  by (auto simp: on_disconnect_def dest: stop_streaming_P split: prod.splits)

lemma Client_delete_P: "P (plant srv) \<Longrightarrow> P (plant (Client_delete fd s srv))"
  by (auto simp: Client_delete_def dest: stop_streaming_P split: prod.split)

lemma drop_client_P: "P (plant srv) \<Longrightarrow> P (plant (drop_client fd srv))"
  by (auto simp: drop_client_def Let_def dest: on_disconnect_P intro!: Client_delete_P
      split: option.split prod.split)

lemma handle_event_P:
  assumes "handle_event iter ev srv = Inr srv'" and "P (plant srv)"
  shows "P (plant srv')"
proof (cases "ev_fd ev = listener_fd srv")
  case True
  with assms accept_client_cases [of ev srv] show ?thesis by (auto simp: handle_event_def)
next
  case False
  show ?thesis
  proof (cases "clients srv (ev_fd ev)")
    case None
    with False assms show ?thesis by (simp add: handle_event_def)
  next
    case (Some s)
    from assms(1) False Some show ?thesis
      by (cases rule: handle_event_cases)
        (use assms(2) feed_P in \<open>auto intro!: drop_client_P\<close>)
  qed
qed

lemma clear_clients_P: "P (plant srv) \<Longrightarrow> P (plant (clear_clients fds srv))"
  by (induction fds arbitrary: srv) (auto simp: Client_delete_P split: option.split)

end

sublocale stream_invariant \<subseteq> runs: server_invariant iter "\<lambda>srv. P (plant srv)" for iter
  by unfold_locales (auto intro: handle_event_P P_pump)

text \<open>With the hub's destructor, the predicate holds to the end of the program.\<close>

locale lasting_invariant = stream_invariant +
  assumes P_hub_delete: "P m \<Longrightarrow> P (hub_delete m)"
begin

lemma shutdown_P: "P (plant srv) \<Longrightarrow> P (plant (shutdown fds srv))"
  by (simp add: shutdown_def Let_def clear_clients_P P_hub_delete)

end

section \<open>Predicates the pump does not matter for\<close>

text \<open>Leaving the hub and ending it come down to its list and its flags, and to turns of the pump.\<close>

lemma kept_after_unsubscribe:
  "\<exists>l j. kept (m\<lparr>hub := (hub m)\<lparr>hub_subscribers := l, hub_pump_joinable := j\<rparr>\<rparr>) (hub_unsubscribe r m)"
  using hub_unsubscribe_kept by blast

lemma kept_after_delete:
  "\<exists>j. kept (m\<lparr>hub := (hub m)\<lparr>hub_running := False, hub_pump_joinable := j\<rparr>\<rparr>) (hub_delete m)"
proof -
  have "kept (m\<lparr>hub := (hub m)\<lparr>hub_running := False, hub_pump_joinable := False\<rparr>\<rparr>) (hub_delete m)"
    if "hub_pump_joinable (hub m)"
    using that pump_join_kept by (simp add: hub_delete_def Let_def)
  moreover have "hub_delete m = m\<lparr>hub := (hub m)\<lparr>hub_running := False, hub_pump_joinable := False\<rparr>\<rparr>"
    if "\<not> hub_pump_joinable (hub m)"
    using that by (simp add: hub_delete_def)
  ultimately show ?thesis by (metis kept_refl)
qed

text \<open>
  A predicate that is kept by whatever \<open>kept\<close> allows and does not look at the hub's list and flags.
\<close>

locale frame_invariant =
  fixes P :: "media \<Rightarrow> bool"
  assumes frame_kept: "kept m m' \<Longrightarrow> P m \<Longrightarrow> P m'"
    and frame_subscribe: "hub_subscribe (Some r) m = (ok, m') \<Longrightarrow> P m \<Longrightarrow> P m'"
    and frame_list: "P m \<Longrightarrow> P (m\<lparr>hub := (hub m)\<lparr>hub_subscribers := l, hub_pump_joinable := j\<rparr>\<rparr>)"
    and frame_flags: "P m \<Longrightarrow> P (m\<lparr>hub := (hub m)\<lparr>hub_running := b, hub_pump_joinable := j\<rparr>\<rparr>)"
    and frame_draw: "P m \<Longrightarrow> P (m\<lparr>host := snd (draw (host m))\<rparr>)"
    and frame_release: "P m \<Longrightarrow> P (streamer_release r m)"
    and frame_connected: "Streamer_new (host m) = (st0, w0) \<Longrightarrow> streamer_connect st0 ip port w0 = (True, st, w) \<Longrightarrow>
      P m \<Longrightarrow> P (m\<lparr>host := w, heap := (heap m)(next_ref m \<mapsto> st), next_ref := Suc (next_ref m)\<rparr>)"
    and frame_refused: "Streamer_new (host m) = (st0, w0) \<Longrightarrow> streamer_connect st0 ip port w0 = (False, st, w) \<Longrightarrow>
      P m \<Longrightarrow> P (m\<lparr>host := Streamer_delete st w\<rparr>)"

sublocale frame_invariant \<subseteq> lasting_invariant P
proof (unfold_locales, goal_cases)
  case (1 m)
  then show ?case by (rule frame_kept [OF pump_step_kept])
next
  case (2 m a ok m')
  then show ?case using frame_subscribe by blast
next
  case (3 m r)
  then show ?case using kept_after_unsubscribe frame_kept frame_list by blast
next
  case (8 m)
  then show ?case using kept_after_delete frame_kept frame_flags by blast
qed (fact frame_draw frame_release frame_connected frame_refused)+

section \<open>What never changes\<close>

text \<open>
  The configuration of the hub, its timestamp increment and the outside world are those the server
  was started with.
\<close>

definition fixed_by :: "media \<Rightarrow> media \<Rightarrow> bool" where
  "fixed_by m0 m \<longleftrightarrow> hub_cfg (hub m) = hub_cfg (hub m0) \<and>
     hub_ts_increment (hub m) = hub_ts_increment (hub m0) \<and> same_host (host m0) (host m)"

lemma fixed_by_kept: "kept m m' \<Longrightarrow> fixed_by m0 m \<Longrightarrow> fixed_by m0 m'"
  by (auto simp: kept_def fixed_by_def intro: same_host_trans)

lemma Streamer_new_host: "Streamer_new w = (st, w') \<Longrightarrow> same_host w w'"
  by (auto simp: Streamer_new_def UdpSocket_new_def draw_def Let_def same_host_def ticked_def split: prod.splits)

lemma streamer_connect_host: "streamer_connect st ip port w = (ok, st', w') \<Longrightarrow> same_host w w'"
  by (auto simp: streamer_connect_def udp_connect_to_def Let_def same_host_def ticked_def split: if_splits)

lemma same_host_draw: "same_host w (snd (draw w))"
  by (simp add: draw_def)

lemma hub_subscribe_fixed:
  assumes "hub_subscribe (Some r) m = (ok, m')"
  shows "hub_cfg (hub m') = hub_cfg (hub m)" "hub_ts_increment (hub m') = hub_ts_increment (hub m)"
    "hub_sps (hub m') = hub_sps (hub m)" "hub_pps (hub m') = hub_pps (hub m)" "udp_log (host m') = udp_log (host m)"
proof -
  have "source_start s w = (ok, s', w') \<Longrightarrow> udp_log w' = udp_log w" for s w ok s' w'
    by (cases s) (auto simp: file_start_def camera_start_def Let_def split: if_splits option.splits prod.splits)
  then show "hub_cfg (hub m') = hub_cfg (hub m)" "hub_ts_increment (hub m') = hub_ts_increment (hub m)"
    "hub_sps (hub m') = hub_sps (hub m)" "hub_pps (hub m') = hub_pps (hub m)" "udp_log (host m') = udp_log (host m)"
    using assms by (auto simp: hub_subscribe_def hub_start_pump_def Let_def split: prod.splits if_splits)
qed

interpretation unchanging: frame_invariant "fixed_by m0" for m0
proof (unfold_locales, goal_cases)
  case (1 m m')
  then show ?case by (rule fixed_by_kept)
next
  case (2 r m ok m')
  then show ?case using hub_subscribe_fixed [OF 2(1)] hub_subscribe_effect(4) [OF 2(1)]
    by (auto simp: fixed_by_def intro: same_host_trans)
next
  case (5 m)
  then show ?case using same_host_draw same_host_trans by (fastforce simp: fixed_by_def)
next
  case (6 m r)
  then show ?case using streamer_release_fields(5) [of m r] by (auto simp: fixed_by_def intro: same_host_trans)
next
  case (7 m st0 w0 ip port st w)
  then have "same_host (host m) w" using Streamer_new_host streamer_connect_host same_host_trans by blast
  with 7 show ?case by (auto simp: fixed_by_def intro: same_host_trans)
next
  case (8 m st0 w0 ip port st w)
  then have "same_host (host m) w" using Streamer_new_host streamer_connect_host same_host_trans by blast
  with 8 show ?case using Streamer_delete_fields(1) by (auto simp: fixed_by_def intro: same_host_trans)
qed (simp_all add: fixed_by_def)

lemma reached_constant:
  "reaches iter a srv \<Longrightarrow> hub_cfg (hub (plant srv)) = hub_cfg (hub (plant a)) \<and>
     hub_ts_increment (hub (plant srv)) = hub_ts_increment (hub (plant a)) \<and>
     same_host (host (plant a)) (host (plant srv))"
  using unchanging.runs.reaches_keeps [of iter a srv "plant a"] by (simp add: fixed_by_def)

section \<open>The streamers\<close>

text \<open>
  Every streamer in the store has an open socket and announces the payload type of the session
  descriptions.
\<close>

definition streamers_ok :: "media \<Rightarrow> bool" where
  "streamers_ok m \<longleftrightarrow> (\<forall>r st. heap m r = Some st \<longrightarrow> st_payload_type st = 96 \<and> 0 \<le> udp_fd (socket st))"

lemma streamers_ok_same:
  assumes "\<And>r. map_option socket (heap m' r) = map_option socket (heap m r)"
    and "\<And>r. map_option st_payload_type (heap m' r) = map_option st_payload_type (heap m r)"
    and "streamers_ok m"
  shows "streamers_ok m'"
  unfolding streamers_ok_def
proof (intro allI impI)
  fix r st assume "heap m' r = Some st"
  with assms(1,2) [of r] obtain st0 where "heap m r = Some st0" "socket st = socket st0"
    "st_payload_type st = st_payload_type st0" by (cases "heap m r") auto
  with assms(3) show "st_payload_type st = 96 \<and> 0 \<le> udp_fd (socket st)" by (auto simp: streamers_ok_def)
qed

interpretation streamers: frame_invariant streamers_ok
proof (unfold_locales, goal_cases)
  case (1 m m')
  from 1(2) show ?case by (rule streamers_ok_same [rotated 2]) (use 1(1) in \<open>simp_all add: kept_def\<close>)
next
  case (2 r m ok m')
  then show ?case using hub_subscribe_effect(1) [OF 2(1)] by (simp add: streamers_ok_def)
next
  case (7 m st0 w0 ip port st w)
  then have "st_payload_type st = 96" "0 \<le> udp_fd (socket st)"
    by (auto simp: Streamer_new_def streamer_connect_def udp_connect_to_def UdpSocket_new_def draw_def Let_def
        split: if_splits)
  with 7(3) show ?case by (auto simp: streamers_ok_def)
qed (simp_all add: streamers_ok_def)

end
