(* ===== verification/Framing.thy ===== *)
theory Framing
  imports Keeping
begin

text \<open>
  What a session writes on its connection is a sequence of RTSP messages, whatever the client sends.
  Parts of a request come back in the responses (the URI in \<open>Content-Base\<close>, the ports in \<open>Transport\<close>),
  so this is where a request could break the framing of the connection.
\<close>

section \<open>Lines with arbitrary content\<close>

text \<open>A lone CR or LF may occur in a URI; the two in a row cannot.\<close>

definition no_crlf :: "string \<Rightarrow> bool" where
  "no_crlf s \<longleftrightarrow> find_sub crlf s = None"

lemma take_2_crlf: "take (length crlf) (drop k s) = crlf \<longleftrightarrow>
    Suc k < length s \<and> s ! k = CHR 0x0D \<and> s ! Suc k = CHR 0x0A"
proof (cases "Suc k < length s")
  case True
  then have "drop k s = s ! k # s ! Suc k # drop (Suc (Suc k)) s"
    by (metis Cons_nth_drop_Suc Suc_lessD)
  with True show ?thesis by (simp add: crlf_def)
next
  case False
  then have "length (take (length crlf) (drop k s)) \<noteq> length crlf" by (simp add: crlf_def)
  then have "take (length crlf) (drop k s) \<noteq> crlf" by metis
  with False show ?thesis by blast
qed

lemma no_crlf_iff: "no_crlf s \<longleftrightarrow> (\<forall>k. Suc k < length s \<longrightarrow> s ! k = CHR 0x0D \<longrightarrow> s ! Suc k \<noteq> CHR 0x0A)"
proof -
  have "crlf \<noteq> []" by (simp add: crlf_def)
  from find_sub_None_iff [OF this, of s] show ?thesis unfolding no_crlf_def take_2_crlf by auto
qed

lemma no_crlf_take: "no_crlf s \<Longrightarrow> no_crlf (take n s)"
  by (simp add: no_crlf_iff)

lemma no_crlf_drop: "no_crlf s \<Longrightarrow> no_crlf (drop n s)"
  by (auto simp: no_crlf_iff)

lemma no_crlf_no_cr: "no_cr s \<Longrightarrow> no_crlf s"
  unfolding no_crlf_iff by (metis Suc_lessD nth_mem)

lemma no_crlf_append:
  assumes "no_crlf a" and "no_crlf b" and "b = [] \<or> hd b \<noteq> CHR 0x0A"
  shows "no_crlf (a @ b)"
  unfolding no_crlf_iff
proof (intro allI impI)
  fix k assume k: "Suc k < length (a @ b)" "(a @ b) ! k = CHR 0x0D"
  consider "Suc k < length a" | "Suc k = length a" | "length a \<le> k" by linarith
  then show "(a @ b) ! Suc k \<noteq> CHR 0x0A"
  proof cases
    case 1
    with k assms(1) show ?thesis by (simp add: no_crlf_iff nth_append)
  next
    case 2
    with k(1) have "b \<noteq> []" "(a @ b) ! Suc k = hd b" by (auto simp: nth_append hd_conv_nth)
    with assms(3) show ?thesis by simp
  next
    case 3
    with k assms(2) show ?thesis by (auto simp: no_crlf_iff nth_append Suc_diff_le)
  qed
qed

lemma next_line_at_crlf:
  assumes "no_crlf line"
  shows "next_line (line @ crlf @ rest) = (line, rest)"
proof -
  have "find_sub crlf (line @ crlf @ rest) = Some (length line)"
  proof (rule find_sub_eq_SomeI)
    fix k assume k: "k < length line"
    show "take (length crlf) (drop k (line @ crlf @ rest)) \<noteq> crlf"
    proof (cases "Suc k < length line")
      case True
      with assms show ?thesis unfolding take_2_crlf no_crlf_iff by (auto simp: nth_append)
    next
      case False
      with k have "(line @ crlf @ rest) ! Suc k = CHR 0x0D" by (simp add: nth_append crlf_def)
      then show ?thesis unfolding take_2_crlf by simp
    qed
  qed (simp_all add: crlf_def)
  then show ?thesis by (simp add: next_line_def crlf_def)
qed

lemma next_line_no_crlf: "no_crlf (fst (next_line raw))"
proof (cases "find_sub crlf raw")
  case None
  then show ?thesis by (simp add: next_line_def no_crlf_def)
next
  case (Some n)
  have "\<not> (s ! k = CHR 0x0D \<and> s ! Suc k = CHR 0x0A)" if "s = take n raw" "Suc k < length s" for s k
    using find_sub_Some_least [OF Some, of k] that by (auto simp: take_2_crlf)
  with Some show ?thesis by (auto simp: next_line_def no_crlf_iff)
qed

text \<open>So the URI that a parsed request carries has no line break in it.\<close>

lemma parsed_uri:
  assumes "parse_request iter raw = Inr (Some req)"
  shows "no_crlf (uri req)"
proof -
  have "\<exists>m u v. request_line_shape (fst (next_line raw)) m u v"
    using assms parse_request_no_shape [of raw iter] by auto
  then obtain m u v where sh: "request_line_shape (fst (next_line raw)) m u v" by blast
  have "uri req = u" using assms parse_request_shape [OF sh, of iter] by (auto simp: Let_def split: sum.splits)
  moreover have "u = take (length u) (drop (Suc (length m)) (fst (next_line raw)))"
    using sh by (simp add: request_line_shape_def)
  ultimately show ?thesis using next_line_no_crlf no_crlf_take no_crlf_drop by metis
qed

section \<open>Reading a message back\<close>

text \<open>A client trims the field values it reads.\<close>

definition trimmed :: "header_table \<Rightarrow> header_table" where
  "trimmed fs = map (\<lambda>(k, v). (k, trim v)) fs"

fun good_field :: "string \<times> string \<Rightarrow> bool" where
  "good_field (k, v) \<longleftrightarrow> k \<noteq> [] \<and> no_cr k \<and> CHR '':'' \<notin> set k \<and> trim k = k \<and> no_crlf v"

lemma read_fields_good:
  assumes "good_field (k, v)"
  shows "read_fields (k @ '': '' @ v @ crlf @ rest) fs = read_fields rest (fs @ [(k, trim v)])"
proof -
  have v: "no_crlf ('': '' @ v)"
    using assms no_crlf_no_cr [of "'': ''"] by (cases "v = [] \<or> hd v \<noteq> CHR 0x0A")
      (auto intro: no_crlf_append simp: no_crlf_iff nth_Cons split: nat.splits)
  have "no_crlf (k @ '': '' @ v)"
    by (rule no_crlf_append [OF no_crlf_no_cr v]) (use assms in auto)
  then have nl: "next_line ((k @ '': '' @ v) @ crlf @ rest) = (k @ '': '' @ v, rest)"
    by (rule next_line_at_crlf)
  have "find_idx (\<lambda>c. c = CHR '':'') (k @ '': '' @ v) = Some (length k)"
    using assms find_idx_hit [of k "\<lambda>c. c = CHR '':''" "CHR '':''"] by auto
  then show ?thesis
    using nl assms by (subst read_fields.simps) simp
qed

lemma read_good_fields:
  "list_all good_field fs \<Longrightarrow> read_fields (render_headers fs @ crlf @ rest) acc = Some (acc @ trimmed fs, rest)"
proof (induction fs arbitrary: acc)
  case Nil
  then show ?case by (simp add: render_headers_def read_fields_end trimmed_def)
next
  case (Cons f fs)
  obtain k v where f: "f = (k, v)" by (cases f)
  with Cons.prems have "good_field (k, v)" by simp
  from read_fields_good [OF this, of "render_headers fs @ crlf @ rest" acc] Cons f
  show ?case by (simp add: render_headers_def trimmed_def)
qed

lemma read_good_reply:
  assumes "int32 code" and "no_cr why" and "list_all good_field fs"
    and "content_length (trimmed fs) = Some (length content)"
  shows "read_reply (render_reply code why fs content @ rest) =
     Some (\<lparr>reply_status = code, reply_reason = why, reply_fields = trimmed fs, reply_body = content\<rparr>, rest)"
proof -
  have nl: "next_line ((''RTSP/1.0 '' @ show_int code @ '' '' @ why) @ crlf
       @ render_headers fs @ crlf @ content @ rest)
     = (''RTSP/1.0 '' @ show_int code @ '' '' @ why, render_headers fs @ crlf @ content @ rest)"
    using assms(2) by (intro next_line_hit) auto
  have sp: "find_idx (\<lambda>c. c = CHR '' '') (show_int code @ CHR '' '' # why) = Some (length (show_int code))"
    using show_int_no_space by (intro find_idx_hit) (auto simp: isspace_def)
  have num: "stoi (show_int code @ CHR '' '' # why) = Inr code"
    by (rule stoi_show_int [OF assms(1)]) (auto simp: isdigit_def)
  show ?thesis
    using nl sp num read_good_fields [OF assms(3), of "content @ rest" "[]"] assms(4)
    by (simp add: render_reply_def read_reply_def)
qed

section \<open>Framed messages\<close>

definition statuses :: "int set" where
  "statuses = {200, 400, 454, 455, 461, 500, 501}"

definition framed :: "string \<Rightarrow> bool" where
  "framed r \<longleftrightarrow> (\<exists>reply. reply_status reply \<in> statuses \<and> (\<forall>rest. read_reply (r @ rest) = Some (reply, rest)))"

lemma framed_render:
  assumes "code \<in> statuses" and "no_cr why" and "list_all good_field fs"
    and "content_length (trimmed fs) = Some (length content)"
  shows "framed (render_reply code why fs content)"
proof -
  have "int32 code" using assms(1) by (auto simp: statuses_def int32_def)
  from read_good_reply [OF this assms(2-4)] assms(1) show ?thesis
    unfolding framed_def by (metis reply.select_convs(1))
qed

lemma good_value: "no_crlf v \<Longrightarrow> list_all good_field [(''CSeq'', v)]"
  by simp

lemma no_crlf_values [simp]:
  "no_crlf (show_int i)" "no_crlf (transport_value a b c d)" "no_crlf public_methods"
  "no_crlf ''npt=0.000-''" "no_crlf ''application/sdp''"
proof -
  have "wf_value v \<Longrightarrow> no_crlf v" for v by (simp add: wf_value_def no_crlf_no_cr)
  then show "no_crlf (show_int i)" "no_crlf (transport_value a b c d)" "no_crlf public_methods"
    "no_crlf ''npt=0.000-''" "no_crlf ''application/sdp''" by simp_all
qed

lemma framed_bodyless:
  assumes "code \<in> statuses" and "no_cr why" and "list_all good_field fs"
    and "map_of fs ''Content-Length'' = None"
  shows "framed (render_reply code why fs [])"
proof -
  have "map_of (trimmed fs) ''Content-Length'' = None"
    using assms(4) by (induction fs) (auto simp: trimmed_def split: if_splits)
  from framed_render [OF assms(1-3), of "[]"] content_length_absent [OF this] show ?thesis by simp
qed

lemma framed_responses:
  "framed (response_ok cs)" "no_crlf sid \<Longrightarrow> framed (response_ok_session cs sid)"
  "framed (response_options cs)" "no_crlf sid \<Longrightarrow> framed (response_setup cs sid a b c d)"
  "no_crlf sid \<Longrightarrow> framed (response_play cs sid)" "no_crlf sid \<Longrightarrow> framed (response_teardown cs sid)"
  "code \<in> statuses \<Longrightarrow> no_cr why \<Longrightarrow> framed (response_error cs code why)"
  unfolding renderings by (rule framed_bodyless; simp add: statuses_def)+

lemma framed_describe:
  assumes "no_crlf base" and "int32 (int (length sdp))"
  shows "framed (response_describe cs sdp base)"
proof -
  have "trim (show_int i) = show_int i" for i by (intro trim_id show_int_no_space)
  then show ?thesis unfolding renderings
    using assms by (intro framed_render content_length_present) (simp_all add: statuses_def trimmed_def)
qed


section \<open>What a session sends\<close>

definition hex_string :: "string \<Rightarrow> bool" where
  "hex_string v \<longleftrightarrow> set v \<subseteq> set ''0123456789ABCDEF''"

definition hex_id :: "Session \<Rightarrow> bool" where
  "hex_id s \<longleftrightarrow> hex_string (session_id s)"

lemma no_crlf_hex: "hex_string v \<Longrightarrow> no_crlf v"
  unfolding hex_string_def by (intro no_crlf_no_cr) auto

lemma generated_hex: "generate_session_id w = (sid, w') \<Longrightarrow> hex_string sid"
  unfolding hex_string_def by (rule generate_session_id_shape(2))

text \<open>A parameter set that is known stays what it is.\<close>

definition params_kept :: "media \<Rightarrow> media \<Rightarrow> bool" where
  "params_kept m m' \<longleftrightarrow>
     (hub_sps (hub m) \<noteq> [] \<longrightarrow> hub_sps (hub m') = hub_sps (hub m)) \<and>
     (hub_pps (hub m) \<noteq> [] \<longrightarrow> hub_pps (hub m') = hub_pps (hub m))"

lemma params_kept_refl [simp]: "params_kept m m"
  by (simp add: params_kept_def)

lemma params_kept_trans: "params_kept a b \<Longrightarrow> params_kept b c \<Longrightarrow> params_kept a c"
  by (auto simp: params_kept_def)

definition params_size :: "media \<Rightarrow> nat" where
  "params_size m = length (hub_sps (hub m)) + length (hub_pps (hub m))"

lemma params_size_mono: "params_kept m m' \<Longrightarrow> params_size m \<le> params_size m'"
  by (cases "hub_sps (hub m) = []"; cases "hub_pps (hub m) = []") (auto simp: params_kept_def params_size_def)

lemma params_same: "hub_sps (hub m') = hub_sps (hub m) \<Longrightarrow> hub_pps (hub m') = hub_pps (hub m) \<Longrightarrow> params_kept m m'"
  by (simp add: params_kept_def)

lemma params_kept_kept: "kept m m' \<Longrightarrow> params_kept a m \<Longrightarrow> params_kept a m'"
  by (auto simp: kept_def params_kept_def)

interpretation parameter_sets: frame_invariant "params_kept m0" for m0
proof (unfold_locales, goal_cases)
  case (1 m m')
  then show ?case by (rule params_kept_kept)
next
  case (2 r m ok m')
  from 2(2) params_same [OF hub_subscribe_fixed(3,4) [OF 2(1)]] show ?case by (rule params_kept_trans)
qed (simp_all add: params_kept_def)

lemma handle_params: "handle req s m = (resp, sent, s', m') \<Longrightarrow> params_kept m m'"
  by (erule parameter_sets.handle_P) simp

section \<open>The size of a description\<close>

definition sdp_head :: string where
  "sdp_head = ''v=0'' @ crlf @ ''o=- 0 0 IN IP4 0.0.0.0'' @ crlf @ ''s=VEDA RTSP Stream'' @ crlf
     @ ''c=IN IP4 0.0.0.0'' @ crlf @ ''t=0 0'' @ crlf @ ''a=control:*'' @ crlf
     @ ''m=video 0 RTP/AVP '' @ show_int 96 @ crlf
     @ ''a=rtpmap:'' @ show_int 96 @ '' H264/'' @ show_int 90000 @ crlf
     @ ''a=fmtp:'' @ show_int 96 @ '' packetization-mode=1''"

definition sdp_tail :: "string \<Rightarrow> string" where
  "sdp_tail v = (if v \<noteq> [] then '';sprop-parameter-sets='' @ v else [])"

lemma length_show_nat: "n < 10 ^ Suc k \<Longrightarrow> length (show_nat n) \<le> Suc k"
proof (induction k arbitrary: n)
  case 0
  then show ?case by (subst show_nat.simps) simp
next
  case (Suc k)
  show ?case
  proof (cases "n < 10")
    case True
    then show ?thesis by (subst show_nat.simps) simp
  next
    case False
    have "n div 10 < 10 ^ Suc k" using Suc.prems by (simp add: less_mult_imp_div_less mult.commute)
    with Suc.IH have "length (show_nat (n div 10)) \<le> Suc k" by blast
    then show ?thesis using False by (subst show_nat.simps) simp
  qed
qed

lemma length_sdp_head: "length sdp_head \<le> 300"
proof -
  have "length (show_int 96) \<le> 5" "length (show_int 90000) \<le> 5"
    using length_show_nat [of 96 4] length_show_nat [of 90000 4] by (simp_all add: show_int_def)
  then show ?thesis unfolding sdp_head_def crlf_def length_append list.size by linarith
qed

lemma length_build_default:
  "length (build \<lparr>info_payload_type = 96, info_clock_rate = 90000, info_sprop_parameter_sets = v\<rparr>)
     \<le> 400 + length v"
proof -
  have "build \<lparr>info_payload_type = 96, info_clock_rate = 90000, info_sprop_parameter_sets = v\<rparr>
      = sdp_head @ sdp_tail v @ crlf @ ''a=control:track0'' @ crlf"
    by (simp only: build_def sdp_head_def sdp_tail_def append_assoc VideoStreamInfo.select_convs)
  moreover have "length sdp_head \<le> 300" by (rule length_sdp_head)
  moreover have "length (sdp_tail v) \<le> 22 + length v" by (simp add: sdp_tail_def)
  moreover have "length (crlf @ ''a=control:track0'' @ crlf) = 20" by code_simp
  ultimately show ?thesis by (simp only: length_append)
qed

lemma length_sprop: "length (sprop_parameter_sets h) \<le> 2 * (length (hub_sps h) + length (hub_pps h)) + 20"
proof -
  have enc: "length (base64_encode bs) \<le> 2 * length bs + 8" for bs
    unfolding length_base64_encode by presburger
  show ?thesis using enc [of "hub_sps h"] enc [of "hub_pps h"] by (simp add: sprop_parameter_sets_def)
qed

lemma no_crlf_uri: "no_crlf u \<Longrightarrow> no_crlf (u @ ''/'')"
  by (rule no_crlf_append) (simp_all add: no_crlf_iff)

lemma describe_framed:
  assumes "handle_describe req s m = (resp, sent, s', m')" and "no_crlf (uri req)" and "params_size m < 2 ^ 29"
  shows "framed resp" and "sent = []" and "s' = s" and "m' = m"
proof -
  define v where "v = (if has_hub s then sprop_parameter_sets (hub m) else [])"
  let ?sdp = "build \<lparr>info_payload_type = 96, info_clock_rate = 90000, info_sprop_parameter_sets = v\<rparr>"
  have "(response_describe (cseq req) ?sdp (uri req @ ''/''), [], s, m) = (resp, sent, s', m')"
    using assms(1) unfolding handle_describe_def v_def Let_def .
  then have resp: "resp = response_describe (cseq req) ?sdp (uri req @ ''/'')"
    and "sent = [] \<and> s' = s \<and> m' = m" unfolding prod.inject by blast+
  then show "sent = []" "s' = s" "m' = m" by simp_all
  have "length v \<le> 2 * params_size m + 20" using length_sprop [of "hub m"] by (simp add: v_def params_size_def)
  then have "length ?sdp < 2 ^ 31" using length_build_default [of v] assms(3) by simp
  then have "int32 (int (length ?sdp))" by (simp add: int32_def)
  then show "framed resp" unfolding resp by (rule framed_describe [OF no_crlf_uri [OF assms(2)]])
qed

lemma set_outputs [simp]: "set (outputs r sent) = fst ` set sent \<union> (if r = [] then {} else {r})"
  by (simp add: outputs_def)

lemma no_crlf_id: "hex_id s \<Longrightarrow> no_crlf (session_id s)"
  unfolding hex_id_def by (rule no_crlf_hex)

lemma setup_framed:
  assumes "handle_setup req s m = (resp, sent, s', m')" and "hex_id s"
  shows "framed resp" and "sent = []" and "hex_id s'"
  using assms no_crlf_id [OF assms(2)] generated_hex no_crlf_hex
  by (auto simp: handle_setup_def hex_id_def framed_responses statuses_def Let_def
      split: option.splits prod.splits if_splits)

lemma handle_hex:
  assumes "handle req s m = (resp, sent, s', m')" and "hex_id s"
  shows "hex_id s'"
proof -
  obtain t n where st: "stop_streaming s m = (t, n)" by fastforce
  with stop_streaming_fields(3) [of s m] have t: "session_id t = session_id s" by simp
  show ?thesis
    using assms t st setup_framed(3)
    by (auto simp: handle_def handle_describe_def handle_play_def handle_pause_def
        handle_teardown_def hex_id_def Let_def split: if_splits Method.splits prod.splits)
qed

lemma handle_framed:
  assumes "handle req s m = (resp, sent, s', m')" and "no_crlf (uri req)" and "hex_id s"
    and "params_size m < 2 ^ 29"
  shows "\<forall>r \<in> set (outputs resp sent). framed r"
proof (cases "req_method req = UNKNOWN \<or> \<not> method_allowed (state s) (req_method req)")
  case True
  with assms(1) show ?thesis
    by (auto simp: handle_def framed_responses statuses_def split: if_splits)
next
  case False
  note sid = no_crlf_id [OF assms(3)]
  obtain t n where st: "stop_streaming s m = (t, n)" by fastforce
  with stop_streaming_fields(3) [of s m] have t: "session_id t = session_id s" by simp
  show ?thesis
  proof (cases "req_method req")
    case DESCRIBE
    with False assms(1) have "handle_describe req s m = (resp, sent, s', m')" by (simp add: handle_def)
    from describe_framed [OF this assms(2,4)] show ?thesis by simp
  next
    case SETUP
    with False assms(1) have "handle_setup req s m = (resp, sent, s', m')" by (simp add: handle_def)
    from setup_framed [OF this assms(3)] show ?thesis by simp
  next
    case PLAY
    with False assms(1) have h: "handle_play req s m = (resp, sent, s', m')" by (simp add: handle_def)
    then show ?thesis
      using sid by (auto simp: handle_play_def framed_responses statuses_def Let_def
          split: if_splits prod.splits)
  next
    case PAUSE
    with False assms(1) st t sid show ?thesis
      by (auto simp: handle_def handle_pause_def framed_responses statuses_def Let_def split: if_splits)
  next
    case TEARDOWN
    with False assms(1) st t sid show ?thesis
      by (auto simp: handle_def handle_teardown_def framed_responses statuses_def Let_def split: if_splits)
  qed (use False assms(1,3) sid in \<open>auto simp: handle_def framed_responses split: if_splits\<close>)
qed

lemma hex_id_rx [simp]: "hex_id (s\<lparr>rx_buffer := b\<rparr>) = hex_id s"
  by (simp add: hex_id_def)

lemma feed_loop_framed:
  assumes "feed_loop iter s m = (out, res, s', m')" and "hex_id s" and "params_size m' < 2 ^ 29"
  shows "(\<forall>r \<in> set out. framed r) \<and> hex_id s' \<and> params_size m \<le> params_size m'"
  using assms
proof (induction rule: feed_loop_rule)
  case (bad s m n out res s' m')
  then show ?case by (simp add: framed_responses statuses_def)
next
  case (closed s m n req resp sent s1 m1)
  have size: "params_size m \<le> params_size m1" by (rule params_size_mono [OF handle_params [OF closed(3)]])
  with closed.prems have "\<forall>r \<in> set (outputs resp sent). framed r"
    by (intro handle_framed [OF closed(3) parsed_uri [OF closed(2)]]) simp_all
  then show ?case using size handle_hex [OF closed(3)] closed.prems by simp
next
  case (more s m n req resp sent s1 m1 out res s' m')
  have size: "params_size m \<le> params_size m1" by (rule params_size_mono [OF handle_params [OF more(3)]])
  have "hex_id s1" using handle_hex [OF more(3)] more.prems by simp
  with more have ih: "(\<forall>r \<in> set out. framed r) \<and> hex_id s' \<and> params_size m1 \<le> params_size m'" by blast
  with size more.prems have "\<forall>r \<in> set (outputs resp sent). framed r"
    by (intro handle_framed [OF more(3) parsed_uri [OF more(2)]]) simp_all
  then show ?case using ih size by auto
qed simp_all

section \<open>Properties\<close>

text \<open>Framed messages one after the other are read back one by one.\<close>

lemma framed_drains:
  "\<forall>r \<in> set out. framed r \<Longrightarrow>
     \<exists>replies. drains read_reply (concat out) replies [] \<and> length replies = length out \<and>
       (\<forall>y \<in> set replies. reply_status y \<in> statuses)"
proof (induction out)
  case Nil
  have "read_reply [] = None" by code_simp
  then show ?case by (intro exI [of _ "[]"]) (simp add: drains.stop)
next
  case (Cons r out)
  then obtain replies y where "drains read_reply (concat out) replies []" "length replies = length out"
    "\<forall>y \<in> set replies. reply_status y \<in> statuses" "reply_status y \<in> statuses"
    "read_reply (r @ concat out) = Some (y, concat out)" unfolding framed_def by fastforce
  then show ?case by (intro exI [of _ "y # replies"]) (auto intro: drains.item)
qed

text \<open>
  C14: no request breaks the framing of the connection.  Whatever bytes arrive, in whatever state the
  session is, the bytes it writes are as many complete RTSP messages as it sent, which a client reads
  one after the other with nothing left over, each with one of the seven statuses the server uses;
  text of the request that a response repeats cannot start a message or end one.
\<close>

theorem responses_framed:
  assumes "feed iter data s m = (out, res, s', m')" and "hex_id s" and "params_size m' < 2 ^ 29"
  shows "(\<exists>replies. drains read_reply (concat out) replies [] \<and> length replies = length out \<and>
       (\<forall>y \<in> set replies. reply_status y \<in> {200, 400, 454, 455, 461, 500, 501})) \<and> hex_id s'"
proof (cases "length (rx_buffer s @ data) > kMaxRxBuffer")
  case True
  with assms(1,2) have "out = []" "hex_id s'" by (auto simp: feed_def Let_def)
  with framed_drains [of "[]"] show ?thesis by (simp add: statuses_def)
next
  case False
  with assms(1) have f: "feed_loop iter (s\<lparr>rx_buffer := rx_buffer s @ data\<rparr>) m = (out, res, s', m')"
    by (simp add: feed_def Let_def)
  have "hex_id (s\<lparr>rx_buffer := rx_buffer s @ data\<rparr>)" using assms(2) by simp
  from feed_loop_framed [OF f this assms(3)] framed_drains [of out] show ?thesis
    unfolding statuses_def by blast
qed

lemma responses_framed_witness:
  "\<exists>replies. drains read_reply (concat (fst (feed id (crlf @ crlf) sample_session sample_media))) replies [] \<and>
     length replies = 1"
proof -
  have h: "hex_id sample_session" by (simp add: hex_id_def hex_string_def sample_session_def Session_new_def)
  have p: "params_size sample_media < 2 ^ 29"
    by (simp add: params_size_def sample_media_def hub_new_def SourceConfig_default_def)
  from responses_framed [OF feed_blank h p] show ?thesis by (auto simp: feed_blank)
qed

text \<open>
  C33: once both parameter sets are known, the value that \<open>DESCRIBE\<close> advertises is the two of them in
  Base64 with a comma between, from which a client recovers them; and in every state the server can
  come to from there, with any events of any clients and any turns of the pump, with the source ended
  or stopped and started again, the value is the same.
\<close>

theorem sprop_recoverable:
  assumes "hub_sps (hub (plant srv)) \<noteq> []" and "hub_pps (hub (plant srv)) \<noteq> []" and "reaches iter srv srv'"
  shows "\<exists>a b. sprop_parameter_sets (hub (plant srv)) = a @ '','' @ b \<and> CHR '','' \<notin> set a \<and>
     base64_decode a = Some (hub_sps (hub (plant srv))) \<and> base64_decode b = Some (hub_pps (hub (plant srv))) \<and>
     sprop_parameter_sets (hub (plant srv')) = a @ '','' @ b"
proof -
  have "params_kept (plant srv) (plant srv')" by (rule parameter_sets.runs.reaches_keeps [OF assms(3)]) simp
  then show ?thesis
    using assms(1,2) decode_encode base64_plain(1)
    by (intro exI [of _ "base64_encode (hub_sps (hub (plant srv)))"] exI [of _ "base64_encode (hub_pps (hub (plant srv)))"])
       (simp add: sprop_parameter_sets_def params_kept_def)
qed

lemma sprop_recoverable_witness:
  "let m = sample_media\<lparr>hub := (hub sample_media)\<lparr>hub_sps := [0x67, 0x42], hub_pps := [0x68]\<rparr>\<rparr>
   in \<exists>a b. sprop_parameter_sets (hub m) = a @ '','' @ b \<and> base64_decode a = Some [0x67, 0x42] \<and>
        base64_decode b = Some [0x68] \<and> sprop_parameter_sets (hub (pump_step m)) = a @ '','' @ b"
proof -
  let ?m = "sample_media\<lparr>hub := (hub sample_media)\<lparr>hub_sps := [0x67, 0x42], hub_pps := [0x68]\<rparr>\<rparr>"
  let ?srv = "(server_new 3 4 ''a.h264'' sample_os)\<lparr>plant := ?m\<rparr>"
  have "reaches id ?srv (?srv\<lparr>plant := pump_step (plant ?srv)\<rparr>)" by (rule reaches.pump [OF reaches.here])
  from sprop_recoverable [OF _ _ this] show ?thesis by (auto simp: Let_def)
qed

end
