(* ===== verification/Ownership.thy ===== *)
theory Ownership
  imports Keeping
begin

text \<open>
  Who owns the UDP sockets.  Every streamer has one, opened by its constructor and closed by its
  destructor; a streamer is deleted when the last \<open>shared_ptr\<close> to it goes away, in the session.  The
  log of the host says what the kernel has been asked for.
\<close>

section \<open>The log\<close>

text \<open>
  The sockets open after a log, from those open before it; \<open>None\<close> when something is closed that is
  not open.
\<close>

fun held :: "int multiset \<Rightarrow> fd_event list \<Rightarrow> int multiset option" where
  "held M [] = Some M"
| "held M (Opened fd # es) = held (add_mset fd M) es"
| "held M (Closed fd # es) = (if fd \<in># M then held (M - {#fd#}) es else None)"

lemma held_append: "held M (es @ fs) = Option.bind (held M es) (\<lambda>N. held N fs)"
  by (induction M es rule: held.induct) simp_all

definition socket_fds :: "media \<Rightarrow> int multiset" where
  "socket_fds m = image_mset (\<lambda>r. udp_fd (socket (the (heap m r)))) (mset_set (dom (heap m)))"

text \<open>The sockets that are open are those of the streamers in the store.\<close>

definition sockets_ok :: "media \<Rightarrow> bool" where
  "sockets_ok m \<longleftrightarrow>
     held {#} (udp_log (host m)) = Some (socket_fds m) \<and>
     (\<forall>r st. heap m r = Some st \<longrightarrow> r < next_ref m \<and> 0 \<le> udp_fd (socket st))"

lemma sockets_finite: "sockets_ok m \<Longrightarrow> finite (dom (heap m))"
  by (rule finite_subset [of _ "{..<next_ref m}"]) (auto simp: sockets_ok_def)

lemma socket_fds_cong:
  assumes "\<And>r. map_option socket (heap m' r) = map_option socket (heap m r)"
  shows "socket_fds m' = socket_fds m"
proof -
  have "r \<in> dom (heap m') \<longleftrightarrow> r \<in> dom (heap m)" for r
    using assms [of r] by (cases "heap m r"; cases "heap m' r") auto
  then have "dom (heap m') = dom (heap m)" by blast
  moreover have "socket (the (heap m' r)) = socket (the (heap m r))" if "r \<in> dom (heap m)" for r
    using assms [of r] that by (cases "heap m' r") auto
  ultimately show ?thesis
    unfolding socket_fds_def by (cases "finite (dom (heap m))") (auto intro!: image_mset_cong)
qed

lemma sockets_ok_same:
  assumes "sockets_ok m" and "\<And>r. map_option socket (heap m' r) = map_option socket (heap m r)"
    and "udp_log (host m') = udp_log (host m)" and "next_ref m' = next_ref m"
  shows "sockets_ok m'"
  unfolding sockets_ok_def
proof (intro conjI allI impI)
  show "held {#} (udp_log (host m')) = Some (socket_fds m')"
    using assms socket_fds_cong [OF assms(2)] by (simp add: sockets_ok_def)
next
  fix r st assume "heap m' r = Some st"
  with assms(2) [of r] obtain st0 where "heap m r = Some st0" "socket st0 = socket st"
    by (cases "heap m r") auto
  then show "r < next_ref m'" "0 \<le> udp_fd (socket st)" using assms(1,4) unfolding sockets_ok_def by metis+
qed

lemma sockets_ok_kept: "kept m m' \<Longrightarrow> sockets_ok m \<Longrightarrow> sockets_ok m'"
  by (rule sockets_ok_same) (simp_all add: kept_def)

section \<open>Making and deleting streamers\<close>

lemma streamer_release_sockets:
  assumes "sockets_ok m"
  shows "sockets_ok (streamer_release r m)"
proof (cases "heap m r")
  case None
  with assms show ?thesis by (simp add: streamer_release_def)
next
  case (Some st)
  have fin: "finite (dom (heap m))" using assms by (rule sockets_finite)
  have r: "r \<in> dom (heap m)" using Some by blast
  have fd: "0 \<le> udp_fd (socket st)" using assms Some by (simp add: sockets_ok_def)
  let ?m = "streamer_release r m"
  have "socket_fds ?m = image_mset (\<lambda>r. udp_fd (socket (the (heap m r)))) (mset_set (dom (heap m) - {r}))"
    unfolding socket_fds_def by (auto intro!: image_mset_cong simp: fin)
  moreover have "mset_set (dom (heap m)) = add_mset r (mset_set (dom (heap m) - {r}))"
    using fin r by (rule mset_set.remove)
  ultimately have "socket_fds m = add_mset (udp_fd (socket st)) (socket_fds ?m)"
    using Some by (simp add: socket_fds_def)
  moreover have "udp_log (host ?m) = udp_log (host m) @ [Closed (udp_fd (socket st))]"
    using Some fd by (simp add: streamer_release_def Streamer_delete_def UdpSocket_delete_def)
  ultimately show ?thesis using assms by (simp add: sockets_ok_def held_append)
qed

lemma streamer_alloc_sockets:
  assumes "sockets_ok m" and "udp_log w = udp_log (host m) @ [Opened (udp_fd (socket st))]"
    and "0 \<le> udp_fd (socket st)"
  shows "sockets_ok (m\<lparr>host := w, heap := (heap m)(next_ref m \<mapsto> st), next_ref := Suc (next_ref m)\<rparr>)"
    (is "sockets_ok ?m")
proof -
  have fin: "finite (dom (heap m))" using assms(1) by (rule sockets_finite)
  have new: "next_ref m \<notin> dom (heap m)" using assms(1) by (auto simp: sockets_ok_def)
  have "image_mset (\<lambda>r. udp_fd (socket (the (heap ?m r)))) (mset_set (dom (heap m))) = socket_fds m"
    unfolding socket_fds_def using fin new by (intro image_mset_cong) auto
  then have "socket_fds ?m = add_mset (udp_fd (socket st)) (socket_fds m)"
    using fin new by (simp add: socket_fds_def)
  with assms show ?thesis by (auto simp: sockets_ok_def held_append less_SucI)
qed

lemma Streamer_new_log:
  assumes "Streamer_new w = (st, w')"
  shows "udp_log w' = udp_log w @ (if udp_fd (socket st) < 0 then [] else [Opened (udp_fd (socket st))])"
  using assms by (auto simp: Streamer_new_def UdpSocket_new_def draw_def Let_def)

lemma streamer_connect_log:
  assumes "streamer_connect st ip port w = (ok, st', w')"
  shows "udp_log w' = udp_log w \<and> udp_fd (socket st') = udp_fd (socket st) \<and> (ok \<longrightarrow> 0 \<le> udp_fd (socket st))"
  using assms by (auto simp: streamer_connect_def udp_connect_to_def Let_def split: if_splits)

section \<open>Every operation keeps them\<close>

interpretation socket_owners: frame_invariant sockets_ok
proof (unfold_locales, goal_cases)
  case (1 m m')
  then show ?case by (rule sockets_ok_kept)
next
  case (2 r m ok m')
  from 2(2) show ?case
    by (rule sockets_ok_same) (use hub_subscribe_effect(1,2) [OF 2(1)] hub_subscribe_fixed(5) [OF 2(1)] in simp_all)
next
  case (5 m)
  then show ?case by (simp add: draw_def sockets_ok_def socket_fds_def)
next
  case (6 m r)
  then show ?case by (rule streamer_release_sockets)
next
  case (7 m st0 w0 ip port st w)
  with Streamer_new_log [OF 7(1)] streamer_connect_log [OF 7(2)] show ?case
    by (intro streamer_alloc_sockets) simp_all
next
  case (8 m st0 w0 ip port st w)
  have "held {#} (udp_log (Streamer_delete st w)) = held {#} (udp_log (host m))"
    using Streamer_new_log [OF 8(1)] streamer_connect_log [OF 8(2)]
    by (cases "held {#} (udp_log (host m))")
      (simp_all add: Streamer_delete_def UdpSocket_delete_def held_append)
  with 8(3) show ?case by (simp add: sockets_ok_def socket_fds_def)
qed (simp_all add: sockets_ok_def socket_fds_def)

section \<open>Properties\<close>

text \<open>
  C5: no UDP socket is leaked or closed twice.  In every state of a running
  server the log of the kernel is in order, and the sockets open are exactly one for each client that
  is playing, whatever failed on the way there: connecting, or starting the source.  When the loop is
  left and the clients are cleared, in whatever order, none is open.
\<close>

theorem sockets_owned:
  assumes "reaches iter (server_new fd epoll path w) srv" and "udp_log w = []"
  shows "held {#} (udp_log (host (plant srv))) =
      Some (image_mset (\<lambda>r. udp_fd (socket (the (heap (plant srv) r)))) (mset_set (streaming srv))) \<and>
    (\<forall>fds. dom (clients srv) \<subseteq> set fds \<longrightarrow> held {#} (udp_log (host (plant (shutdown fds srv)))) = Some {#})"
proof (intro conjI allI impI)
  have "sockets_ok (plant (server_new fd epoll path w))"
    using assms(2) by (simp add: sockets_ok_def socket_fds_def server_new_def)
  with socket_owners.runs.reaches_keeps [OF assms(1)] have s: "sockets_ok (plant srv)" by blast
  have ok: "server_ok srv" by (rule reaches_ok [OF assms(1) server_new_ok])
  then have "dom (heap (plant srv)) = streaming srv" by (simp add: server_ok_def)
  with s show "held {#} (udp_log (host (plant srv))) =
      Some (image_mset (\<lambda>r. udp_fd (socket (the (heap (plant srv) r)))) (mset_set (streaming srv)))"
    by (simp add: sockets_ok_def socket_fds_def)
  fix fds assume "dom (clients srv) \<subseteq> set fds"
  from shutdown_ok(2) [OF ok this] have "dom (heap (plant (shutdown fds srv))) = {}" .
  moreover have "sockets_ok (plant (shutdown fds srv))"
    using s by (rule socket_owners.shutdown_P)
  ultimately show "held {#} (udp_log (host (plant (shutdown fds srv)))) = Some {#}"
    by (simp add: sockets_ok_def socket_fds_def)
qed

text \<open>A connection is accepted and dropped again before the server ends.\<close>

lemma sockets_owned_witness:
  "let srv = accept_client \<lparr>ev_fd = 3, ev_hangup = False, ev_accept = 7, ev_peername = Some ''10.0.0.2'',
       ev_epoll_add = True, ev_read = [], ev_writes = []\<rparr> (server_new 3 4 ''a.h264'' sample_os)
   in clients srv 7 \<noteq> None \<and> held {#} (udp_log (host (plant (shutdown [7] srv)))) = Some {#}"
proof -
  let ?ev = "\<lparr>ev_fd = 3, ev_hangup = False, ev_accept = 7, ev_peername = Some ''10.0.0.2'',
       ev_epoll_add = True, ev_read = [], ev_writes = []\<rparr>"
  let ?srv = "server_new 3 4 ''a.h264'' sample_os"
  have "handle_event id ?ev ?srv = Inr (accept_client ?ev ?srv)" by (simp add: handle_event_def server_new_def)
  from sockets_owned [OF reaches.event [OF reaches.here this]]
  show ?thesis by (simp add: Let_def accept_client_def accept_one_def server_new_def sample_os_def)
qed

end
