(* ===== verification/Audience.thy ===== *)
theory Audience
  imports Ownership
begin

text \<open>
  Who gets datagrams.  A streamer sends to the address and port its client has asked for, and nothing
  is sent but by a turn of the pump to those who are playing.
\<close>

section \<open>The address of a client\<close>

definition address_of :: "Session \<Rightarrow> address" where
  "address_of s = (client_ip s, word_of_int (client_rtp_port s))"

lemma session_streamer:
  assumes "server_ok srv" and "clients srv c = Some s" and "streamer s = Some r"
  shows "state s = PLAYING" and "\<exists>st. heap (plant srv) r = Some st \<and> udp_peer (socket st) = Some (address_of s)"
    and "r \<in> set (hub_subscribers (hub (plant srv)))"
proof -
  have ok: "session_ok s (plant srv)" using assms(1,2) by (simp add: server_ok_def)
  then show "state s = PLAYING" "r \<in> set (hub_subscribers (hub (plant srv)))"
    using assms(3) by (simp_all add: session_ok_def owned_def)
  have "peer_of (plant srv) r = Some (address_of s)"
    using ok assms(3) by (simp add: session_ok_def owned_def address_of_def)
  then show "\<exists>st. heap (plant srv) r = Some st \<and> udp_peer (socket st) = Some (address_of s)"
    by (cases "heap (plant srv) r") (simp_all add: peer_of_def)
qed

section \<open>Where datagrams go\<close>

text \<open>What was added to the wire went to subscribers.\<close>

definition only_to :: "address set \<Rightarrow> os \<Rightarrow> os \<Rightarrow> bool" where
  "only_to A w w' \<longleftrightarrow> (\<exists>ds. wire w' = wire w @ ds \<and> (\<forall>d \<in> set ds. fst d \<in> A))"

lemma only_to_refl [simp]: "only_to A w w"
  by (simp add: only_to_def)

lemma only_to_trans: "only_to A u v \<Longrightarrow> only_to A v w \<Longrightarrow> only_to A u w"
  by (fastforce simp: only_to_def)

definition peers :: "media \<Rightarrow> address set" where
  "peers m = {a. \<exists>r \<in> set (hub_subscribers (hub m)). peer_of m r = Some a}"

lemma peers_kept: "kept m m' \<Longrightarrow> peers m' = peers m"
proof -
  assume k: "kept m m'"
  then have "peer_of m' r = peer_of m r" for r by (intro peer_of_cong) (simp add: kept_def)
  with k show ?thesis by (simp add: peers_def kept_def)
qed

lemma on_nal_peers:
  assumes "hub_ok m"
  shows "only_to (peers m) (host m) (host (on_nal nal m))"
proof (cases "nal = []")
  case True
  then show ?thesis by (simp add: on_nal_def)
next
  case False
  obtain h w where b: "broadcast nal (nal_type_of nal = kNalSlice \<or> nal_type_of nal = kNalIdr) (hub_ts_increment (hub m))
      (hub_subscribers (hub m)) (heap m) (host m) = (h, w)" by fastforce
  have host: "host (on_nal nal m) = w" using b False by (auto simp: on_nal_def Let_def split: prod.splits)
  have "distinct (hub_subscribers (hub m))" "\<forall>r \<in> set (hub_subscribers (hub m)). ready (heap m) r"
    using assms by (simp_all add: hub_ok_def)
  from broadcast_effect [OF b this False] obtain dss where d: "length dss = length (hub_subscribers (hub m))"
    "wire w = wire (host m) @ concat dss"
    "\<forall>i < length (hub_subscribers (hub m)). \<exists>st k q. heap m (hub_subscribers (hub m) ! i) = Some st \<and>
      portion st nal k q (dss ! i) \<and> h (hub_subscribers (hub m) ! i) =
        Some (after_nal (nal_type_of nal = kNalSlice \<or> nal_type_of nal = kNalIdr) (hub_ts_increment (hub m)) q st)"
    by blast
  have "fst x \<in> peers m" if "x \<in> set (concat dss)" for x
  proof -
    from that obtain ds where "ds \<in> set dss" "x \<in> set ds" by auto
    then obtain i where i: "i < length dss" "x \<in> set (dss ! i)" by (metis in_set_conv_nth)
    with d(1,3) obtain st k q where "heap m (hub_subscribers (hub m) ! i) = Some st" "portion st nal k q (dss ! i)"
      by auto
    then have "peer_of m (hub_subscribers (hub m) ! i) = Some (fst x)"
      using i(2) by (auto simp: portion_def peer_of_def dest!: in_set_takeD)
    then show ?thesis using i(1) d(1) by (auto simp: peers_def)
  qed
  with d(2) show ?thesis unfolding host only_to_def by blast
qed

lemma on_nals_peers: "hub_ok m \<Longrightarrow> only_to (peers m) (host m) (host (fold on_nal nals m))"
proof (induction nals arbitrary: m)
  case Nil
  then show ?case by simp
next
  case (Cons nal nals)
  have "hub_ok (on_nal nal m)"
    by (rule hub_ok_kept [OF Cons.prems on_nal_kept]) (simp_all add: on_nal_control source_is_open_def)
  from Cons.IH [OF this] peers_kept [OF on_nal_kept, of nal m]
  have "only_to (peers m) (host (on_nal nal m)) (host (fold on_nal nals (on_nal nal m)))" by simp
  with on_nal_peers [OF Cons.prems] have "only_to (peers m) (host m) (host (fold on_nal nals (on_nal nal m)))"
    by (rule only_to_trans)
  then show ?case by simp
qed

lemma pump_step_peers: "hub_ok m \<Longrightarrow> only_to (peers m) (host m) (host (pump_step m))"
proof -
  assume ok: "hub_ok m"
  have "host (snd (pump_body m)) = host m \<or> (\<exists>nals. host (snd (pump_body m)) = host (fold on_nal nals m))"
    by (auto simp: pump_body_def Let_def split: option.split prod.split)
  with on_nals_peers [OF ok] have "only_to (peers m) (host m) (host (snd (pump_body m)))" by (metis only_to_refl)
  then show ?thesis by (auto simp: pump_step_def pump_exit_def Let_def split: prod.split)
qed

lemma server_peers:
  assumes "server_ok srv"
  shows "peers (plant srv) = {address_of s |c s. clients srv c = Some s \<and> state s = PLAYING}"
proof (intro set_eqI iffI)
  fix a assume "a \<in> peers (plant srv)"
  then obtain r where r: "r \<in> streaming srv" "peer_of (plant srv) r = Some a"
    using assms by (auto simp: peers_def server_ok_def)
  then obtain c s where c: "clients srv c = Some s" "streamer s = Some r" by (auto simp: streaming_def)
  from session_streamer [OF assms c] r(2) have "state s = PLAYING" "a = address_of s" by (auto simp: peer_of_def)
  with c(1) show "a \<in> {address_of s |c s. clients srv c = Some s \<and> state s = PLAYING}" by blast
next
  fix a assume "a \<in> {address_of s |c s. clients srv c = Some s \<and> state s = PLAYING}"
  then obtain c s where c: "clients srv c = Some s" "state s = PLAYING" "a = address_of s" by blast
  then have "session_ok s (plant srv)" using assms by (simp add: server_ok_def)
  then obtain r where r: "streamer s = Some r" using c(2) by (auto simp: session_ok_def)
  from session_streamer [OF assms c(1) r] c(3) have "r \<in> set (hub_subscribers (hub (plant srv)))"
    "peer_of (plant srv) r = Some a" by (auto simp: peer_of_def)
  then show "a \<in> peers (plant srv)" unfolding peers_def by blast
qed

lemma handle_event_silent:
  assumes "server_ok srv" and "handle_event iter ev srv = Inr srv'"
  shows "wire (host (plant srv')) = wire (host (plant srv))"
proof -
  have drop_silent: "wire (host (plant (drop_client fd srv1))) = wire (host (plant srv1))"
    if "hub_ok (plant srv1)" "\<And>s. clients srv1 fd = Some s \<Longrightarrow> session_ok s (plant srv1)" for fd srv1
  proof (cases "clients srv1 fd")
    case None
    then show ?thesis by (simp add: drop_client_def)
  next
    case (Some s)
    obtain s' m' where d: "on_disconnect s (plant srv1) = (s', m')" by fastforce
    from on_disconnect_keeps [OF that(1) that(2) [OF Some] d] have "wire (host m') = wire (host (plant srv1))"
      by (simp add: streams_step_def)
    then show ?thesis by (simp add: drop_client_eq [OF Some d])
  qed
  show ?thesis
  proof (cases "ev_fd ev = listener_fd srv")
    case True
    with assms(2) accept_client_cases [of ev srv] show ?thesis by (auto simp: handle_event_def)
  next
    case False
    show ?thesis
    proof (cases "clients srv (ev_fd ev)")
      case None
      with False assms show ?thesis by (simp add: handle_event_def)
    next
      case (Some s)
      then have ok: "hub_ok (plant srv)" "\<And>s. clients srv (ev_fd ev) = Some s \<Longrightarrow> session_ok s (plant srv)"
        using assms(1) by (simp_all add: server_ok_def)
      from assms(2) False Some show ?thesis
      proof (cases rule: handle_event_cases)
        case drop
        with drop_silent ok show ?thesis by simp
      next
        case (fed buffer out s' m' taken)
        with feed_keeps [OF fed(1) ok(1) ok(2) [OF Some]] show ?thesis by (simp add: streams_step_def)
      next
        case (ended buffer out s' m' taken)
        from feed_keeps [OF ended(1) ok(1) ok(2) [OF Some]]
        have k: "hub_ok m'" "wire (host m') = wire (host (plant srv))" "session_ok s' m'" by (auto simp: streams_step_def)
        then show ?thesis unfolding ended(3) by (subst drop_silent) simp_all
      qed
    qed
  qed
qed

section \<open>Properties\<close>

text \<open>
  C6: datagrams go to those who asked for them.  In every state the server can reach, what a turn of
  the pump puts on the wire goes to the addresses of the clients that are playing then, their IP
  address and the port of their last \<open>SETUP\<close>; and no event of a client or the listener, however it
  ends a stream that is under way, puts anything on the wire.
\<close>

theorem datagrams_to_players:
  assumes "reaches iter (server_new fd epoll path w) srv"
  shows "(\<exists>ds. wire (host (pump_step (plant srv))) = wire (host (plant srv)) @ ds \<and>
      (\<forall>(a, pkt) \<in> set ds. \<exists>c s. clients srv c = Some s \<and> state s = PLAYING \<and>
         a = (client_ip s, word_of_int (client_rtp_port s)))) \<and>
    (\<forall>ev srv'. handle_event iter ev srv = Inr srv' \<longrightarrow> wire (host (plant srv')) = wire (host (plant srv)))"
proof
  have ok: "server_ok srv" by (rule reaches_ok [OF assms server_new_ok])
  then have "hub_ok (plant srv)" by (simp add: server_ok_def)
  from pump_step_peers [OF this] show "\<exists>ds. wire (host (pump_step (plant srv))) = wire (host (plant srv)) @ ds \<and>
      (\<forall>(a, pkt) \<in> set ds. \<exists>c s. clients srv c = Some s \<and> state s = PLAYING \<and>
         a = (client_ip s, word_of_int (client_rtp_port s)))"
    unfolding server_peers [OF ok] only_to_def address_of_def by fastforce
  show "\<forall>ev srv'. handle_event iter ev srv = Inr srv' \<longrightarrow> wire (host (plant srv')) = wire (host (plant srv))"
    using handle_event_silent [OF ok] by blast
qed

lemma datagrams_to_players_witness:
  "let srv = accept_client \<lparr>ev_fd = 3, ev_hangup = False, ev_accept = 7, ev_peername = Some ''10.0.0.2'',
       ev_epoll_add = True, ev_read = [], ev_writes = []\<rparr> (server_new 3 4 ''a.h264'' sample_os)
   in clients srv 7 \<noteq> None \<and> wire (host (pump_step (plant srv))) = []"
proof -
  let ?ev = "\<lparr>ev_fd = 3, ev_hangup = False, ev_accept = 7, ev_peername = Some ''10.0.0.2'',
       ev_epoll_add = True, ev_read = [], ev_writes = []\<rparr>"
  let ?srv = "server_new 3 4 ''a.h264'' sample_os"
  have e: "handle_event id ?ev ?srv = Inr (accept_client ?ev ?srv)" by (simp add: handle_event_def server_new_def)
  obtain ds where ds: "wire (host (pump_step (plant (accept_client ?ev ?srv)))) = wire (host (plant (accept_client ?ev ?srv))) @ ds"
    "\<forall>(a, pkt) \<in> set ds. \<exists>c s. clients (accept_client ?ev ?srv) c = Some s \<and> state s = PLAYING \<and>
         a = (client_ip s, word_of_int (client_rtp_port s))"
    using datagrams_to_players [OF reaches.event [OF reaches.here e]] by blast
  have "ds = []"
    using ds(2) by (cases ds) (auto simp: accept_client_def accept_one_def server_new_def split: if_splits)
  with ds(1) show ?thesis by (simp add: accept_client_def accept_one_def server_new_def sample_os_def)
qed

end
