(* ===== verification/Conversation.thy ===== *)
theory Conversation
  imports Framing Audience
begin

text \<open>
  The requests a client writes, the events in which they arrive at the server, and what the server
  makes of them: the answer on the connection and the new state.
\<close>

section \<open>Requests and events\<close>

text \<open>
  What a client writes to watch a file, and the event in which it arrives; the kernel takes at least
  \<open>n\<close> bytes of the answer, in whatever pieces.
\<close>

definition setup_request :: "string \<Rightarrow> int \<Rightarrow> int \<Rightarrow> int \<Rightarrow> string" where
  "setup_request u n p q = render_request ''SETUP'' u ''RTSP/1.0''
     [(''CSeq'', show_int n),
      (''Transport'', ''RTP/AVP;unicast;client_port='' @ show_int p @ ''-'' @ show_int q)]"

definition session_request :: "string \<Rightarrow> string \<Rightarrow> int \<Rightarrow> string \<Rightarrow> string" where
  "session_request m u n sid = render_request m u ''RTSP/1.0'' [(''CSeq'', show_int n), (''Session'', sid)]"

definition arrival :: "int \<Rightarrow> string \<Rightarrow> sys_write list \<Rightarrow> event" where
  "arrival c data ws =
     \<lparr>ev_fd = c, ev_hangup = False, ev_accept = -1, ev_peername = None, ev_epoll_add = True,
      ev_read = [Got data], ev_writes = [ws]\<rparr>"

definition takes_bytes :: "nat \<Rightarrow> sys_write list \<Rightarrow> bool" where
  "takes_bytes n ws \<longleftrightarrow> WriteError \<notin> set ws \<and> BrokenPipe \<notin> set ws \<and> n \<le> accepted ws"

definition url_ok :: "string \<Rightarrow> bool" where
  "url_ok u \<longleftrightarrow> no_cr u \<and> CHR '' '' \<notin> set u \<and> length u \<le> 3000"

text \<open>A client reads a response of this form.\<close>

definition ok_reply :: "header_table \<Rightarrow> reply" where
  "ok_reply fs = \<lparr>reply_status = 200, reply_reason = ''OK'', reply_fields = fs, reply_body = []\<rparr>"

lemma request_event:
  assumes "clients srv c = Some s" and "c \<noteq> listener_fd srv" and "rx_buffer s = []"
    and "wf_request_line m u v" and "list_all wf_header hs" and "distinct (map fst hs)" and "iterates iter"
    and "only_value hs ''CSeq'' (show_int n)" and "int32 n" and "length (render_request m u v hs) \<le> 65536"
    and "handle \<lparr>req_method = string_to_method m, uri = u, cseq = n, headers = iter hs\<rparr> s (plant srv)
      = (resp, sent, s', m')" and "outputs resp sent = [reply]"
    and "takes_bytes k ws" and "length reply \<le> k"
  defines "srv' \<equiv> srv\<lparr>clients := (clients srv)(c \<mapsto> s'), plant := m', sent_to := sent_to srv @ [(c, reply)]\<rparr>"
  shows "handle_event iter (arrival c (render_request m u v hs) ws) srv =
     Inr (if state s' = CLOSED then drop_client c srv' else srv')"
proof -
  have "parse_request iter (render_request m u v hs) =
      Inr (Some \<lparr>req_method = string_to_method m, uri = u, cseq = n, headers = iter hs\<rparr>)"
    using parse_rendered_cseq [OF assms(4-8)] stoi_show_int [OF assms(9), of "[]"] by simp
  with feed_rendered [OF assms(4,5,3,10), of iter "plant srv"] assms(11,12)
  have f: "feed iter (render_request m u v hs) s (plant srv) = ([reply], Inr (state s' \<noteq> CLOSED), s', m')" by simp
  have "write_responses [reply] [ws] = Inr [reply]"
    using assms(13,14) by (intro write_responses_complete) (simp add: takes_all_def takes_bytes_def)
  moreover have "0 < length (render_request m u v hs)" by (simp add: render_request_def)
  ultimately show ?thesis using assms(1,2) f by (simp add: handle_event_def arrival_def srv'_def Let_def)
qed

lemma length_show_int: "int32 i \<Longrightarrow> length (show_int i) \<le> 11"
proof -
  assume i: "int32 i"
  then have "nat \<bar>i\<bar> < 10 ^ Suc 9" by (auto simp: int32_def nat_less_iff abs_if)
  from length_show_nat [OF this] have "length (show_nat (nat \<bar>i\<bar>)) \<le> 10" by simp
  then show ?thesis by (simp add: show_int_def abs_if split: if_splits)
qed

lemma length_replies:
  assumes "int32 n" and "length sid = 8" and "int32 p" and "int32 q"
  shows "length (response_setup n sid p q 6970 6971) \<le> 300" and "length (response_play n sid) \<le> 300"
proof -
  have "int32 6970" "int32 6971" by (simp_all add: int32_def)
  note len = this [THEN length_show_int] assms(1,3,4) [THEN length_show_int]
  show "length (response_setup n sid p q 6970 6971) \<le> 300" "length (response_play n sid) \<le> 300"
    using len assms(2) by (simp_all add: response_setup_def response_play_def crlf_def)
qed

lemma only_value_pair:
  assumes "\<not> iequals a b"
  shows "only_value [(a, x), (b, y)] a x" and "only_value [(a, x), (b, y)] b y"
  using assms iequals_sym [of a b] by (auto simp: only_value_def iequals_iff)

lemma setup_parts:
  assumes "url_ok u" and "int32 n" and "p \<in> {1..65535}" and "int32 q" and "iterates iter"
  defines "hs \<equiv> [(''CSeq'', show_int n),
      (''Transport'', ''RTP/AVP;unicast;client_port='' @ show_int p @ ''-'' @ show_int q)]"
  shows "wf_request_line ''SETUP'' u ''RTSP/1.0''" and "list_all wf_header hs" and "distinct (map fst hs)"
    and "only_value hs ''CSeq'' (show_int n)" and "length (render_request ''SETUP'' u ''RTSP/1.0'' hs) \<le> 65536"
    and "header \<lparr>req_method = m, uri = u, cseq = n, headers = iter hs\<rparr> ''Transport'' =
      Some (''RTP/AVP;unicast;client_port='' @ show_int p @ ''-'' @ show_int q)"
proof -
  have p: "int32 p" using assms(3) by (simp add: int32_def)
  let ?t = "''RTP/AVP;unicast;client_port='' @ show_int p @ ''-'' @ show_int q"
  show "wf_request_line ''SETUP'' u ''RTSP/1.0''" using assms(1) by (simp add: wf_request_line_def url_ok_def)
  have "wf_value ?t" by (rule wf_value_plain) (auto simp: isspace_def dest: show_int_no_space)
  then show "list_all wf_header hs" by (simp add: hs_def wf_fields)
  have neq: "\<not> iequals ''CSeq'' ''Transport''" by code_simp
  show "distinct (map fst hs)" by (simp add: hs_def)
  show "only_value hs ''CSeq'' (show_int n)" using only_value_pair(1) [OF neq] by (simp add: hs_def)
  have "only_value (iter hs) ''Transport'' ?t"
    using only_value_pair(2) [OF neq] assms(5) only_value_cong [of "iter hs" hs] by (simp add: hs_def)
  then show "header \<lparr>req_method = m, uri = u, cseq = n, headers = iter hs\<rparr> ''Transport'' = Some ?t"
    by (intro header_only) simp
  show "length (render_request ''SETUP'' u ''RTSP/1.0'' hs) \<le> 65536"
    using assms(1) length_show_int [OF assms(2)] length_show_int [OF p] length_show_int [OF assms(4)]
    by (simp add: render_request_def render_headers_def hs_def url_ok_def crlf_def)
qed

lemma session_parts:
  assumes "url_ok u" and "int32 n" and "wf_value sid" and "length sid = 8" and "iterates iter"
    and "m \<in> {''PLAY'', ''PAUSE'', ''TEARDOWN''}"
  defines "hs \<equiv> [(''CSeq'', show_int n), (''Session'', sid)]"
  shows "wf_request_line m u ''RTSP/1.0''" and "list_all wf_header hs" and "distinct (map fst hs)"
    and "only_value hs ''CSeq'' (show_int n)" and "length (render_request m u ''RTSP/1.0'' hs) \<le> 65536"
    and "header \<lparr>req_method = x, uri = u, cseq = n, headers = iter hs\<rparr> ''Session'' = Some sid"
proof -
  have m: "no_cr m" "CHR '' '' \<notin> set m" "length m \<le> 20" using assms(6) by auto
  show "wf_request_line m u ''RTSP/1.0''" using assms(1) m(1,2) by (simp add: wf_request_line_def url_ok_def)
  show "list_all wf_header hs" using assms(3) by (simp add: hs_def wf_fields)
  have neq: "\<not> iequals ''CSeq'' ''Session''" by code_simp
  show "distinct (map fst hs)" by (simp add: hs_def)
  show "only_value hs ''CSeq'' (show_int n)" using only_value_pair(1) [OF neq] by (simp add: hs_def)
  have "only_value (iter hs) ''Session'' sid"
    using only_value_pair(2) [OF neq] assms(5) only_value_cong [of "iter hs" hs] by (simp add: hs_def)
  then show "header \<lparr>req_method = x, uri = u, cseq = n, headers = iter hs\<rparr> ''Session'' = Some sid"
    by (intro header_only) simp
  show "length (render_request m u ''RTSP/1.0'' hs) \<le> 65536"
    using assms(1,4) m(3) length_show_int [OF assms(2)]
    by (simp add: render_request_def render_headers_def hs_def url_ok_def crlf_def)
qed

lemma setup_exchange:
  assumes "clients srv c = Some s" and "c \<noteq> listener_fd srv" and "rx_buffer s = []" and "state s = INIT"
    and "session_id s = []" and "url_ok u" and "int32 n" and "p \<in> {1..65535}" and "int32 q" and "iterates iter"
    and "takes_bytes 300 ws" and "generate_session_id (host (plant srv)) = (sid, w)"
  shows "handle_event iter (arrival c (setup_request u n p q) ws) srv =
     Inr (srv\<lparr>clients := (clients srv)(c \<mapsto> s\<lparr>client_rtp_port := p, client_rtcp_port := q, session_id := sid, state := READY\<rparr>),
       plant := (plant srv)\<lparr>host := w\<rparr>, sent_to := sent_to srv @ [(c, response_setup n sid p q 6970 6971)]\<rparr>)"
proof -
  note parts = setup_parts [OF assms(6-10)]
  let ?hs = "[(''CSeq'', show_int n),
      (''Transport'', ''RTP/AVP;unicast;client_port='' @ show_int p @ ''-'' @ show_int q)]"
  let ?req = "\<lparr>req_method = string_to_method ''SETUP'', uri = u, cseq = n, headers = iter ?hs\<rparr>"
  have meth: "string_to_method ''SETUP'' = SETUP" by code_simp
  have p: "int32 p" "0 \<le> p" "0 < p \<and> p \<le> 65535" using assms(8) by (simp_all add: int32_def)
  have "parse_transport (''RTP/AVP;unicast;client_port='' @ show_int p @ ''-'' @ show_int q) a b = (True, p, q)" for a b
    using parse_transport_pair [of "''RTP/AVP;unicast;''" "[]" p q a b] p assms(9) by (simp add: ends_ports_def)
  then have h: "handle ?req s (plant srv) = (response_setup n sid p q 6970 6971, [],
      s\<lparr>client_rtp_port := p, client_rtcp_port := q, session_id := sid, state := READY\<rparr>, (plant srv)\<lparr>host := w\<rparr>)"
    using assms(4,5,12) parts(6) by (simp add: handle_def meth method_allowed_def handle_setup_def)
  have "length (response_setup n sid p q 6970 6971) \<le> 300"
    using length_replies(1) [OF assms(7) generate_session_id_shape(1) [OF assms(12)] p(1) assms(9)] .
  with request_event [OF assms(1-3) parts(1-3) assms(10) parts(4) assms(7) parts(5) h _ assms(11)]
  show ?thesis unfolding setup_request_def by (simp add: renderings)
qed

lemma server_new_fields [simp]:
  "hub_cfg (hub (plant (server_new fd epoll path w))) = SourceConfig_default\<lparr>cfg_source := path\<rparr>"
  "host (plant (server_new fd epoll path w)) = w" "hub_ts_increment (hub (plant (server_new fd epoll path w))) = 3000"
  "\<not> hub_running (hub (plant (server_new fd epoll path w)))"
  by (simp_all add: server_new_def hub_new_def SourceConfig_default_def Let_def split: prod.split)

text \<open>The sockets of the client can be made and connected.\<close>

definition reachable_peer :: "os \<Rightarrow> string \<Rightarrow> bool" where
  "reachable_peer w ip \<longleftrightarrow> (\<forall>n. 0 \<le> sys_fd w n) \<and> (\<forall>n. sys_ok w n) \<and> pton_ok w ip"

lemma reachable_connects:
  assumes "reachable_peer w0 ip" and "Streamer_new w0 = (st0, w)"
  shows "\<exists>st w'. streamer_connect st0 ip port w = (True, st, w') \<and> same_host w0 w'"
proof -
  have fd: "0 \<le> udp_fd (socket st0)" and ok: "pton_ok w ip" "sys_ok w (tick w)"
    using assms Streamer_new_host [OF assms(2)]
    by (auto simp: reachable_peer_def Streamer_new_def UdpSocket_new_def Let_def same_host_def split: prod.splits)
  then obtain st w' where c: "streamer_connect st0 ip port w = (True, st, w')"
    by (simp add: streamer_connect_def udp_connect_to_def Let_def)
  then show ?thesis using Streamer_new_host [OF assms(2)] streamer_connect_host [OF c] same_host_trans by blast
qed

lemma play_granted:
  assumes "has_hub s" and "reachable_peer (host m) (client_ip s)"
    and "\<And>w h r. same_host (host m) w \<Longrightarrow> fst (hub_subscribe (Some (next_ref m)) (m\<lparr>host := w, heap := h, next_ref := r\<rparr>))"
  shows "\<exists>w st. same_host (host m) w \<and> (\<forall>req. session_header_matches req s \<longrightarrow> handle_play req s m =
     ([], [(response_play (cseq req) (session_id s), m\<lparr>host := w\<rparr>)], s\<lparr>streamer := Some (next_ref m), state := PLAYING\<rparr>,
      snd (hub_subscribe (Some (next_ref m))
        (m\<lparr>host := w, heap := (heap m)(next_ref m \<mapsto> st), next_ref := Suc (next_ref m)\<rparr>))))"
proof -
  obtain st0 w0 where new: "Streamer_new (host m) = (st0, w0)" by fastforce
  from reachable_connects [OF assms(2) new] obtain st w where
    con: "streamer_connect st0 (client_ip s) (word_of_int (client_rtp_port s)) w0 = (True, st, w)"
    and w: "same_host (host m) w" by blast
  let ?a = "m\<lparr>host := w, heap := (heap m)(next_ref m \<mapsto> st), next_ref := Suc (next_ref m)\<rparr>"
  obtain b where "hub_subscribe (Some (next_ref m)) ?a = (True, b)" using assms(3) [OF w] by (metis prod.collapse)
  with new con assms(1) have "\<forall>req. session_header_matches req s \<longrightarrow> handle_play req s m =
     ([], [(response_play (cseq req) (session_id s), m\<lparr>host := w\<rparr>)], s\<lparr>streamer := Some (next_ref m), state := PLAYING\<rparr>,
      snd (hub_subscribe (Some (next_ref m)) ?a))"
    by (simp add: handle_play_def)
  with w show ?thesis by blast
qed

lemma play_event:
  assumes "clients srv c = Some s" and "c \<noteq> listener_fd srv" and "rx_buffer s = []" and "state s = READY"
    and "length (session_id s) = 8" and "wf_value (session_id s)" and "session_id_of (session_id s) = session_id s"
    and "url_ok u" and "int32 n" and "iterates iter" and "takes_bytes 300 ws" and "state s' \<noteq> CLOSED"
    and "\<And>req. session_header_matches req s \<Longrightarrow>
      handle_play req s (plant srv) = ([], [(response_play (cseq req) (session_id s), m1)], s', m')"
  shows "handle_event iter (arrival c (session_request ''PLAY'' u n (session_id s)) ws) srv =
     Inr (srv\<lparr>clients := (clients srv)(c \<mapsto> s'), plant := m', sent_to := sent_to srv @ [(c, response_play n (session_id s))]\<rparr>)"
proof -
  have "''PLAY'' \<in> {''PLAY'', ''PAUSE'', ''TEARDOWN''}" by simp
  note parts = session_parts [OF assms(8,9,6,5,10) this]
  let ?req = "\<lparr>req_method = string_to_method ''PLAY'', uri = u, cseq = n,
      headers = iter [(''CSeq'', show_int n), (''Session'', session_id s)]\<rparr>"
  have meth: "string_to_method ''PLAY'' = PLAY" by code_simp
  have "session_header_matches ?req s" using parts(6) assms(7) by (simp add: session_header_matches_def)
  from assms(13) [OF this] have h: "handle ?req s (plant srv) = ([], [(response_play n (session_id s), m1)], s', m')"
    using assms(4) by (simp add: handle_def meth method_allowed_def)
  with request_event [OF assms(1-3) parts(1-3) assms(10) parts(4) assms(9) parts(5) h _ assms(11)]
    length_replies(2) [OF assms(9,5,9,9)] assms(12)
  show ?thesis unfolding session_request_def by (simp add: outputs_def)
qed

lemma play_event_request:
  assumes "length sid = 8" and "wf_value sid" and "session_id_of sid = sid"
  shows "\<exists>req. \<forall>s. session_id s = sid \<longrightarrow> session_header_matches req s"
proof -
  have "url_ok []" "int32 0" "iterates id" "''PLAY'' \<in> {''PLAY'', ''PAUSE'', ''TEARDOWN''}"
    by (simp_all add: url_ok_def int32_def iterates_def)
  from session_parts(6) [OF this(1,2) assms(2,1) this(3,4)] assms(3) show ?thesis
    by (intro exI [of _ "\<lparr>req_method = PLAY, uri = [], cseq = 0,
      headers = id [(''CSeq'', show_int 0), (''Session'', sid)]\<rparr>"]) (simp add: session_header_matches_def)
qed

lemma hex_plain: "set sid \<subseteq> set ''0123456789ABCDEF'' \<Longrightarrow> wf_value sid \<and> session_id_of sid = sid"
proof
  assume h: "set sid \<subseteq> set ''0123456789ABCDEF''"
  then show "wf_value sid" by (intro wf_value_plain) (auto simp: isspace_def)
  from h have "find_idx (\<lambda>c. c = CHR '';'') sid = None" by (auto simp: find_idx_None_iff)
  then show "session_id_of sid = sid" by (simp add: session_id_of_def)
qed

lemma reaches_trans: "reaches iter b c \<Longrightarrow> reaches iter a b \<Longrightarrow> reaches iter a c"
  by (induction rule: reaches.induct) (auto intro: reaches.event reaches.pump)

section \<open>Session ids\<close>

lemma feed_hex: "feed iter data s m = (out, res, s', m') \<Longrightarrow> hex_id s \<Longrightarrow> hex_id s'"
proof -
  have "feed_loop iter s m = (out, res, s', m') \<Longrightarrow> hex_id s \<Longrightarrow> hex_id s'" for s
    by (induction rule: feed_loop_rule) (auto dest: handle_hex)
  then show "feed iter data s m = (out, res, s', m') \<Longrightarrow> hex_id s \<Longrightarrow> hex_id s'"
    by (auto simp: feed_def Let_def split: if_splits)
qed

definition ids_ok :: "server \<Rightarrow> bool" where
  "ids_ok srv \<longleftrightarrow> (\<forall>c s. clients srv c = Some s \<longrightarrow> hex_id s)"

interpretation session_ids: server_invariant iter ids_ok for iter
proof unfold_locales
  fix ev srv srv' assume h: "handle_event iter ev srv = Inr srv'" "ids_ok srv"
  show "ids_ok srv'"
  proof (cases "ev_fd ev = listener_fd srv")
    case True
    have new: "hex_id (Client_new f a)" for f a
      by (simp add: hex_id_def hex_string_def Client_new_def Session_new_def)
    from True h accept_client_cases [of ev srv] new show ?thesis
      by (auto simp: handle_event_def ids_ok_def split: if_splits)
  next
    case False
    show ?thesis
    proof (cases "clients srv (ev_fd ev)")
      case None
      with False h show ?thesis by (simp add: handle_event_def)
    next
      case (Some s)
      then have "hex_id s" using h(2) by (simp add: ids_ok_def)
      with h(1) False Some show ?thesis
        by (cases rule: handle_event_cases) (use h(2) feed_hex in \<open>auto simp: ids_ok_def\<close>)
    qed
  qed
qed (simp add: ids_ok_def)

lemma reached_id:
  assumes "reaches iter (server_new fd epoll path w) srv" and "clients srv c = Some s"
  shows "wf_value (session_id s)" and "session_id_of (session_id s) = session_id s"
proof -
  have "ids_ok srv" by (rule session_ids.reaches_keeps [OF assms(1)]) (simp add: ids_ok_def server_new_def)
  then have "set (session_id s) \<subseteq> set ''0123456789ABCDEF''"
    using assms(2) by (simp add: ids_ok_def hex_id_def hex_string_def)
  then show "wf_value (session_id s)" "session_id_of (session_id s) = session_id s" using hex_plain by simp_all
qed

section \<open>Leaving\<close>

lemma stop_streaming_log:
  assumes "stop_streaming s m = (s', m')" and "has_hub s" and "streamers_ok m" and "streamer s = Some r"
    and "heap m r = Some st"
  shows "udp_log (host m') = udp_log (host m) @ [Closed (udp_fd (socket st))]"
proof -
  obtain l j where "kept (m\<lparr>hub := (hub m)\<lparr>hub_subscribers := l, hub_pump_joinable := j\<rparr>\<rparr>) (hub_unsubscribe r m)"
    using kept_after_unsubscribe by blast
  then have "udp_log (host (hub_unsubscribe r m)) = udp_log (host m)" by (simp add: kept_def)
  moreover have "heap (hub_unsubscribe r m) r = Some st" using hub_unsubscribe_heap(2) assms(5) by simp
  ultimately show ?thesis using assms
    by (auto simp: stop_streaming_def streamer_release_def Streamer_delete_def UdpSocket_delete_def streamers_ok_def Let_def)
qed

lemma stop_streaming_session: "fst (stop_streaming s m) = s\<lparr>streamer := None\<rparr>"
  by (cases s) (auto simp: stop_streaming_def Let_def split: option.split)

lemma pause_exchange:
  assumes "clients srv c = Some s" and "c \<noteq> listener_fd srv" and "rx_buffer s = []"
    and "state s = PLAYING" and "length (session_id s) = 8"
    and "wf_value (session_id s)" and "session_id_of (session_id s) = session_id s"
    and "url_ok u" and "int32 n" and "iterates iter" and "takes_bytes 300 ws"
    and "stop_streaming s (plant srv) = (s', m')"
  shows "handle_event iter (arrival c (session_request ''PAUSE'' u n (session_id s)) ws) srv =
     Inr (srv\<lparr>clients := (clients srv)(c \<mapsto> s'\<lparr>state := READY\<rparr>), plant := m',
       sent_to := sent_to srv @ [(c, response_ok_session n (session_id s))]\<rparr>)"
proof -
  have "''PAUSE'' \<in> {''PLAY'', ''PAUSE'', ''TEARDOWN''}" by simp
  note parts = session_parts [OF assms(8,9,6,5,10) this]
  let ?req = "\<lparr>req_method = string_to_method ''PAUSE'', uri = u, cseq = n,
      headers = iter [(''CSeq'', show_int n), (''Session'', session_id s)]\<rparr>"
  have meth: "string_to_method ''PAUSE'' = PAUSE" by code_simp
  have "session_header_matches ?req s" using parts(6) assms(7) by (simp add: session_header_matches_def)
  moreover have "session_id s' = session_id s" using stop_streaming_fields(3) [of s "plant srv"] assms(12) by simp
  ultimately have h: "handle ?req s (plant srv) = (response_ok_session n (session_id s), [], s'\<lparr>state := READY\<rparr>, m')"
    using assms(4,12) by (simp add: handle_def meth method_allowed_def handle_pause_def)
  have "length (response_ok_session n (session_id s)) \<le> 300"
    using length_show_int [OF assms(9)] assms(5) by (simp add: response_ok_session_def crlf_def)
  with request_event [OF assms(1-3) parts(1-3) assms(10) parts(4) assms(9) parts(5) h _ assms(11)]
  show ?thesis unfolding session_request_def by (simp add: renderings)
qed

lemma teardown_exchange:
  assumes "clients srv c = Some s" and "c \<noteq> listener_fd srv" and "rx_buffer s = []"
    and "state s = READY \<or> state s = PLAYING" and "length (session_id s) = 8"
    and "wf_value (session_id s)" and "session_id_of (session_id s) = session_id s"
    and "url_ok u" and "int32 n" and "iterates iter" and "takes_bytes 300 ws"
    and "stop_streaming s (plant srv) = (s', m')"
  shows "\<exists>srv'. handle_event iter (arrival c (session_request ''TEARDOWN'' u n (session_id s)) ws) srv = Inr srv' \<and>
     sent_to srv' = sent_to srv @ [(c, response_teardown n (session_id s))] \<and>
     clients srv' = (clients srv)(c := None) \<and> closed srv' = closed srv @ close_fd c \<and> plant srv' = m'"
proof -
  have "''TEARDOWN'' \<in> {''PLAY'', ''PAUSE'', ''TEARDOWN''}" by simp
  note parts = session_parts [OF assms(8,9,6,5,10) this]
  let ?hs = "[(''CSeq'', show_int n), (''Session'', session_id s)]"
  let ?req = "\<lparr>req_method = string_to_method ''TEARDOWN'', uri = u, cseq = n, headers = iter ?hs\<rparr>"
  have meth: "string_to_method ''TEARDOWN'' = TEARDOWN" by code_simp
  have match: "session_header_matches ?req s" using parts(6) assms(7) by (simp add: session_header_matches_def)
  have s': "session_id s' = session_id s" "streamer s' = None"
    using stop_streaming_fields(3,6) [of s "plant srv"] assms(12) by simp_all
  let ?s = "s'\<lparr>state := CLOSED\<rparr>"
  have h: "handle ?req s (plant srv) = (response_teardown n (session_id s), [], ?s, m')"
    using match assms(4,12) s'(1) by (auto simp: handle_def meth method_allowed_def handle_teardown_def)
  let ?srv = "srv\<lparr>clients := (clients srv)(c \<mapsto> ?s), plant := m', sent_to := sent_to srv @ [(c, response_teardown n (session_id s))]\<rparr>"
  have "on_disconnect ?s m' = (?s, m')" using s'(2) by (simp add: on_disconnect_def stop_streaming_def)
  then have "drop_client c ?srv = ?srv\<lparr>interest := interest ?srv - {c}, clients := (clients ?srv)(c := None),
      plant := m', closed := closed ?srv @ close_fd c\<rparr>" by (intro drop_client_eq) simp_all
  moreover have "length (response_teardown n (session_id s)) \<le> 300"
    using length_show_int [OF assms(9)] assms(5) by (simp add: response_teardown_def crlf_def)
  ultimately show ?thesis
    using request_event [OF assms(1-3) parts(1-3) assms(10) parts(4) assms(9) parts(5) h _ assms(11)]
    by (simp add: session_request_def renderings)
qed

section \<open>Properties\<close>

text \<open>A server on a file of two NAL units, with one client connected.\<close>

definition file_host :: os where
  "file_host = sample_os\<lparr>fs_open := \<lambda>_. Some (fopened [[0, 0, 1, 0x67, 0x42, 0], [0, 1, 0x65, 9]])\<rparr>"

definition connecting :: event where
  "connecting = \<lparr>ev_fd = 3, ev_hangup = False, ev_accept = 7, ev_peername = Some ''10.0.0.2'',
     ev_epoll_add = True, ev_read = [], ev_writes = []\<rparr>"

definition accepted_server :: "string \<Rightarrow> os \<Rightarrow> server" where
  "accepted_server path w = accept_client connecting (server_new 3 4 path w)"

definition file_server :: server where
  "file_server = accepted_server ''a.h264'' file_host"

lemma accepted_fields:
  "clients (accepted_server path w) = [7 \<mapsto> Session_new ''10.0.0.2'' True]" "listener_fd (accepted_server path w) = 3"
  "plant (accepted_server path w) = plant (server_new 3 4 path w)" "sent_to (accepted_server path w) = []"
  by (simp_all add: accepted_server_def connecting_def accept_client_def accept_one_def Client_new_def peer_ip_def
      server_new_def)

lemmas file_server_fields = accepted_fields [of "''a.h264''" file_host, folded file_server_def]

lemma accepted_reached: "reaches id (server_new 3 4 path w) (accepted_server path w)"
proof -
  have "handle_event id connecting (server_new 3 4 path w) = Inr (accepted_server path w)"
    by (simp add: handle_event_def accepted_server_def connecting_def server_new_def)
  then show ?thesis by (rule reaches.event [OF reaches.here])
qed

lemmas file_server_reached = accepted_reached [of "''a.h264''" file_host, folded file_server_def]

lemma sample_ok: "url_ok ''rtsp://h/s''" "takes_bytes 300 [Wrote 4096]" "iterates id"
  by (simp_all add: url_ok_def takes_bytes_def iterates_def)

text \<open>
  C16: \<open>TEARDOWN\<close> ends a connection and everything it had.  In any state the server can reach, a client
  that is \<open>READY\<close> or \<open>PLAYING\<close> and tears its session down is answered with 200 and its own sequence
  number; its connection is closed, its streamer is off the hub's list and deleted, its UDP socket is
  closed, and no other client is touched; when nobody else was watching, the pump has stopped and the
  source is closed.
\<close>

theorem teardown_ends_connection:
  assumes "reaches iter (server_new fd epoll path w) srv" and "0 \<le> fd" and "iterates iter"
    and "clients srv c = Some s" and "c \<noteq> listener_fd srv" and "rx_buffer s = []"
    and "state s = READY \<or> state s = PLAYING" and "url_ok u" and "int32 n" and "takes_bytes 300 ws"
  shows "\<exists>srv' reply. handle_event iter (arrival c (session_request ''TEARDOWN'' u n (session_id s)) ws) srv = Inr srv' \<and>
     sent_to srv' = sent_to srv @ [(c, reply)] \<and>
     read_reply reply = Some (ok_reply [(''CSeq'', show_int n), (''Session'', session_id s)], []) \<and>
     clients srv' = (clients srv)(c := None) \<and> closed srv' = closed srv @ [c] \<and>
     set (hub_subscribers (hub (plant srv'))) = set (hub_subscribers (hub (plant srv))) - set_option (streamer s) \<and>
     dom (heap (plant srv')) = dom (heap (plant srv)) - set_option (streamer s) \<and>
     (\<forall>r. streamer s = Some r \<longrightarrow> (\<exists>st. heap (plant srv) r = Some st \<and>
        udp_log (host (plant srv')) = udp_log (host (plant srv)) @ [Closed (udp_fd (socket st))])) \<and>
     (streaming srv \<subseteq> set_option (streamer s) \<longrightarrow>
        \<not> hub_running (hub (plant srv')) \<and> \<not> source_is_open (hub (plant srv')))"
proof -
  let ?m = "plant srv"
  have ok: "server_ok srv" by (rule reaches_ok [OF assms(1) server_new_ok])
  then have sok: "hub_ok ?m" "session_ok s ?m" "has_hub s" "set (hub_subscribers (hub ?m)) = streaming srv"
    using assms(4) by (simp_all add: server_ok_def)
  have "fds_ok srv" by (rule reaches_fds [OF assms(1) server_new_fds [OF assms(2)]])
  then have c: "close_fd c = [c]" using assms(4) by (auto simp: fds_ok_def close_fd_def)
  have len: "length (session_id s) = 8" using sok(2) assms(7) by (auto simp: session_ok_def)
  have streamers: "streamers_ok ?m"
    by (rule streamers.runs.reaches_keeps [OF assms(1)]) (simp add: streamers_ok_def server_new_def)
  obtain s' m' where st: "stop_streaming s ?m = (s', m')" by fastforce
  have "owned s \<subseteq> set (hub_subscribers (hub ?m))" using sok(2) by (simp add: session_ok_def)
  from stop_streaming_step [OF sok(1) this _ st] sok(3) have
    step: "hub_ok m'" "set (hub_subscribers (hub m')) = set (hub_subscribers (hub ?m)) - set_option (streamer s)"
    "dom (heap m') = dom (heap ?m) - set_option (streamer s)"
    by (auto simp: streams_step_def owned_def)
  from teardown_exchange [OF assms(4-7) len reached_id [OF assms(1,4)] assms(8,9,3,10) st] c obtain srv' where
    ev: "handle_event iter (arrival c (session_request ''TEARDOWN'' u n (session_id s)) ws) srv = Inr srv'"
    "sent_to srv' = sent_to srv @ [(c, response_teardown n (session_id s))]"
    "clients srv' = (clients srv)(c := None)" "closed srv' = closed srv @ [c]" "plant srv' = m'" by auto
  have "read_reply (response_teardown n (session_id s)) =
      Some (ok_reply [(''CSeq'', show_int n), (''Session'', session_id s)], [])"
    using read_bodyless [of 200 "''OK''" _ "[]"] reached_id(1) [OF assms(1,4)]
    by (simp add: renderings wf_fields int32_def ok_reply_def)
  moreover have "\<exists>st. heap ?m r = Some st \<and> udp_log (host m') = udp_log (host ?m) @ [Closed (udp_fd (socket st))]"
    if "streamer s = Some r" for r
    using session_streamer(2) [OF ok assms(4) that] stop_streaming_log [OF st sok(3) streamers that] by blast
  moreover have "\<not> hub_running (hub m') \<and> \<not> source_is_open (hub m')" if "streaming srv \<subseteq> set_option (streamer s)"
  proof -
    have "set (hub_subscribers (hub m')) = {}"
      unfolding step(2) sok(4) using that by (simp only: Diff_eq_empty_iff)
    then have "hub_subscribers (hub m') = []" by simp
    then show ?thesis using step(1) unfolding hub_ok_def by blast
  qed
  ultimately show ?thesis using ev step(2,3) by (intro exI [of _ srv'] exI conjI) (assumption | simp)+
qed

lemma teardown_ends_connection_witness:
  "\<exists>srv srv' sid reply. reaches id (server_new 3 4 ''a.h264'' file_host) srv \<and> clients srv 7 \<noteq> None \<and>
     handle_event id (arrival 7 (session_request ''TEARDOWN'' ''rtsp://h/s'' 2 sid) [Wrote 4096]) srv = Inr srv' \<and>
     read_reply reply = Some (ok_reply [(''CSeq'', show_int 2), (''Session'', sid)], []) \<and>
     sent_to srv' = sent_to srv @ [(7, reply)] \<and> clients srv' 7 = None \<and> closed srv' = closed srv @ [7]"
proof -
  obtain sid w where sid: "generate_session_id (host (plant file_server)) = (sid, w)" by fastforce
  let ?s = "Session_new ''10.0.0.2'' True"
  let ?s1 = "?s\<lparr>client_rtp_port := 5000, client_rtcp_port := 5001, session_id := sid, state := READY\<rparr>"
  obtain srv where srv: "handle_event id (arrival 7 (setup_request ''rtsp://h/s'' 1 5000 5001) [Wrote 4096]) file_server = Inr srv"
    "clients srv 7 = Some ?s1" "listener_fd srv = 3"
    using setup_exchange [of file_server 7 ?s _ 1 5000 5001 id "[Wrote 4096]", OF _ _ _ _ _ _ _ _ _ _ _ sid] sample_ok
    by (auto simp: file_server_fields Session_new_def int32_def)
  note reached = reaches.event [OF file_server_reached srv(1)]
  have "7 \<noteq> listener_fd srv" "rx_buffer ?s1 = []" "state ?s1 = READY" "session_id ?s1 = sid" "int32 2"
    using srv(3) by (simp_all add: Session_new_def int32_def)
  with teardown_ends_connection [OF reached _ sample_ok(3) srv(2) _ _ _ sample_ok(1) _ sample_ok(2), of 2]
  obtain srv' reply where
    "handle_event id (arrival 7 (session_request ''TEARDOWN'' ''rtsp://h/s'' 2 sid) [Wrote 4096]) srv = Inr srv'"
    "sent_to srv' = sent_to srv @ [(7, reply)]"
    "read_reply reply = Some (ok_reply [(''CSeq'', show_int 2), (''Session'', sid)], [])"
    "clients srv' = (clients srv)(7 := None)" "closed srv' = closed srv @ [7]" by auto
  with reached srv(2) show ?thesis
    by (intro exI [of _ srv] exI [of _ srv'] exI [of _ sid] exI [of _ reply]) simp
qed

end
