(* ===== verification/Viewing.thy ===== *)
theory Viewing
  imports Playback Conversation
begin

text \<open>
  The whole server from the outside: what a client does to watch a file, from its first request to
  the NAL units it puts together, and what it gets in any state the server can be in.
\<close>

section \<open>The source of a server on a file\<close>

text \<open>
  The source has all of the file before it, from one of its NAL units on, and goes round in it.
\<close>

definition file_ok :: "(bool \<times> bytes) list \<Rightarrow> bool" where
  "file_ok xs \<longleftrightarrow> 2 \<le> length xs \<and> (\<forall>(four, nal) \<in> set xs. clean_nal nal \<and> hd nal AND 0x1F \<noteq> 28)"

definition in_file :: "(bool \<times> bytes) list \<Rightarrow> nat \<Rightarrow> FileSource \<Rightarrow> bool" where
  "in_file xs j src \<longleftrightarrow> j < length xs \<and> positioned src xs (drop j xs)"

lemma in_file_read:
  assumes "file_ok xs" and "in_file xs j src"
  shows "\<exists>nals t src' j'. file_read_nal src = (True, nals, t, src') \<and> in_file xs j' src'"
proof -
  have j: "j < length xs" "positioned src xs (drop j xs)" using assms(2) by (simp_all add: in_file_def)
  obtain four nal where x: "xs ! j = (four, nal)" by (cases "xs ! j")
  have drop: "drop j xs = (four, nal) # drop (Suc j) xs" using j(1) x by (metis Cons_nth_drop_Suc)
  have cl: "clean_nal nal" using assms(1) j(1) x nth_mem by (fastforce simp: file_ok_def)
  show ?thesis
  proof (cases "Suc j < length xs")
    case True
    then have "drop (Suc j) xs \<noteq> []" by simp
    from positioned_step [OF cl j(2) [unfolded drop] this] True show ?thesis by (auto simp: in_file_def)
  next
    case False
    with j(1) have "Suc j = length xs" by simp
    then have one: "positioned src xs [(four, nal)]" using j(2) drop by simp
    obtain four1 first ys where xs: "xs = (four1, first) # ys" using assms(1) by (cases xs) (auto simp: file_ok_def)
    have "clean_nal first" "ys \<noteq> []" using assms(1) by (auto simp: file_ok_def xs)
    from positioned_wrap [OF cl this(1) xs one] this(2) obtain t s1 where
      "file_read_nal src = (True, [nal, first], t, s1)" "positioned s1 xs ys" by auto
    moreover have "drop 1 xs = ys" "1 < length xs" using xs \<open>ys \<noteq> []\<close> by auto
    ultimately show ?thesis by (auto simp: in_file_def intro!: exI [of _ 1])
  qed
qed

text \<open>
  \<open>plays_file xs m0\<close>: the hub of \<open>m0\<close> is configured for a file that holds the NAL units \<open>xs\<close>.  While
  that is so, somebody is on the hub's list only if the pump runs, and it runs on that file.
\<close>

definition file_at :: "os \<Rightarrow> string \<Rightarrow> (bool \<times> bytes) list \<Rightarrow> bool" where
  "file_at w path xs \<longleftrightarrow> file_ok xs \<and> path \<noteq> ''camera'' \<and>
     (\<exists>cs. fs_open w path = Some (fopened cs) \<and> concat cs = annexb_stream xs)"

definition plays_file :: "(bool \<times> bytes) list \<Rightarrow> media \<Rightarrow> bool" where
  "plays_file xs m0 \<longleftrightarrow> file_at (host m0) (cfg_source (hub_cfg (hub m0))) xs"

definition served :: "(bool \<times> bytes) list \<Rightarrow> media \<Rightarrow> bool" where
  "served xs m \<longleftrightarrow>
     (hub_subscribers (hub m) \<noteq> [] \<longrightarrow> hub_running (hub m)) \<and>
     (hub_running (hub m) \<longrightarrow> (\<exists>src j. hub_source (hub m) = Some (File_source src) \<and> in_file xs j src))"

lemma plays_file_fixed: "fixed_by m0 m \<Longrightarrow> plays_file xs m = plays_file xs m0"
  by (simp add: plays_file_def file_at_def fixed_by_def same_host_def)

lemma served_start:
  assumes "plays_file xs m" and "hub_start_pump m = (ok, m')"
  shows "ok" and "\<exists>src. hub_source (hub m') = Some (File_source src) \<and> in_file xs 0 src"
    and "hub_running (hub m')"
proof -
  obtain cs where f: "fs_open (host m) (cfg_source (hub_cfg (hub m))) = Some (fopened cs)"
    "concat cs = annexb_stream xs" "cfg_source (hub_cfg (hub m)) \<noteq> ''camera''" "file_ok xs"
    using assms(1) by (auto simp: plays_file_def file_at_def)
  from f(4) have "xs \<noteq> []" by (auto simp: file_ok_def)
  with f assms(2) show "ok" "hub_running (hub m')"
    "\<exists>src. hub_source (hub m') = Some (File_source src) \<and> in_file xs 0 src"
    by (auto simp: hub_start_pump_def make_source_def FileSource_new_def file_start_def Let_def
        in_file_def positioned_def reader_reset_def fopened_def)
qed

lemma served_subscribe:
  assumes "plays_file xs m" and "served xs m" and "hub_subscribe (Some r) m = (ok, m')"
  shows "ok" and "served xs m'"
proof -
  obtain k m1 where s: "hub_start_pump m = (k, m1)" by fastforce
  note start = served_start [OF assms(1) s]
  show "ok" using assms(3) s start(1) by (auto simp: hub_subscribe_def split: if_splits)
  show "served xs m'"
    using assms(2,3) s start by (auto simp: hub_subscribe_def served_def split: if_splits)
qed

lemma served_pump:
  assumes "file_ok xs" and "served xs m"
  shows "served xs (pump_step m)"
proof (cases "hub_running (hub m)")
  case False
  with assms show ?thesis by (simp add: pump_step_def)
next
  case True
  then obtain src j where src: "hub_source (hub m) = Some (File_source src)" "in_file xs j src"
    using assms(2) by (auto simp: served_def)
  from in_file_read [OF assms(1) src(2)] obtain nals t src' j' where
    rd: "file_read_nal src = (True, nals, t, src')" "in_file xs j' src'" by blast
  show ?thesis
    using True src(1) rd fold_on_nal [of m nals] by (auto simp: pump_step_def pump_body_def served_def Let_def)
qed

lemma served_unsubscribe:
  assumes "served xs m"
  shows "served xs (hub_unsubscribe r m)"
proof (cases "removeAll r (hub_subscribers (hub m)) = [] \<and> hub_running (hub m)")
  case True
  then have "hub_subscribers (hub (hub_unsubscribe r m)) = []" by (simp add: hub_unsubscribe_members)
  moreover have "\<not> hub_running (hub (hub_unsubscribe r m))"
    using True pump_join_stops by (simp add: hub_unsubscribe_def)
  ultimately show ?thesis by (simp add: served_def)
next
  case False
  with assms show ?thesis by (auto simp: hub_unsubscribe_def served_def)
qed

definition serving :: "media \<Rightarrow> (bool \<times> bytes) list \<Rightarrow> media \<Rightarrow> bool" where
  "serving m0 xs m \<longleftrightarrow> fixed_by m0 m \<and> (plays_file xs m0 \<longrightarrow> served xs m)"

lemma serving_plays: "serving m0 xs m \<Longrightarrow> plays_file xs m0 \<Longrightarrow> plays_file xs m \<and> served xs m"
  using plays_file_fixed [of m0 m xs] by (simp add: serving_def)

lemma serving_same:
  assumes "serving m0 xs m" and "fixed_by m0 m'" and "hub m' = hub m"
  shows "serving m0 xs m'"
  using assms by (simp add: serving_def served_def)

interpretation file_service: stream_invariant "serving m0 xs" for m0 xs
proof (unfold_locales, goal_cases)
  case (1 m)
  then show ?case using served_pump unchanging.P_pump by (auto simp: serving_def plays_file_def file_at_def)
next
  case (2 m a ok m')
  then show ?case
    using served_subscribe(2) unchanging.frame_subscribe serving_plays unfolding serving_def by blast
next
  case (3 m r)
  then show ?case using served_unsubscribe unchanging.P_unsubscribe by (auto simp: serving_def)
next
  case (4 m)
  then show ?case by (rule serving_same) (use 4 unchanging.P_draw in \<open>auto simp: serving_def\<close>)
next
  case (5 m r)
  then show ?case by (rule serving_same) (use 5 unchanging.P_release in \<open>auto simp: serving_def\<close>)
next
  case (6 m st0 w0 ip port st w)
  from 6(3) show ?case by (rule serving_same) (use 6 unchanging.P_connected in \<open>auto simp: serving_def\<close>)
next
  case (7 m st0 w0 ip port st w)
  from 7(3) show ?case by (rule serving_same) (use 7 unchanging.P_refused in \<open>auto simp: serving_def\<close>)
qed

lemma reached_serves:
  assumes "reaches iter (server_new fd epoll path w) srv" and "file_at w path xs"
  shows "plays_file xs (plant srv)" and "served xs (plant srv)" and "fixed_by (plant (server_new fd epoll path w)) (plant srv)"
    and "streamers_ok (plant srv)"
proof -
  let ?m = "plant (server_new fd epoll path w)"
  have p: "plays_file xs ?m" using assms(2) by (simp add: plays_file_def)
  have "serving ?m xs ?m"
    by (simp add: serving_def fixed_by_def served_def server_new_def hub_new_def Let_def split: prod.split)
  from file_service.runs.reaches_keeps [OF assms(1) this] have s: "serving ?m xs (plant srv)" .
  show "plays_file xs (plant srv)" "served xs (plant srv)" using serving_plays [OF s p] by blast+
  show "fixed_by ?m (plant srv)" using s by (simp add: serving_def)
  have "streamers_ok ?m" by (simp add: streamers_ok_def server_new_def)
  then show "streamers_ok (plant srv)" by (rule streamers.runs.reaches_keeps [OF assms(1)])
qed

section \<open>What a playing client gets\<close>

text \<open>No other client plays to the address of the client \<open>c\<close>.\<close>

definition alone :: "int \<Rightarrow> address \<Rightarrow> server \<Rightarrow> bool" where
  "alone c a srv \<longleftrightarrow>
     (\<forall>c' s'. clients srv c' = Some s' \<longrightarrow> c' \<noteq> c \<longrightarrow> state s' = PLAYING \<longrightarrow> address_of s' \<noteq> a)"

lemma others_of_server:
  assumes "server_ok srv" and "alone c a srv" and "\<And>s. clients srv c = Some s \<Longrightarrow> streamer s = None \<or> streamer s = Some r"
  shows "others_elsewhere a r (hub_subscribers (hub (plant srv))) (heap (plant srv))"
  unfolding others_elsewhere_def
proof (intro ballI impI allI)
  fix r' st assume r': "r' \<in> set (hub_subscribers (hub (plant srv)))" "r' \<noteq> r" "heap (plant srv) r' = Some st"
  then have "r' \<in> streaming srv" using assms(1) by (simp add: server_ok_def)
  then obtain c' s' where c': "clients srv c' = Some s'" "streamer s' = Some r'" by (auto simp: streaming_def)
  note t = session_streamer [OF assms(1) c']
  have "c' \<noteq> c" using c' r'(2) assms(3) by fastforce
  then have "address_of s' \<noteq> a" using assms(2) c'(1) t(1) by (simp add: alone_def)
  with t(2) r'(3) show "udp_peer (socket st) \<noteq> Some a" by auto
qed

lemma playing_watches:
  assumes "server_ok srv" and "streamers_ok (plant srv)" and "clients srv c = Some s" and "streamer s = Some r"
    and "alone c (address_of s) srv" and "sends_ok (host (plant srv))"
  shows "\<exists>st. heap (plant srv) r = Some st \<and> watching (address_of s) r st (plant srv) \<and> st_payload_type st = 96"
proof -
  have ok: "hub_ok (plant srv)" using assms(1) by (simp add: server_ok_def)
  from session_streamer [OF assms(1,3,4)] obtain st where
    st: "heap (plant srv) r = Some st" "udp_peer (socket st) = Some (address_of s)"
    "r \<in> set (hub_subscribers (hub (plant srv)))" by blast
  then have "ready (heap (plant srv)) r" using ok by (simp add: hub_ok_def)
  then have "connected st" using st(1) by (simp add: ready_def)
  moreover have "st_payload_type st = 96" "0 \<le> udp_fd (socket st)" using assms(2) st(1) by (auto simp: streamers_ok_def)
  ultimately have "watching (address_of s) r st (plant srv)"
    using ok st others_of_server [OF assms(1,5), of r] assms(3,4,6)
    by (simp add: watching_def hub_ok_def streams_to_def)
  then show ?thesis using \<open>st_payload_type st = 96\<close> st(1) by blast
qed

lemma paused_unheard:
  assumes "server_ok srv" and "clients srv c = Some s" and "state s \<noteq> PLAYING" and "alone c a srv"
  shows "\<exists>ds. wire (host (pump_step (plant srv))) = wire (host (plant srv)) @ ds \<and> to_peer a ds = []"
proof -
  have "hub_ok (plant srv)" using assms(1) by (simp add: server_ok_def)
  from pump_step_peers [OF this] obtain ds where
    ds: "wire (host (pump_step (plant srv))) = wire (host (plant srv)) @ ds" "\<forall>d \<in> set ds. fst d \<in> peers (plant srv)"
    unfolding only_to_def by auto
  have "a \<notin> peers (plant srv)" unfolding server_peers [OF assms(1)] using assms(2-4)
    by (clarsimp simp: alone_def) (metis option.inject)
  with ds show ?thesis by (auto simp: to_peer_def filter_empty_conv)
qed

lemma cycled_from_sendable:
  assumes "file_ok xs" and "\<forall>i < length nals. nals ! i = snd (xs ! ((j + i) mod length xs))"
  shows "\<forall>nal \<in> set nals. sendable nal"
proof
  fix nal assume "nal \<in> set nals"
  then obtain i where "i < length nals" "nal = nals ! i" by (metis in_set_conv_nth)
  moreover have "(j + i) mod length xs < length xs" using assms(1) by (intro mod_less_divisor) (auto simp: file_ok_def)
  ultimately have "(fst (xs ! ((j + i) mod length xs)), nal) \<in> set xs" using assms(2) nth_mem by fastforce
  with assms(1) show "sendable nal" by (fastforce simp: sendable_def clean_nal_def file_ok_def)
qed

text \<open>The NAL units of a file from the \<open>j\<close>-th on, over and over, stamped from \<open>t\<close> on.\<close>

definition file_from :: "(bool \<times> bytes) list \<Rightarrow> nat \<Rightarrow> 32 word \<Rightarrow> (32 word \<times> bytes) list \<Rightarrow> bool" where
  "file_from xs j t got \<longleftrightarrow>
     (\<forall>i < length got. snd (got ! i) = snd (xs ! ((j + i) mod length xs)) \<and>
        fst (got ! i) = t + 3000 * of_nat (length (filter is_vcl (map snd (take i got)))))"

text \<open>
  \<open>gets_file xs a before m j t\<close>: from \<open>m\<close> on every turn of the pump brings the address \<open>a\<close> at least
  one of these NAL units.  What is sent to it, apart from what was on the wire \<open>before\<close>, is a gapless
  stream of RTP packets with one SSRC, from which a receiver puts them together.
\<close>

definition gets_file :: "(bool \<times> bytes) list \<Rightarrow> address \<Rightarrow> (address \<times> bytes) list \<Rightarrow> media \<Rightarrow> nat \<Rightarrow> 32 word \<Rightarrow> bool" where
  "gets_file xs a before m j t \<longleftrightarrow>
     (\<exists>src q. \<forall>n. \<exists>ds got. wire (host ((pump_step ^^ n) m)) = before @ ds \<and>
        receive src q [] (to_peer a ds) = Some got \<and> n \<le> length got \<and> file_from xs j t got)"

lemma file_share:
  assumes "file_ok xs" and "watching a r st m" and "st_payload_type st = 96" and "hub_running (hub m)"
    and "hub_source (hub m) = Some (File_source src)" and "in_file xs j src" and "hub_ts_increment (hub m) = 3000"
  shows "gets_file xs a (wire (host m)) m j (st_timestamp st)"
  unfolding gets_file_def
proof (rule exI [of _ "st_ssrc st"], rule exI [of _ "st_sequence st"], rule allI)
  fix n
  obtain oks nals src' where pl: "file_play n src = (oks, nals, src')" by (metis prod_cases3)
  have xs: "\<forall>(four, nal) \<in> set xs. clean_nal nal" "2 \<le> length xs" using assms(1) by (auto simp: file_ok_def)
  have j: "positioned src xs (drop j xs)" "j < length xs" using assms(6) by (simp_all add: in_file_def)
  note cyc = file_play_cycles [OF xs j pl]
  then have nals: "\<forall>nal \<in> set nals. sendable nal" using cycled_from_sendable [OF assms(1)] by blast
  have play: "file_play n src = (True, nals, src')" "\<forall>nal \<in> set nals. nal \<noteq> []"
    using pl cyc nals by (simp_all add: sendable_def)
  from pump_steps_share [OF assms(2,4,5) play] assms(7) obtain ds where
    ds: "wire (host ((pump_step ^^ n) m)) = wire (host m) @ ds" "to_peer a ds = stream_packets 3000 st nals"
    by auto
  have "receive (st_ssrc st) (st_sequence st) [] (to_peer a ds) = Some (stamped 3000 (st_timestamp st) nals)"
    using receive_stream [OF nals assms(3), of 3000] ds(2) by simp
  moreover have "map snd (take i (stamped 3000 t nals)) = take i nals" if "i < length nals" for i t
    using that by (intro nth_equalityI) (simp_all add: stamped_nth)
  ultimately show "\<exists>ds got. wire (host ((pump_step ^^ n) m)) = wire (host m) @ ds \<and>
      receive (st_ssrc st) (st_sequence st) [] (to_peer a ds) = Some got \<and> n \<le> length got \<and>
      file_from xs j (st_timestamp st) got"
    using ds(1) cyc
    by (intro exI [of _ ds] exI [of _ "stamped 3000 (st_timestamp st) nals"]) (simp add: file_from_def stamped_nth)
qed

section \<open>Play\<close>

lemma plays_file_alloc:
  "same_host (host m) w \<Longrightarrow> plays_file xs (m\<lparr>host := w, heap := h, next_ref := r\<rparr>) = plays_file xs m"
  by (simp add: plays_file_def file_at_def same_host_def)

lemma play_starts:
  assumes "plays_file xs m" and "served xs m" and "has_hub s" and "reachable_peer (host m) (client_ip s)"
  shows "\<exists>m1 m'. (\<forall>req. session_header_matches req s \<longrightarrow> handle_play req s m =
      ([], [(response_play (cseq req) (session_id s), m1)], s\<lparr>streamer := Some (next_ref m), state := PLAYING\<rparr>, m')) \<and>
    (\<not> hub_running (hub m) \<longrightarrow> (\<exists>src. hub_source (hub m') = Some (File_source src) \<and> in_file xs 0 src))"
proof -
  let ?a = "\<lambda>w h r. m\<lparr>host := w, heap := h, next_ref := r\<rparr>"
  have a: "plays_file xs (?a w h r)" "served xs (?a w h r)" if "same_host (host m) w" for w h r
    using assms(1,2) that by (simp_all add: plays_file_alloc served_def)
  have "fst (hub_subscribe (Some (next_ref m)) (?a w h r))" if "same_host (host m) w" for w h r
    using served_subscribe(1) [OF a [OF that]] by (metis prod.collapse)
  from play_granted [OF assms(3,4) this] obtain w st where w: "same_host (host m) w" and
    h: "\<And>req. session_header_matches req s \<Longrightarrow> handle_play req s m =
      ([], [(response_play (cseq req) (session_id s), m\<lparr>host := w\<rparr>)], s\<lparr>streamer := Some (next_ref m), state := PLAYING\<rparr>,
       snd (hub_subscribe (Some (next_ref m)) (?a w ((heap m)(next_ref m \<mapsto> st)) (Suc (next_ref m)))))" by blast
  let ?b = "?a w ((heap m)(next_ref m \<mapsto> st)) (Suc (next_ref m))"
  obtain k b where start: "hub_start_pump ?b = (k, b)" by fastforce
  have "\<exists>src. hub_source (hub (snd (hub_subscribe (Some (next_ref m)) ?b))) = Some (File_source src) \<and> in_file xs 0 src"
    if "\<not> hub_running (hub m)"
    using that start served_start [OF a(1) [OF w] start] by (auto simp: hub_subscribe_def)
  with h show ?thesis by blast
qed

lemma player_share:
  assumes "reaches iter (server_new fd epoll path w) srv" and "file_at w path xs" and "sends_ok w"
    and "clients srv c = Some s" and "streamer s = Some r" and "alone c (address_of s) srv"
    and "hub_running (hub (plant srv))" and "hub_source (hub (plant srv)) = Some (File_source src)" and "in_file xs j src"
  shows "\<exists>st. heap (plant srv) r = Some st \<and>
    gets_file xs (address_of s) (wire (host (plant srv))) (plant srv) j (st_timestamp st)"
proof -
  note reached = reached_serves [OF assms(1,2)]
  have ok: "server_ok srv" by (rule reaches_ok [OF assms(1) server_new_ok])
  have f: "sends_ok (host (plant srv))" "hub_ts_increment (hub (plant srv)) = 3000"
    using reached(3) assms(3) sends_ok_same by (auto simp: fixed_by_def)
  from playing_watches [OF ok reached(4) assms(4-6) f(1)] obtain st where
    st: "heap (plant srv) r = Some st" "watching (address_of s) r st (plant srv)" "st_payload_type st = 96" by blast
  have "file_ok xs" using assms(2) by (simp add: file_at_def)
  from file_share [OF this st(2,3) assms(7-9) f(2)] st(1) show ?thesis by blast
qed

lemma play_exchange:
  assumes "reaches iter (server_new fd epoll path w) srv" and "file_at w path xs" and "reachable_peer w (client_ip s)"
    and "clients srv c = Some s" and "c \<noteq> listener_fd srv" and "rx_buffer s = []" and "state s = READY"
    and "session_id_of (session_id s) = session_id s" and "wf_value (session_id s)"
    and "url_ok u" and "int32 n" and "iterates iter" and "takes_bytes 300 ws" and "alone c (address_of s) srv"
  shows "\<exists>srv'. handle_event iter (arrival c (session_request ''PLAY'' u n (session_id s)) ws) srv = Inr srv' \<and>
     clients srv' = (clients srv)(c \<mapsto> s\<lparr>streamer := Some (next_ref (plant srv)), state := PLAYING\<rparr>) \<and>
     sent_to srv' = sent_to srv @ [(c, response_play n (session_id s))] \<and>
     (\<exists>j. (streaming srv = {} \<longrightarrow> j = 0) \<and> gets_file xs (address_of s) (wire (host (plant srv))) (plant srv') j 0)"
proof -
  let ?m = "plant srv"
  note reached = reached_serves [OF assms(1,2)]
  have ok: "server_ok srv" by (rule reaches_ok [OF assms(1) server_new_ok])
  then have sok: "hub_ok ?m" "session_ok s ?m" "has_hub s" using assms(4) by (simp_all add: server_ok_def)
  have none: "streamer s = None" using sok(2) assms(7) by (auto simp: session_ok_def)
  have sid: "length (session_id s) = 8" using sok(2) assms(7) by (auto simp: session_ok_def)
  have peer: "reachable_peer (host ?m) (client_ip s)"
    using reached(3) assms(3) by (simp add: fixed_by_def reachable_peer_def same_host_def)
  let ?s = "s\<lparr>streamer := Some (next_ref ?m), state := PLAYING\<rparr>"
  from play_starts [OF reached(1,2) sok(3) peer] obtain m1 m' where
    h: "\<And>req. session_header_matches req s \<Longrightarrow> handle_play req s ?m = ([], [(response_play (cseq req) (session_id s), m1)], ?s, m')"
    and quiet: "\<not> hub_running (hub ?m) \<longrightarrow> (\<exists>src. hub_source (hub m') = Some (File_source src) \<and> in_file xs 0 src)"
    by auto
  let ?srv = "srv\<lparr>clients := (clients srv)(c \<mapsto> ?s), plant := m', sent_to := sent_to srv @ [(c, response_play n (session_id s))]\<rparr>"
  have "state ?s \<noteq> CLOSED" by simp
  note ev = play_event [OF assms(4-7) sid assms(9,8,10-13) this h]
  obtain req where "session_header_matches req s" using play_event_request [OF sid assms(9,8)] by blast
  from h [OF this] have played: "handle_play req s ?m = ([], [(response_play (cseq req) (session_id s), m1)], ?s, m')" .
  note eff = handle_play_effect [OF sok(1) none played]
  then have m': "wire (host m') = wire (host ?m)" "hub_running (hub m')"
    "\<exists>st. heap m' (next_ref ?m) = Some st \<and> st_timestamp st = 0" by auto
  have after: "reaches iter (server_new fd epoll path w) ?srv" by (rule reaches.event [OF assms(1) ev])
  obtain src j where src: "hub_source (hub m') = Some (File_source src)" "in_file xs j src" "streaming srv = {} \<longrightarrow> j = 0"
  proof (cases "streaming srv = {}")
    case True
    then have "hub_subscribers (hub ?m) = []" using ok by (simp add: server_ok_def)
    then have "\<not> hub_running (hub ?m)" using sok(1) by (auto simp: hub_ok_def)
    with quiet that show ?thesis by blast
  next
    case False
    with reached_serves(2) [OF after assms(2)] m'(2) that show ?thesis by (auto simp: served_def)
  qed
  have "alone c (address_of ?s) ?srv" using assms(14) by (simp add: alone_def address_of_def)
  moreover have "sends_ok w" using assms(3) by (simp add: reachable_peer_def sends_ok_def)
  ultimately obtain st where st: "heap m' (next_ref ?m) = Some st"
    "gets_file xs (address_of ?s) (wire (host m')) m' j (st_timestamp st)"
    using player_share [OF after assms(2), of c ?s "next_ref ?m" src j] src(1,2) m'(2) by auto
  moreover have "st_timestamp st = 0" "address_of ?s = address_of s" using m'(3) st(1) by (auto simp: address_of_def)
  ultimately show ?thesis
    using ev src(3) m'(1)
    by (intro exI [of _ ?srv] conjI exI [of _ j]) simp_all
qed

text \<open>
  \<open>play_serves\<close>: a \<open>PLAY\<close> of the client \<open>c\<close> with this session id is answered with 200 and its sequence
  number, and from then on every turn of the pump brings NAL units of the file to the address \<open>a\<close>, with
  timestamps from zero on; when nobody was watching, from the beginning of the file.
\<close>

definition play_serves :: "(header_table \<Rightarrow> header_table) \<Rightarrow> (bool \<times> bytes) list \<Rightarrow> string \<Rightarrow> int \<Rightarrow> sys_write list \<Rightarrow>
    int \<Rightarrow> string \<Rightarrow> address \<Rightarrow> server \<Rightarrow> bool" where
  "play_serves iter xs u n ws c sid a srv \<longleftrightarrow>
     (\<exists>srv' reply. handle_event iter (arrival c (session_request ''PLAY'' u n sid) ws) srv = Inr srv' \<and>
        sent_to srv' = sent_to srv @ [(c, reply)] \<and>
        read_reply reply = Some (ok_reply [(''CSeq'', show_int n), (''Session'', sid), (''Range'', ''npt=0.000-'')], []) \<and>
        (\<exists>j. (streaming srv = {} \<longrightarrow> j = 0) \<and> gets_file xs a (wire (host (plant srv))) (plant srv') j 0))"

lemma ready_play_serves:
  assumes "reaches iter (server_new fd epoll path w) srv" and "file_at w path xs" and "reachable_peer w (client_ip s)"
    and "clients srv c = Some s" and "c \<noteq> listener_fd srv" and "rx_buffer s = []" and "state s = READY"
    and "url_ok u" and "int32 n" and "iterates iter" and "takes_bytes 300 ws" and "alone c (address_of s) srv"
  shows "play_serves iter xs u n ws c (session_id s) (address_of s) srv"
proof -
  note id = reached_id [OF assms(1,4)]
  have "read_reply (response_play n (session_id s)) =
      Some (ok_reply [(''CSeq'', show_int n), (''Session'', session_id s), (''Range'', ''npt=0.000-'')], [])"
    using read_bodyless [of 200 "''OK''" _ "[]"] id(1) by (simp add: renderings wf_fields int32_def ok_reply_def)
  with play_exchange [OF assms(1-7) id(2,1) assms(8-12)] show ?thesis unfolding play_serves_def by blast
qed

section \<open>Properties\<close>

definition two_nals :: "(bool \<times> bytes) list" where
  "two_nals = [(False, [0x67, 0x42]), (False, [0x65, 9])]"

lemma file_host_ok: "file_at file_host ''a.h264'' two_nals" "reachable_peer file_host ''10.0.0.2''" "sends_ok file_host"
  by (simp_all add: file_at_def file_ok_def two_nals_def file_host_def clean_nal_def code_at_def annexb_stream_def
      start_code_def reachable_peer_def sample_os_def sends_ok_def
      exI [of _ "[[0, 0, 1, 0x67, 0x42, 0], [0, 1, 0x65, 9]]"])

lemma event_keeps_others:
  assumes "handle_event iter ev srv = Inr srv'" and "ev_fd ev \<noteq> listener_fd srv" and "c \<noteq> ev_fd ev"
  shows "clients srv' c = clients srv c"
proof (cases "clients srv (ev_fd ev)")
  case None
  with assms show ?thesis by (simp add: handle_event_def)
next
  case (Some s)
  from assms(1,2) Some show ?thesis by (cases rule: handle_event_cases) (use assms(3) in auto)
qed

text \<open>A client that has set up its session and plays.\<close>

lemma playing_reached:
  "\<exists>srv s. reaches id (server_new 3 4 ''a.h264'' file_host) srv \<and> clients srv = [7 \<mapsto> s] \<and> state s = PLAYING \<and>
     address_of s = (''10.0.0.2'', 5000) \<and> rx_buffer s = [] \<and> listener_fd srv = 3"
proof -
  obtain sid w where sid: "generate_session_id (host (plant file_server)) = (sid, w)" by fastforce
  note plain = hex_plain [OF generate_session_id_shape(2) [OF sid]]
  let ?s = "Session_new ''10.0.0.2'' True"
  let ?s1 = "?s\<lparr>client_rtp_port := 5000, client_rtcp_port := 5001, session_id := sid, state := READY\<rparr>"
  obtain srv1 where srv1: "handle_event id (arrival 7 (setup_request ''rtsp://h/s'' 1 5000 5001) [Wrote 4096]) file_server = Inr srv1"
    "clients srv1 = [7 \<mapsto> ?s1]" "listener_fd srv1 = 3"
    using setup_exchange [of file_server 7 ?s _ 1 5000 5001 id "[Wrote 4096]", OF _ _ _ _ _ _ _ _ _ _ _ sid] sample_ok
    by (auto simp: file_server_fields Session_new_def int32_def)
  note r1 = reaches.event [OF file_server_reached srv1(1)]
  let ?s2 = "?s1\<lparr>streamer := Some (next_ref (plant srv1)), state := PLAYING\<rparr>"
  have "alone 7 (address_of ?s1) srv1" using srv1(2) by (simp add: alone_def)
  then obtain srv2 where srv2: "handle_event id (arrival 7 (session_request ''PLAY'' ''rtsp://h/s'' 2 sid) [Wrote 4096]) srv1 = Inr srv2"
    "clients srv2 = (clients srv1)(7 \<mapsto> ?s2)"
    using play_exchange [OF r1 file_host_ok(1), of ?s1 7 "''rtsp://h/s''" 2 "[Wrote 4096]"] srv1 plain file_host_ok sample_ok
    by (auto simp: int32_def Session_new_def)
  note r2 = reaches.event [OF r1 srv2(1)]
  have "listener_fd srv2 = 3" using loop_descriptors.reaches_keeps [OF r2, of 3 4] by (simp add: server_new_def)
  then show ?thesis using r2 srv2(2) srv1(2)
    by (intro exI [of _ srv2] exI [of _ ?s2]) (simp add: address_of_def Session_new_def)
qed

text \<open>
  C3: a client that plays is served, in every state of a server on a file, however the clients came
  and went before.  The pump runs, and from then on every turn of it brings the client at least one
  NAL unit: what is sent to its address is a gapless RTP stream from which a receiver puts together
  the NAL units of the file, from some point on in order and over and over, with the timestamps
  moving on by 3000 ticks after each coded slice.
\<close>

theorem players_served:
  assumes "reaches iter (server_new fd epoll path w) srv" and "file_at w path xs" and "sends_ok w"
    and "clients srv c = Some s" and "state s = PLAYING" and "alone c (address_of s) srv"
  shows "hub_running (hub (plant srv)) \<and>
    (\<exists>j t. gets_file xs (address_of s) (wire (host (plant srv))) (plant srv) j t)"
proof -
  have ok: "server_ok srv" by (rule reaches_ok [OF assms(1) server_new_ok])
  then have "session_ok s (plant srv)" using assms(4) by (simp add: server_ok_def)
  then obtain r where r: "streamer s = Some r" using assms(5) by (auto simp: session_ok_def)
  have "hub_subscribers (hub (plant srv)) \<noteq> []" using session_streamer(3) [OF ok assms(4) r] by force
  then obtain src j where running: "hub_running (hub (plant srv))"
    "hub_source (hub (plant srv)) = Some (File_source src)" "in_file xs j src"
    using reached_serves(2) [OF assms(1,2)] by (auto simp: served_def)
  from player_share [OF assms(1-4) r assms(6) this] running(1) show ?thesis by blast
qed

lemma players_served_witness:
  "\<exists>srv s. reaches id (server_new 3 4 ''a.h264'' file_host) srv \<and> clients srv 7 = Some s \<and> state s = PLAYING \<and>
     (\<exists>j t. gets_file two_nals (''10.0.0.2'', 5000) (wire (host (plant srv))) (plant srv) j t)"
proof -
  obtain srv s where p: "reaches id (server_new 3 4 ''a.h264'' file_host) srv" "clients srv = [7 \<mapsto> s]" "state s = PLAYING"
    "address_of s = (''10.0.0.2'', 5000)" using playing_reached by blast
  then have "alone 7 (address_of s) srv" by (simp add: alone_def)
  from players_served [OF p(1) file_host_ok(1,3) _ p(3) this] p show ?thesis
    by (intro exI [of _ srv] exI [of _ s]) simp
qed

text \<open>
  C1: a client watches a file.  Let a server on a file be in any state it can reach, with a client
  that has just connected.  The client's \<open>SETUP\<close> is answered with 200, its own sequence number and a
  session id; when it then sends \<open>PLAY\<close> with the id read out of that answer, with whatever events and
  turns of the pump in between, it is answered with 200 again, and every turn of the pump from then on
  brings it at least one NAL unit of the file, in order and over and over, on a gapless RTP stream
  whose timestamps start at zero; the first client of a server that was quiet gets the file from its
  beginning.
\<close>

theorem client_watches_file:
  assumes "reaches iter (server_new fd epoll path w) srv" and "file_at w path xs"
    and "reachable_peer w (client_ip s)" and "iterates iter"
    and "clients srv c = Some s" and "c \<noteq> listener_fd srv" and "rx_buffer s = []" and "state s = INIT"
    and "url_ok u" and "int32 n1" and "int32 n2" and "p \<in> {1..65535}" and "int32 q"
    and "takes_bytes 300 ws1" and "takes_bytes 300 ws2"
  shows "\<exists>srv1 reply1 sid. handle_event iter (arrival c (setup_request u n1 p q) ws1) srv = Inr srv1 \<and>
     sent_to srv1 = sent_to srv @ [(c, reply1)] \<and>
     read_reply reply1 = Some (ok_reply [(''CSeq'', show_int n1), (''Session'', sid),
       (''Transport'', transport_value p q 6970 6971)], []) \<and>
     (\<forall>srv2. reaches iter srv1 srv2 \<longrightarrow> clients srv2 c = clients srv1 c \<longrightarrow>
        alone c (client_ip s, word_of_int p) srv2 \<longrightarrow>
        play_serves iter xs u n2 ws2 c sid (client_ip s, word_of_int p) srv2)"
proof -
  obtain sid w1 where sid: "generate_session_id (host (plant srv)) = (sid, w1)" by fastforce
  note plain = hex_plain [OF generate_session_id_shape(2) [OF sid]]
  have ok: "server_ok srv" by (rule reaches_ok [OF assms(1) server_new_ok])
  have s: "session_id s = []" using ok assms(5,8) by (simp add: server_ok_def session_ok_def)
  let ?s1 = "s\<lparr>client_rtp_port := p, client_rtcp_port := q, session_id := sid, state := READY\<rparr>"
  let ?srv1 = "srv\<lparr>clients := (clients srv)(c \<mapsto> ?s1), plant := (plant srv)\<lparr>host := w1\<rparr>,
     sent_to := sent_to srv @ [(c, response_setup n1 sid p q 6970 6971)]\<rparr>"
  note exchange = setup_exchange [OF assms(5-8) s assms(9,10,12,13,4,14) sid]
  have reached1: "reaches iter (server_new fd epoll path w) ?srv1" by (rule reaches.event [OF assms(1) exchange])
  have reply: "read_reply (response_setup n1 sid p q 6970 6971) = Some (ok_reply [(''CSeq'', show_int n1),
      (''Session'', sid), (''Transport'', transport_value p q 6970 6971)], [])"
    using read_bodyless [of 200 "''OK''" _ "[]"] plain by (simp add: renderings wf_fields int32_def ok_reply_def)
  have play: "play_serves iter xs u n2 ws2 c sid (client_ip s, word_of_int p) srv2"
    if r: "reaches iter ?srv1 srv2" and "clients srv2 c = clients ?srv1 c" and a: "alone c (client_ip s, word_of_int p) srv2"
    for srv2
  proof -
    have "c \<noteq> listener_fd srv2" using loop_descriptors.reaches_keeps [OF r, of "listener_fd srv"] assms(6) by simp
    then show ?thesis
      using ready_play_serves [OF reaches_trans [OF r reached1] assms(2), of ?s1 c u n2 ws2] assms(3,4,7,9,11,15) that
      by (simp add: address_of_def)
  qed
  show ?thesis
    by (rule exI [of _ ?srv1], rule exI [of _ "response_setup n1 sid p q 6970 6971"], rule exI [of _ sid],
        intro conjI impI allI; (rule exchange reply play; assumption)?) simp
qed

lemma client_watches_file_witness:
  "\<exists>srv1 srv3 sid. handle_event id (arrival 7 (setup_request ''rtsp://h/s'' 1 5000 5001) [Wrote 4096]) file_server = Inr srv1 \<and>
     handle_event id (arrival 7 (session_request ''PLAY'' ''rtsp://h/s'' 2 sid) [Wrote 100, WriteEINTR, Wrote 300]) srv1 = Inr srv3 \<and>
     length (sent_to srv3) = 2 \<and> (\<exists>j. gets_file two_nals (''10.0.0.2'', 5000) (wire (host (plant srv1))) (plant srv3) j 0)"
proof -
  let ?s = "Session_new ''10.0.0.2'' True"
  have s: "client_ip ?s = ''10.0.0.2''" "rx_buffer ?s = []" "state ?s = INIT" by (simp_all add: Session_new_def)
  have peer: "reachable_peer file_host (client_ip ?s)" using file_host_ok(2) s(1) by simp
  have c: "clients file_server 7 = Some ?s" "7 \<noteq> listener_fd file_server" by (simp_all add: file_server_fields)
  have ws: "takes_bytes 300 [Wrote 100, WriteEINTR, Wrote 300]" by (simp add: takes_bytes_def)
  have n: "int32 1" "int32 2" "5000 \<in> {1..65535 :: int}" "int32 5001" by (simp_all add: int32_def)
  have sent: "sent_to file_server = []" by (rule file_server_fields)
  obtain sid w where sid: "generate_session_id (host (plant file_server)) = (sid, w)" by fastforce
  let ?req = "setup_request ''rtsp://h/s'' 1 5000 5001"
  obtain srv where srv: "handle_event id (arrival 7 ?req [Wrote 4096]) file_server = Inr srv"
    "dom (clients srv) = {7}"
    using setup_exchange [OF c s(2,3) _ sample_ok(1) n(1,3,4) sample_ok(3,2) sid]
    by (auto simp: file_server_fields Session_new_def)
  then have alone: "alone 7 a srv" for a by (auto simp: alone_def)
  show ?thesis
    using client_watches_file [OF file_server_reached file_host_ok(1) peer sample_ok(3) c s(2,3) sample_ok(1) n sample_ok(2) ws]
  proof (elim exE conjE)
    fix srv1 reply1 sid
    assume h: "handle_event id (arrival 7 ?req [Wrote 4096]) file_server = Inr srv1"
      "sent_to srv1 = sent_to file_server @ [(7, reply1)]"
      and play: "\<forall>srv2. reaches id srv1 srv2 \<longrightarrow> clients srv2 7 = clients srv1 7 \<longrightarrow>
        alone 7 (client_ip ?s, word_of_int 5000) srv2 \<longrightarrow>
        play_serves id two_nals ''rtsp://h/s'' 2 [Wrote 100, WriteEINTR, Wrote 300] 7 sid (client_ip ?s, word_of_int 5000) srv2"
    have eq: "srv1 = srv" using h(1) srv(1) by simp
    from play [rule_format, OF reaches.here refl] alone obtain srv3 reply2 j where
      "handle_event id (arrival 7 (session_request ''PLAY'' ''rtsp://h/s'' 2 sid) [Wrote 100, WriteEINTR, Wrote 300]) srv1 = Inr srv3"
      "sent_to srv3 = sent_to srv1 @ [(7, reply2)]"
      "gets_file two_nals (client_ip ?s, word_of_int 5000) (wire (host (plant srv1))) (plant srv3) j 0"
      unfolding eq play_serves_def by blast
    with h sent s(1) have "length (sent_to srv3) = 2"
      "gets_file two_nals (''10.0.0.2'', 5000) (wire (host (plant srv1))) (plant srv3) j 0" by simp_all
    with h(1) \<open>_ = Inr srv3\<close> show ?thesis by blast
  qed
qed

text \<open>
  C17: a client pauses and goes on.  In any reachable state of a server on a file, a client that plays
  and sends \<open>PAUSE\<close> is answered with 200.  From then on, whatever the others do, no turn of the pump
  sends anything to its address, until it sends \<open>PLAY\<close>: this is answered with 200 without a new
  \<open>SETUP\<close>, and brings the NAL units of the file again, on a new RTP stream to the same port.
\<close>

theorem pause_and_resume:
  assumes "reaches iter (server_new fd epoll path w) srv" and "file_at w path xs"
    and "reachable_peer w (client_ip s)" and "iterates iter"
    and "clients srv c = Some s" and "c \<noteq> listener_fd srv" and "rx_buffer s = []" and "state s = PLAYING"
    and "url_ok u" and "int32 n1" and "int32 n2" and "takes_bytes 300 ws1" and "takes_bytes 300 ws2"
  shows "\<exists>srv1 reply1. handle_event iter (arrival c (session_request ''PAUSE'' u n1 (session_id s)) ws1) srv = Inr srv1 \<and>
     sent_to srv1 = sent_to srv @ [(c, reply1)] \<and>
     read_reply reply1 = Some (ok_reply [(''CSeq'', show_int n1), (''Session'', session_id s)], []) \<and>
     (\<forall>srv2. reaches iter srv1 srv2 \<longrightarrow> clients srv2 c = clients srv1 c \<longrightarrow> alone c (address_of s) srv2 \<longrightarrow>
        (\<exists>ds. wire (host (pump_step (plant srv2))) = wire (host (plant srv2)) @ ds \<and> to_peer (address_of s) ds = []) \<and>
        play_serves iter xs u n2 ws2 c (session_id s) (address_of s) srv2)"
proof -
  have ok: "server_ok srv" by (rule reaches_ok [OF assms(1) server_new_ok])
  then have len: "length (session_id s) = 8" using assms(5,8) by (simp add: server_ok_def session_ok_def)
  note id = reached_id [OF assms(1,5)]
  obtain m' where st: "stop_streaming s (plant srv) = (s\<lparr>streamer := None\<rparr>, m')"
    using stop_streaming_session [of s "plant srv"] by (metis prod.collapse)
  let ?s1 = "s\<lparr>streamer := None, state := READY\<rparr>"
  let ?srv1 = "srv\<lparr>clients := (clients srv)(c \<mapsto> ?s1), plant := m',
     sent_to := sent_to srv @ [(c, response_ok_session n1 (session_id s))]\<rparr>"
  have exchange: "handle_event iter (arrival c (session_request ''PAUSE'' u n1 (session_id s)) ws1) srv = Inr ?srv1"
    using pause_exchange [OF assms(5-8) len id assms(9,10,4,12) st] by simp
  have reached1: "reaches iter (server_new fd epoll path w) ?srv1" by (rule reaches.event [OF assms(1) exchange])
  have reply: "read_reply (response_ok_session n1 (session_id s)) =
      Some (ok_reply [(''CSeq'', show_int n1), (''Session'', session_id s)], [])"
    using read_bodyless [of 200 "''OK''" _ "[]"] id(1) by (simp add: renderings wf_fields int32_def ok_reply_def)
  have later: "\<exists>ds. wire (host (pump_step (plant srv2))) = wire (host (plant srv2)) @ ds \<and> to_peer (address_of s) ds = []"
    "play_serves iter xs u n2 ws2 c (session_id s) (address_of s) srv2"
    if r: "reaches iter ?srv1 srv2" and "clients srv2 c = clients ?srv1 c" and a: "alone c (address_of s) srv2" for srv2
  proof -
    have reached: "reaches iter (server_new fd epoll path w) srv2" by (rule reaches_trans [OF r reached1])
    have c: "clients srv2 c = Some ?s1" using that(2) by simp
    show "\<exists>ds. wire (host (pump_step (plant srv2))) = wire (host (plant srv2)) @ ds \<and> to_peer (address_of s) ds = []"
      using paused_unheard [OF reaches_ok [OF reached server_new_ok] c _ a] by simp
    have "c \<noteq> listener_fd srv2" using loop_descriptors.reaches_keeps [OF r, of "listener_fd srv"] assms(6) by simp
    then show "play_serves iter xs u n2 ws2 c (session_id s) (address_of s) srv2"
      using ready_play_serves [OF reached assms(2), of ?s1 c u n2 ws2] assms(3,4,7,9,11,13) c a
      by (simp add: address_of_def)
  qed
  show ?thesis
    by (rule exI [of _ ?srv1], rule exI [of _ "response_ok_session n1 (session_id s)"],
        intro conjI impI allI; (rule exchange reply later; assumption)?) simp
qed

lemma pause_and_resume_witness:
  "\<exists>srv s srv1 srv2. clients srv 7 = Some s \<and> state s = PLAYING \<and>
     handle_event id (arrival 7 (session_request ''PAUSE'' ''rtsp://h/s'' 3 (session_id s)) [Wrote 4096]) srv = Inr srv1 \<and>
     handle_event id (arrival 7 (session_request ''PLAY'' ''rtsp://h/s'' 4 (session_id s)) [Wrote 4096]) srv1 = Inr srv2 \<and>
     (\<exists>j. gets_file two_nals (''10.0.0.2'', 5000) (wire (host (plant srv1))) (plant srv2) j 0)"
proof -
  obtain srv s where p: "reaches id (server_new 3 4 ''a.h264'' file_host) srv" "clients srv = [7 \<mapsto> s]" "state s = PLAYING"
    "address_of s = (''10.0.0.2'', 5000)" "rx_buffer s = []" "listener_fd srv = 3" using playing_reached by blast
  have "reachable_peer file_host (client_ip s)" using file_host_ok(2) p(4) by (simp add: address_of_def)
  moreover have "clients srv 7 = Some s" "7 \<noteq> listener_fd srv" "int32 3" "int32 4" using p(2,6) by (simp_all add: int32_def)
  ultimately obtain srv1 where srv1:
    "handle_event id (arrival 7 (session_request ''PAUSE'' ''rtsp://h/s'' 3 (session_id s)) [Wrote 4096]) srv = Inr srv1"
    and on: "\<And>srv2. reaches id srv1 srv2 \<Longrightarrow> clients srv2 7 = clients srv1 7 \<Longrightarrow> alone 7 (address_of s) srv2 \<Longrightarrow>
      play_serves id two_nals ''rtsp://h/s'' 4 [Wrote 4096] 7 (session_id s) (address_of s) srv2"
    using pause_and_resume [OF p(1) file_host_ok(1) _ sample_ok(3) _ _ p(5,3) sample_ok(1) _ _ sample_ok(2,2), of 7 3 4]
    by blast
  have "alone 7 (address_of s) srv1" using event_keeps_others [OF srv1] p(2,6) by (auto simp: alone_def arrival_def)
  from on [OF reaches.here refl this] obtain srv2 j where
    "handle_event id (arrival 7 (session_request ''PLAY'' ''rtsp://h/s'' 4 (session_id s)) [Wrote 4096]) srv1 = Inr srv2"
    "gets_file two_nals (''10.0.0.2'', 5000) (wire (host (plant srv1))) (plant srv2) j 0"
    unfolding play_serves_def p(4) by blast
  with srv1 p(2,3) show ?thesis
    by (intro exI [of _ srv] exI [of _ s] exI [of _ srv1] exI [of _ srv2]) auto
qed

end
