(* ===== verification/Ending.thy ===== *)
theory Ending
  imports Conversation
begin

text \<open>
  The end of the source: a file that cannot be read on, or a camera process that is gone.  The pump
  thread leaves its loop (src/media/hub.cpp), and nobody is told.
\<close>

section \<open>Quiet until the next player\<close>

text \<open>
  \<open>quiet_since n w\<close>: as long as there are no more than the \<open>n\<close> streamers made so far, the pump does not
  run, the source is closed, and nothing is sent.
\<close>

definition quiet_since :: "nat \<Rightarrow> (address \<times> bytes) list \<Rightarrow> media \<Rightarrow> bool" where
  "quiet_since n sent m \<longleftrightarrow>
     n \<le> next_ref m \<and> (next_ref m = n \<longrightarrow> \<not> hub_running (hub m) \<and> wire (host m) = sent)"

lemma quiet_same:
  assumes "quiet_since n sent m" and "next_ref m' = next_ref m" and "hub_running (hub m') = hub_running (hub m)"
    and "wire (host m') = wire (host m)"
  shows "quiet_since n sent m'"
  using assms by (simp add: quiet_since_def)

lemma pump_step_next_ref: "next_ref (pump_step m) = next_ref m"
  using pump_step_kept [of m] by (simp add: kept_def)

lemma stopped_unsubscribe:
  assumes "\<not> hub_running (hub m)"
  shows "hub_unsubscribe r m = m\<lparr>hub := (hub m)\<lparr>hub_subscribers := removeAll r (hub_subscribers (hub m))\<rparr>\<rparr>"
  using assms by (auto simp: hub_unsubscribe_def)

interpretation quiet: stream_invariant "quiet_since n sent" for n sent
proof (unfold_locales, goal_cases)
  case (1 m)
  show ?case
  proof (cases "hub_running (hub m)")
    case True
    with 1 show ?thesis by (simp add: quiet_since_def pump_step_next_ref)
  next
    case False
    with 1 show ?thesis by (simp add: pump_step_def)
  qed
next
  case (2 m a ok m')
  then have "next_ref m' = next_ref a" using hub_subscribe_effect(2) by blast
  with 2(1,3) show ?case by (simp add: quiet_since_def)
next
  case (3 m r)
  have "next_ref (hub_unsubscribe r m) = next_ref m" using hub_unsubscribe_kept [where m = m and r = r] by (auto simp: kept_def)
  then show ?case using 3 stopped_unsubscribe [of m r] by (auto simp: quiet_since_def)
next
  case (4 m)
  then show ?case by (rule quiet_same) (simp_all add: draw_def)
next
  case (5 m r)
  then show ?case by (rule quiet_same) simp_all
next
  case (6 m st0 w0 ip port st w)
  then show ?case by (simp add: quiet_since_def)
next
  case (7 m st0 w0 ip port st w)
  from 7(3) show ?case by (rule quiet_same) (use fresh_streamer(1) [OF 7(1,2)] in simp_all)
qed

section \<open>Properties\<close>

text \<open>On an empty file the source starts, and its first read fails.\<close>

definition empty_host :: os where
  "empty_host = sample_os\<lparr>fs_open := \<lambda>_. Some (fopened [])\<rparr>"

lemma empty_file_ends:
  assumes "\<not> hub_running (hub m)" and "cfg_source (hub_cfg (hub m)) = ''e.h264''" and "fs_open (host m) = fs_open empty_host"
  shows "fst (hub_subscribe (Some r) m)" and "hub_running (hub (snd (hub_subscribe (Some r) m)))"
    and "\<not> hub_running (hub (pump_step (snd (hub_subscribe (Some r) m))))"
proof -
  have "read_nal (Some (fopened [])) [] = (False, None, [], Some (fopened []))" by code_simp
  then have "file_read_nal \<lparr>f_path = p, f_fps = n, f_loop = b, f_file = Some (fopened []), f_reader = [],
      f_next_frame_time = t\<rparr> = (False, [], None, \<lparr>f_path = p, f_fps = n, f_loop = b, f_file = Some (fopened []),
      f_reader = [], f_next_frame_time = t\<rparr>)" for p n b t
    by (simp add: file_read_nal_def fopened_def reader_reset_def rewind_def Let_def opt_list_def)
  then show "fst (hub_subscribe (Some r) m)" "hub_running (hub (snd (hub_subscribe (Some r) m)))"
    "\<not> hub_running (hub (pump_step (snd (hub_subscribe (Some r) m))))"
    using assms(1-3)
    by (simp_all add: empty_host_def hub_subscribe_def hub_start_pump_def make_source_def FileSource_new_def file_start_def Let_def
        reader_reset_def pump_step_def pump_body_def pump_exit_def)
qed

text \<open>
  C29: the end of the source strands the players.  When a read of the source fails, the pump ends while
  somebody is playing.  From then on, whatever else the clients do and however often the pump is
  scheduled, nothing is sent to anybody as long as no new streamer is made; the players are told
  nothing and stay in \<open>PLAYING\<close>.  It is the next \<open>PLAY\<close> of any other client that starts the source
  again, for everybody who is still on the list.
\<close>

theorem ended_source_strands_players:
  assumes "reaches iter (server_new fd epoll path w) srv" and "hub_running (hub (plant srv))"
    and "\<not> hub_running (hub (pump_step (plant srv)))"
  shows "(\<exists>c s. clients srv c = Some s \<and> state s = PLAYING) \<and>
    (\<forall>srv'. reaches iter (srv\<lparr>plant := pump_step (plant srv)\<rparr>) srv' \<longrightarrow>
       next_ref (plant srv') = next_ref (plant srv) \<longrightarrow>
       \<not> hub_running (hub (plant srv')) \<and> \<not> source_is_open (hub (plant srv')) \<and>
       wire (host (plant srv')) = wire (host (pump_step (plant srv)))) \<and>
    (\<forall>srv' c s req resp sent s' m'. reaches iter (srv\<lparr>plant := pump_step (plant srv)\<rparr>) srv' \<longrightarrow>
       clients srv' c = Some s \<longrightarrow> state s = READY \<longrightarrow> handle_play req s (plant srv') = (resp, sent, s', m') \<longrightarrow>
       state s' = PLAYING \<longrightarrow> hub_running (hub m') \<and> streaming srv' \<subseteq> set (hub_subscribers (hub m')))"
proof (intro conjI allI impI)
  let ?m = "plant srv"
  have ok: "server_ok srv" by (rule reaches_ok [OF assms(1) server_new_ok])
  then have "hub_subscribers (hub ?m) \<noteq> []" using assms(2) by (simp add: server_ok_def hub_ok_def)
  then obtain r where "r \<in> set (hub_subscribers (hub ?m))" by (meson list.set_sel(1))
  then show "\<exists>c s. clients srv c = Some s \<and> state s = PLAYING" unfolding running_audience [OF ok] by blast
next
  fix srv' assume r: "reaches iter (srv\<lparr>plant := pump_step (plant srv)\<rparr>) srv'"
    and n: "next_ref (plant srv') = next_ref (plant srv)"
  have "quiet_since (next_ref (plant srv)) (wire (host (pump_step (plant srv)))) (plant srv')"
    by (rule quiet.runs.reaches_keeps [OF r]) (simp add: quiet_since_def pump_step_next_ref assms(3))
  then show "\<not> hub_running (hub (plant srv'))" "wire (host (plant srv')) = wire (host (pump_step (plant srv)))"
    using n by (simp_all add: quiet_since_def)
  have "server_ok srv'" by (rule reaches_ok [OF reaches_trans [OF r reaches.pump [OF assms(1)]] server_new_ok])
  then show "\<not> source_is_open (hub (plant srv'))"
    using \<open>\<not> hub_running (hub (plant srv'))\<close> by (simp add: server_ok_def hub_ok_def)
next
  fix srv' c s req resp sent s' m'
  assume r: "reaches iter (srv\<lparr>plant := pump_step (plant srv)\<rparr>) srv'" and s: "clients srv' c = Some s" "state s = READY"
    and h: "handle_play req s (plant srv') = (resp, sent, s', m')" "state s' = PLAYING"
  have ok: "server_ok srv'" by (rule reaches_ok [OF reaches_trans [OF r reaches.pump [OF assms(1)]] server_new_ok])
  then have sok: "hub_ok (plant srv')" "session_ok s (plant srv')" using s(1) by (simp_all add: server_ok_def)
  then have none: "streamer s = None" using s(2) by (cases "streamer s") (simp_all add: session_ok_def)
  have "s' \<noteq> s" using s(2) h(2) by auto
  with handle_play_effect [OF sok(1) none h(1)] ok
  show "hub_running (hub m')" "streaming srv' \<subseteq> set (hub_subscribers (hub m'))"
    by (auto simp: server_ok_def split: if_splits)
qed

lemma ended_source_strands_players_witness:
  "\<exists>srv c s. reaches id (server_new 3 4 ''e.h264'' empty_host) srv \<and> hub_running (hub (plant srv)) \<and>
     clients srv c = Some s \<and> state s = PLAYING \<and> \<not> source_is_open (hub (pump_step (plant srv)))"
proof -
  let ?srv = "accepted_server ''e.h264'' empty_host" and ?s = "Session_new ''10.0.0.2'' True"
  obtain sid w where sid: "generate_session_id (host (plant ?srv)) = (sid, w)" by fastforce
  note shape = generate_session_id_shape [OF sid]
  let ?s1 = "?s\<lparr>client_rtp_port := 5000, client_rtcp_port := 5001, session_id := sid, state := READY\<rparr>"
  have s1: "rx_buffer ?s1 = []" "session_id ?s1 = sid" "has_hub ?s1" "client_ip ?s1 = ''10.0.0.2''"
    by (simp_all add: Session_new_def)
  obtain srv1 where srv1: "handle_event id (arrival 7 (setup_request ''rtsp://h/s'' 1 5000 5001) [Wrote 4096]) ?srv = Inr srv1"
    "clients srv1 7 = Some ?s1" "listener_fd srv1 = 3" "plant srv1 = (plant ?srv)\<lparr>host := w\<rparr>"
    using setup_exchange [of ?srv 7 ?s _ 1 5000 5001 id "[Wrote 4096]", OF _ _ _ _ _ _ _ _ _ _ _ sid] sample_ok
    by (auto simp: accepted_fields Session_new_def int32_def)
  have w: "w = snd (draw empty_host)" using sid by (auto simp: accepted_fields generate_session_id_def draw_def Let_def)
  have fs: "fs_open w' = fs_open empty_host" if "same_host (host (plant srv1)) w'" for w'
    using that srv1(4) by (simp add: w same_host_def draw_def ticked_def)
  have peer: "reachable_peer (host (plant srv1)) (client_ip ?s1)"
    using srv1(4) s1(4) by (simp add: w draw_def ticked_def reachable_peer_def empty_host_def sample_os_def)
  have m1: "\<not> hub_running (hub (plant srv1))" "cfg_source (hub_cfg (hub (plant srv1))) = ''e.h264''"
    using srv1(4) by (simp_all add: accepted_fields)
  from play_granted [of ?s1 "plant srv1", OF s1(3) peer empty_file_ends(1)] m1 fs obtain w' st where
    w': "same_host (host (plant srv1)) w'" and
    h: "\<And>req. session_header_matches req ?s1 \<Longrightarrow> handle_play req ?s1 (plant srv1) =
      ([], [(response_play (cseq req) (session_id ?s1), (plant srv1)\<lparr>host := w'\<rparr>)], ?s1\<lparr>streamer := Some (next_ref (plant srv1)), state := PLAYING\<rparr>,
       snd (hub_subscribe (Some (next_ref (plant srv1))) ((plant srv1)\<lparr>host := w',
         heap := (heap (plant srv1))(next_ref (plant srv1) \<mapsto> st), next_ref := Suc (next_ref (plant srv1))\<rparr>)))"
    by auto
  let ?a = "(plant srv1)\<lparr>host := w', heap := (heap (plant srv1))(next_ref (plant srv1) \<mapsto> st),
      next_ref := Suc (next_ref (plant srv1))\<rparr>"
  have a: "\<not> hub_running (hub ?a)" "cfg_source (hub_cfg (hub ?a)) = ''e.h264''" "fs_open (host ?a) = fs_open empty_host"
    using m1 fs [OF w'] by simp_all
  note ends = empty_file_ends [OF a, of "next_ref (plant srv1)"]
  let ?s2 = "?s1\<lparr>streamer := Some (next_ref (plant srv1)), state := PLAYING\<rparr>"
  have "7 \<noteq> listener_fd srv1" "state ?s1 = READY" "length (session_id ?s1) = 8" "wf_value (session_id ?s1)"
    "session_id_of (session_id ?s1) = session_id ?s1" "int32 2" "state ?s2 \<noteq> CLOSED"
    using srv1(3) shape(1) hex_plain [OF shape(2)] by (simp_all add: int32_def)
  from play_event [OF srv1(2) this(1) s1(1) this(2-5) sample_ok(1) this(6) sample_ok(3,2) this(7) h] obtain srv2 where
    srv2: "handle_event id (arrival 7 (session_request ''PLAY'' ''rtsp://h/s'' 2 sid) [Wrote 4096]) srv1 = Inr srv2"
    "clients srv2 7 = Some ?s2" "plant srv2 = snd (hub_subscribe (Some (next_ref (plant srv1))) ?a)" by auto
  have r: "reaches id (server_new 3 4 ''e.h264'' empty_host) srv2"
    by (rule reaches.event [OF reaches.event [OF accepted_reached srv1(1)] srv2(1)])
  from ended_source_strands_players [OF r] ends(2,3) srv2(3)
  have "\<not> source_is_open (hub (pump_step (plant srv2)))"
    using reaches.here [of id "srv2\<lparr>plant := pump_step (plant srv2)\<rparr>"] pump_step_next_ref [of "plant srv2"] by auto
  with r srv2 ends(2) show ?thesis by (intro exI [of _ srv2] exI [of _ 7] exI [of _ ?s2]) simp
qed

end
