(* ===== verification/UnitTests.thy ===== *)
theory UnitTests
  imports Session
begin

text \<open>
  The unit tests of the repository (src/tests), run on the model by evaluation in the kernel.  A test
  is a \<open>bool\<close>, the conjunction of its assertions in their order; the session gets no hub, as there, and
  the number that \<open>std::random_device\<close> gives is a parameter.  Where a test asserts the status only, the
  state it leaves is checked as well.
\<close>

section \<open>For the evaluation\<close>

text \<open>
  The kernel evaluates a \<open>nat\<close> in unary, so that sizes, ports and clock rates are computed as integers.
\<close>

lemma feed_evaluated [code]:
  "feed iter data s m =
     (let s = s\<lparr>rx_buffer := rx_buffer s @ data\<rparr> in
      if 65536 < int (length (rx_buffer s)) then ([], Inr False, s, m) else feed_loop iter s m)"
  by (simp add: feed_def kMaxRxBuffer_def Let_def)

function show_digits :: "int \<Rightarrow> string" where
  "show_digits i =
     (if i < 10 then [''0123456789'' ! nat i] else show_digits (i div 10) @ [''0123456789'' ! nat (i mod 10)])"
  by pat_completeness auto
termination
  by (relation "measure nat") auto

declare show_digits.simps [simp del]

lemma show_digits_int: "show_digits (int n) = show_nat n"
proof (induction n rule: show_nat.induct)
  case (1 n)
  then show ?case
    by (subst show_digits.simps, subst show_nat.simps) (simp add: zdiv_int nat_mod_distrib)
qed

lemma show_nat_evaluated [code]: "show_nat n = show_digits (int n)"
  by (simp add: show_digits_int)

lemma show_int_evaluated [code]: "show_int i = (if i < 0 then CHR ''-'' # show_digits (- i) else show_digits i)"
  using show_digits_int [of "nat i"] show_digits_int [of "nat (- i)"]
  by (cases "i < 0") (simp_all add: show_int_def)

definition digits_int :: "string \<Rightarrow> int" where
  "digits_int ds = foldl (\<lambda>v c. 10 * v + int (digit_value c)) 0 ds"

lemma digits_evaluated [code_unfold]: "int (digits_value ds) = digits_int ds"
proof -
  have "int (foldl (\<lambda>v c. 10 * v + digit_value c) k ds) = foldl (\<lambda>v c. 10 * v + int (digit_value c)) (int k) ds" for k
    by (induction ds arbitrary: k) simp_all
  from this [of 0] show ?thesis by (simp add: digits_value_def digits_int_def)
qed

section \<open>tests/test_parser.cpp\<close>

definition has_header :: "Request \<Rightarrow> string \<Rightarrow> string \<Rightarrow> bool" where
  "has_header req name v \<longleftrightarrow> header req name = Some v"

definition parsed :: "string \<Rightarrow> (Request \<Rightarrow> bool) \<Rightarrow> bool" where
  "parsed raw check = (case parse_request id raw of Inr (Some req) \<Rightarrow> check req | _ \<Rightarrow> False)"

definition test_options_request :: bool where
  "test_options_request \<longleftrightarrow>
     parsed (''OPTIONS rtsp://localhost:8554/stream RTSP/1.0'' @ crlf @ ''CSeq: 1'' @ crlf @
             ''User-Agent: ffplay'' @ crlf @ crlf)
       (\<lambda>req. req_method req = OPTIONS \<and> uri req = ''rtsp://localhost:8554/stream'' \<and> cseq req = 1 \<and>
          has_header req ''User-Agent'' ''ffplay'')"

definition test_describe_request :: bool where
  "test_describe_request \<longleftrightarrow>
     parsed (''DESCRIBE rtsp://192.168.0.10:8554/live RTSP/1.0'' @ crlf @ ''CSeq: 2'' @ crlf @
             ''Accept: application/sdp'' @ crlf @ crlf)
       (\<lambda>req. req_method req = DESCRIBE \<and> uri req = ''rtsp://192.168.0.10:8554/live'' \<and> cseq req = 2 \<and>
          has_header req ''Accept'' ''application/sdp'')"

definition test_setup_request :: bool where
  "test_setup_request \<longleftrightarrow>
     parsed (''SETUP rtsp://localhost:8554/stream/track1 RTSP/1.0'' @ crlf @ ''CSeq: 3'' @ crlf @
             ''Transport: RTP/AVP;unicast;client_port=5000-5001'' @ crlf @ crlf)
       (\<lambda>req. req_method req = SETUP \<and> cseq req = 3 \<and>
          (case header req ''Transport'' of None \<Rightarrow> False
           | Some t \<Rightarrow> find_sub ''client_port=5000-5001'' t \<noteq> None))"

definition test_play_request :: bool where
  "test_play_request \<longleftrightarrow>
     parsed (''PLAY rtsp://localhost:8554/stream RTSP/1.0'' @ crlf @ ''CSeq: 4'' @ crlf @
             ''Session: 12345678'' @ crlf @ ''Range: npt=0.000-'' @ crlf @ crlf)
       (\<lambda>req. req_method req = PLAY \<and> cseq req = 4 \<and> has_header req ''Session'' ''12345678'')"

definition test_teardown_request :: bool where
  "test_teardown_request \<longleftrightarrow>
     parsed (''TEARDOWN rtsp://localhost:8554/stream RTSP/1.0'' @ crlf @ ''CSeq: 5'' @ crlf @
             ''Session: 12345678'' @ crlf @ crlf)
       (\<lambda>req. req_method req = TEARDOWN \<and> cseq req = 5)"

definition test_case_insensitive_header :: bool where
  "test_case_insensitive_header \<longleftrightarrow>
     parsed (''OPTIONS rtsp://localhost:8554/stream RTSP/1.0'' @ crlf @ ''cseq: 10'' @ crlf @
             ''user-agent: VLC'' @ crlf @ crlf)
       (\<lambda>req. cseq req = 10 \<and> header req ''USER-AGENT'' \<noteq> None \<and> header req ''User-Agent'' \<noteq> None)"

definition test_invalid_request :: bool where
  "test_invalid_request \<longleftrightarrow>
     parse_request id [] = Inr None \<and> parse_request id ''INVALID'' = Inr None \<and>
     parse_request id (''GET / HTTP/1.1'' @ crlf @ crlf) = Inr None"

lemma options_request_passes: "test_options_request" by code_simp
lemma describe_request_passes: "test_describe_request" by code_simp
lemma setup_request_passes: "test_setup_request" by code_simp
lemma play_request_passes: "test_play_request" by code_simp
lemma teardown_request_passes: "test_teardown_request" by code_simp
lemma case_insensitive_header_passes: "test_case_insensitive_header" by code_simp
lemma invalid_request_passes: "test_invalid_request" by code_simp

section \<open>tests/test_session.cpp\<close>

text \<open>The harness: a session, the streams it works on, and the responses it has sent.\<close>

record Harness =
  session :: Session
  around :: media
  responses :: "string list"

definition Harness_new :: "32 word \<Rightarrow> Harness" where
  "Harness_new n =
     \<lparr>session = Session_new ''127.0.0.1'' False,
      around = \<lparr>hub = hub_new SourceConfig_default sample_os, heap = (\<lambda>_. None), next_ref = 0,
        host = sample_os\<lparr>rng := \<lambda>_. n\<rparr>\<rparr>,
      responses = []\<rparr>"

text \<open>\<open>send\<close> tells whether the session goes on; an exception would end the test.\<close>

definition send :: "string \<Rightarrow> Harness \<Rightarrow> bool \<times> Harness" where
  "send raw h =
     (case feed id raw (session h) (around h) of
        (out, res, s, m) \<Rightarrow> (res = Inr True, h\<lparr>session := s, around := m, responses := responses h @ out\<rparr>))"

definition status_of :: "string \<Rightarrow> stoi_exn + int" where
  "status_of response = stoi (take 3 (drop 9 response))"

definition contains :: "string \<Rightarrow> string \<Rightarrow> bool" where
  "contains response part \<longleftrightarrow> find_sub part response \<noteq> None"

definition id_in :: "string \<Rightarrow> string" where
  "id_in response =
     (case find_sub ''Session: '' response of
        None \<Rightarrow> []
      | Some pos \<Rightarrow>
          (let rest = drop (pos + 9) response
           in case find_sub crlf rest of None \<Rightarrow> rest | Some e \<Rightarrow> take e rest))"

definition options_req :: "int \<Rightarrow> string" where
  "options_req c = ''OPTIONS rtsp://localhost:8554/stream RTSP/1.0'' @ crlf @ ''CSeq: '' @ show_int c @ crlf @ crlf"

definition setup_req :: "int \<Rightarrow> string \<Rightarrow> string" where
  "setup_req c transport =
     ''SETUP rtsp://localhost:8554/stream/track0 RTSP/1.0'' @ crlf @ ''CSeq: '' @ show_int c @ crlf @
     ''Transport: '' @ transport @ crlf @ crlf"

definition default_transport :: string where
  "default_transport = ''RTP/AVP;unicast;client_port=5000-5001''"

definition with_session :: "string \<Rightarrow> int \<Rightarrow> string \<Rightarrow> string" where
  "with_session m c sid =
     m @ '' rtsp://localhost:8554/stream RTSP/1.0'' @ crlf @ ''CSeq: '' @ show_int c @ crlf @
     ''Session: '' @ sid @ crlf @ crlf"

definition without_session :: "string \<Rightarrow> int \<Rightarrow> string" where
  "without_session m c =
     m @ '' rtsp://localhost:8554/stream RTSP/1.0'' @ crlf @ ''CSeq: '' @ show_int c @ crlf @ crlf"

text \<open>The status of the last response, and the state of the session.\<close>

definition now :: "int \<Rightarrow> State \<Rightarrow> Harness \<Rightarrow> bool" where
  "now status st h \<longleftrightarrow> status_of (last (responses h)) = Inr status \<and> state (session h) = st"

definition test_state_enforcement_in_init :: "32 word \<Rightarrow> bool" where
  "test_state_enforcement_in_init n \<longleftrightarrow>
     (let (ok1, h1) = send (without_session ''PLAY'' 1) (Harness_new n);
          (ok2, h2) = send (without_session ''PAUSE'' 2) h1;
          (ok3, h3) = send (without_session ''TEARDOWN'' 3) h2
      in ok1 \<and> now 455 INIT h1 \<and> ok2 \<and> now 455 INIT h2 \<and> ok3 \<and> now 455 INIT h3)"

definition test_options_describe_keep_state :: "32 word \<Rightarrow> bool" where
  "test_options_describe_keep_state n \<longleftrightarrow>
     (let (ok1, h1) = send (options_req 1) (Harness_new n);
          (ok2, h2) = send (''DESCRIBE rtsp://localhost:8554/stream RTSP/1.0'' @ crlf @ ''CSeq: 2'' @ crlf @
                            ''Accept: application/sdp'' @ crlf @ crlf) h1
      in ok1 \<and> now 200 INIT h1 \<and> ok2 \<and> now 200 INIT h2 \<and>
         contains (last (responses h2)) ''application/sdp'' \<and> contains (last (responses h2)) ''m=video'')"

definition test_setup_transitions_to_ready :: "32 word \<Rightarrow> bool" where
  "test_setup_transitions_to_ready n \<longleftrightarrow>
     (let (ok, h) = send (setup_req 1 default_transport) (Harness_new n)
      in ok \<and> now 200 READY h \<and> contains (last (responses h)) ''client_port=5000-5001'' \<and>
         id_in (last (responses h)) \<noteq> [])"

definition test_setup_transport_errors :: "32 word \<Rightarrow> bool" where
  "test_setup_transport_errors n \<longleftrightarrow>
     (let (ok1, h1) = send (''SETUP rtsp://localhost:8554/stream/track0 RTSP/1.0'' @ crlf @ ''CSeq: 1'' @ crlf @ crlf)
                        (Harness_new n);
          (ok2, h2) = send (setup_req 2 ''RTP/AVP;unicast'') h1;
          (ok3, h3) = send (setup_req 3 ''RTP/AVP;unicast;client_port=abc'') h2
      in ok1 \<and> now 400 INIT h1 \<and> ok2 \<and> now 461 INIT h2 \<and> ok3 \<and> now 461 INIT h3)"

definition test_session_id_mismatch :: "32 word \<Rightarrow> bool" where
  "test_session_id_mismatch n \<longleftrightarrow>
     (let (ok1, h1) = send (setup_req 1 default_transport) (Harness_new n);
          (ok2, h2) = send (without_session ''PLAY'' 2) h1;
          (ok3, h3) = send (with_session ''PLAY'' 3 ''DEADBEEF'') h2;
          (ok4, h4) = send (with_session ''TEARDOWN'' 4 ''DEADBEEF'') h3
      in ok1 \<and> ok2 \<and> now 454 READY h2 \<and> ok3 \<and> now 454 READY h3 \<and> ok4 \<and> now 454 READY h4)"

definition test_teardown_closes_session :: "32 word \<Rightarrow> bool" where
  "test_teardown_closes_session n \<longleftrightarrow>
     (let (ok1, h1) = send (setup_req 1 default_transport) (Harness_new n);
          sid = id_in (last (responses h1));
          (ok2, h2) = send (with_session ''PAUSE'' 2 sid) h1;
          (keep_open, h3) = send (with_session ''TEARDOWN'' 3 sid) h2
      in ok1 \<and> ok2 \<and> now 455 READY h2 \<and> \<not> keep_open \<and> now 200 CLOSED h3)"

definition test_unknown_method :: "32 word \<Rightarrow> bool" where
  "test_unknown_method n \<longleftrightarrow>
     (let (ok, h) = send (without_session ''ANNOUNCE'' 1) (Harness_new n) in ok \<and> now 501 INIT h)"

definition test_get_parameter_keepalive :: "32 word \<Rightarrow> bool" where
  "test_get_parameter_keepalive n \<longleftrightarrow>
     (let (ok1, h1) = send (without_session ''GET_PARAMETER'' 1) (Harness_new n);
          (ok2, h2) = send (setup_req 2 default_transport) h1;
          sid = id_in (last (responses h2));
          (ok3, h3) = send (with_session ''GET_PARAMETER'' 3 sid) h2
      in ok1 \<and> now 200 INIT h1 \<and> ok2 \<and> ok3 \<and> now 200 READY h3 \<and>
         contains (last (responses h3)) (''Session: '' @ sid))"

definition test_fragmented_request :: "32 word \<Rightarrow> bool" where
  "test_fragmented_request n \<longleftrightarrow>
     (let raw = options_req 1;
          (ok1, h1) = send (take 20 raw) (Harness_new n);
          (ok2, h2) = send (drop 20 raw) h1
      in ok1 \<and> responses h1 = [] \<and> ok2 \<and> length (responses h2) = 1 \<and> now 200 INIT h2)"

definition test_pipelined_requests :: "32 word \<Rightarrow> bool" where
  "test_pipelined_requests n \<longleftrightarrow>
     (let (ok, h) = send (options_req 1 @ setup_req 2 default_transport) (Harness_new n)
      in ok \<and> length (responses h) = 2 \<and> status_of (responses h ! 0) = Inr 200 \<and> now 200 READY h)"

definition test_base64 :: bool where
  "test_base64 \<longleftrightarrow>
     (let enc = (\<lambda>s. base64_encode (map (\<lambda>c. word_of_nat (of_char c)) s))
      in map enc [[], ''f'', ''fo'', ''foo'', ''foob'', ''fooba'', ''foobar''] =
         [[], ''Zg=='', ''Zm8='', ''Zm9v'', ''Zm9vYg=='', ''Zm9vYmE='', ''Zm9vYmFy''])"

lemma state_enforcement_in_init_passes: "test_state_enforcement_in_init 7" by code_simp
lemma options_describe_keep_state_passes: "test_options_describe_keep_state 7" by code_simp
lemma setup_transitions_to_ready_passes: "test_setup_transitions_to_ready 7" by code_simp
lemma setup_transport_errors_passes: "test_setup_transport_errors 7" by code_simp
lemma session_id_mismatch_passes: "test_session_id_mismatch 7" by code_simp
lemma teardown_closes_session_passes: "test_teardown_closes_session 7" by code_simp
lemma unknown_method_passes: "test_unknown_method 7" by code_simp
lemma get_parameter_keepalive_passes: "test_get_parameter_keepalive 7" by code_simp
lemma fragmented_request_passes: "test_fragmented_request 7" by code_simp
lemma pipelined_requests_passes: "test_pipelined_requests 7" by code_simp
lemma base64_passes: "test_base64" by code_simp

end
