(* ===== verification/Spec2Isabelle.thy ===== *)
theory Spec2Isabelle
  imports Cli HubRuns Service Viewing Ending UnitTests
begin

text \<open>
  VEDA\_RTSP is a small RTSP server in C++: clients ask for a video over TCP (RTSP), and it is sent
  to them over UDP (RTP).  This development models its code under src/ and proves what the parts and
  the whole promise.

  Parts and how they interact.  The event loop (rtsp/server.cpp) reads bytes from each client and
  feeds them to that client's session (rtsp/session.cpp), which cuts them into requests, parses them
  (rtsp/parser.cpp), runs them through its state machine and answers with strings
  (rtsp/response.cpp, sdp/builder.cpp).  \<open>PLAY\<close> makes a streamer (rtp/streamer.cpp) and subscribes
  it to the hub (media/hub.cpp).  The hub owns one source, a file (media/file_source.cpp) or a camera
  process (camera/source.cpp); its pump thread reads NAL units out of the source
  (media/annexb_reader.cpp) and gives each to every subscriber, which fragments it
  (rtp/h264_fua.cpp), puts RTP headers in front (rtp/packetizer.cpp) and sends the packets
  (net/udp_socket.cpp).

  Theories, in the order in which they build on each other:

    \<^item> Prelude: searching in strings, unsigned subtraction, the named collections \<open>search_simps\<close>,
      \<open>wire_simps\<close> and \<open>state_simps\<close>, the locale \<open>splitter\<close> of incremental cutters, which is
      interpreted by the Annex B reader and by the request cutter, and the locale \<open>simulation\<close>.
    \<^item> Base64 (util/base64.cpp) with an RFC 4648 decoder as reference.
    \<^item> Packetizer (rtp/packetizer.cpp) with an RFC 3550 parser, and Fragmentation (rtp/h264_fua.cpp)
      with an RFC 6184 receiver.  The loop is a partial function, since with an MTU of 2 it does not
      return; that it returns otherwise is a property.
    \<^item> Os: what comes from outside, as oracles indexed by the number of calls made.  Net: the socket
      wrappers.  Streaming: \<open>rtp::Streamer\<close>.
    \<^item> AnnexB: the reader, its refinement to a scan of all the bytes, and streams as an encoder writes
      them.  Sources: the two sources behind the locale \<open>nal_source\<close>, interpreted for each and for the
      dispatch.
    \<^item> Hub: subscribers, broadcast, pump, parameter sets; streamers are shared, so they live in a
      store and are held by reference.  The locale \<open>distribution\<close> is the contract sessions rely on.
    \<^item> HubThreads: the same hub as two threads whose every access to the mutex, the flag, the thread
      handle and the source is a step, with the invariant of all interleavings; HubRuns: its
      properties, and that the steps of Hub are runs of it.
    \<^item> Text (characters, printing, \<open>std::stoi\<close>), Parsing, Response, Sdp: the textual protocols, each
      with the other side's reader or writer.
    \<^item> Session: the state machine with all handlers and the feeding loop; Dialogue: what a client
      sees of it; Playback: that a client which plays a file receives the file.
    \<^item> Server: the event loop with its writes and descriptors, its reachable states and their
      invariants, each an interpretation of the locale \<open>server_invariant\<close>.  Cli: main.cpp.
    \<^item> Keeping: the locales \<open>stream_invariant\<close>, \<open>lasting_invariant\<close> and \<open>frame_invariant\<close>, which lead from
      the few operations of the hub and the streamers that sessions use (their laws) to all reachable
      states of the server and to its end; interpreted by Framing (what a session writes is always a
      sequence of whole messages), Ownership (who owns the UDP sockets) and Viewing.
    \<^item> Audience: who gets datagrams.  Service: the server as a run of an abstract machine over the
      protocol states of its connections, by the locale \<open>simulation\<close>.
    \<^item> Conversation: the requests a client writes, the events in which they arrive and what the server
      makes of them in any reachable state: how \<open>SETUP\<close> is answered, and how \<open>TEARDOWN\<close> ends the
      connection and all that it held.  Viewing: a client that watches a file, from its first request
      to the NAL units it puts together, and one that pauses and goes on.  Ending: what is left of the
      streams when the source ends under them.
    \<^item> UnitTests: the tests under src/tests, run on the model.

  What the lemmas show.  Data on the wire is read back by the other side (round trips for Base64,
  RTP, FU-A, Annex B, SDP, requests, responses, transport headers).  The incremental parts refine
  one-shot ones: the reader is a scan of the stream, the session serves a queue of requests, and
  neither depends on how the bytes arrive.  Invariants: the source is open exactly while the pump
  runs, the pump runs only for somebody, a session has a streamer exactly while it plays, and over
  all reachable states of the server the hub's list is the playing clients and every descriptor is
  open or was closed once; after unsubscribing a streamer is never used again, under any
  interleaving of the two threads, which neither deadlock nor wait for each other without bound; the
  end of the loop releases everything; the UDP sockets open are those of the playing clients, and
  datagrams go nowhere else.  The server as a whole refines a small machine over the protocol states
  of its connections.  End to end, a client that asks for a file over TCP is answered and gets the
  NAL units of the file, in order and with the right timestamps, whatever the other clients did, and
  when it tears its session down nothing of it is left.  Error paths: refused requests, failing
  sends, failing starts, and the places where the code does not do what it means to (an unhandled exception,
  ports kept from a refused request, the wrap of a looping file, a client that stops reading, a
  subscription in the moment the source ends, players who are left without a stream when it does).

  How the code is represented.  Structs and classes are records, enums are datatypes (the states and
  the methods with an instance of \<open>enum\<close>, so that the state table is checked by evaluation), one operation
  is one definition with the state passed explicitly, callbacks are lists of what they are called with, an exception
  is \<open>Inl\<close> of a sum, and a result that C++ returns through a reference is part of the result.  Machine
  integers are words where the code computes with them (RTP fields, headers, Base64) and \<open>int\<close> with a
  range check or \<open>wrap32\<close> where it parses them; \<open>std::size_t\<close> differences that can wrap are \<open>size_sub\<close>.
  The iteration order of \<open>std::unordered_map\<close> is a parameter; properties hold for every order.  Log
  output is left out.

  Bounds.  No fuel is needed: all loops are total by a measure, except the fragmentation loop, which
  is a partial function.  The turns of the event loop are a list of what \<open>epoll_wait\<close> returned, so
  that its end is the end of the list or the stop flag.

  Concurrency.  There are two threads, the event loop and the pump, and they share the hub.  In Hub
  an operation and a turn of the pump loop are one step each, in any order; a turn that is going on
  while the last subscriber leaves is the oracle \<open>in_flight\<close>.  The server and the sessions are built
  on these steps.  In HubThreads the single accesses interleave; theorem \<open>coarse_steps_are_runs\<close>
  relates the two, and \<open>late_subscriber_unserved\<close> shows the one window, inside the end of the pump
  thread, that only the finer grain has.

  Order.  A handler's calls of the send function are recorded with the state in which they were made,
  so that the order of an answer and a subscription can be stated (\<open>play_starts_stream\<close>).  The event
  loop writes the responses of one read after the session has served it, where the code writes each
  as it is made: a write changes nothing that a session looks at, its failures are ignored, and one
  that blocks or kills the process ends the model's turn without a state, so that the outcome of an
  event is the same; what cannot be seen is a turn of the pump between two responses of one read.

  Not modelled: the build, the log output, and the signal handler beyond the flag it
  clears.  A read of the source is a step that always comes back: a camera pipe that blocks for ever
  is outside the model, and with it the joins that would wait for it.  What opening a path gives is
  fixed for a run, so that a file does not change or vanish between two starts.  No scheduling is
  assumed to be fair: what is proved of progress is that the steps a thread has left are bounded.
\<close>

section \<open>From the file to the client\<close>

text \<open>
  C24: what \<open>DESCRIBE\<close> announces is what will be sent.  The client reads a 200 response whose body,
  the whole session description and nothing more, names the payload type of the packets that a
  streamer sends, the clock of its timestamps, and the parameter sets the hub has seen.
\<close>

theorem describe_announces_stream:
  assumes "req_method req = DESCRIBE" and "wf_value (uri req @ ''/'')" and "has_hub s"
    and "length (hub_sps (hub m)) + length (hub_pps (hub m)) < 2 ^ 29"
    and "handle req s m = (resp, sent, s', m')"
  shows "s' = s \<and> m' = m \<and> sent = [] \<and>
    (\<exists>r info. read_reply (resp @ rest) = Some (r, rest) \<and> reply_status r = 200 \<and>
       map_of (reply_fields r) ''CSeq'' = Some (show_int (cseq req)) \<and>
       read_sdp (reply_body r) = Some info \<and>
       word_of_int (info_payload_type info) = st_payload_type (fst (Streamer_new w)) \<and>
       info_clock_rate info = 90000 \<and>
       info_sprop_parameter_sets info = sprop_parameter_sets (hub m))"
proof -
  let ?info = "\<lparr>info_payload_type = 96, info_clock_rate = 90000,
       info_sprop_parameter_sets = sprop_parameter_sets (hub m)\<rparr>"
  have "(response_describe (cseq req) (build ?info) (uri req @ ''/''), [], s, m) = handle req s m"
    using assms(1,3) by (simp add: handle_def method_allowed_def handle_describe_def Let_def)
  from trans [OF this assms(5)]
  have h: "resp = response_describe (cseq req) (build ?info) (uri req @ ''/'')" "sent = []"
    "s' = s" "m' = m" unfolding prod.inject by blast+
  have "length (build ?info) < 2 ^ 31"
    using length_build_default [of "sprop_parameter_sets (hub m)"] length_sprop [of "hub m"] assms(4) by simp
  then have int: "int32 (int (length (build ?info)))" by (simp add: int32_def)
  have reply: "read_reply (resp @ rest) =
     Some (\<lparr>reply_status = 200, reply_reason = ''OK'',
            reply_fields = [(''CSeq'', show_int (cseq req)), (''Content-Type'', ''application/sdp''),
                            (''Content-Base'', uri req @ ''/''),
                            (''Content-Length'', show_int (int (length (build ?info))))],
            reply_body = build ?info\<rparr>, rest)"
    unfolding h(1) renderings using assms(2) int
    by (intro read_render_reply) (simp_all add: wf_fields content_length_present int32_small)
  have "read_sdp (build ?info) = Some ?info"
    using sdp_values [of ?info] sprop_no_cr [of "hub m"]
    by (simp add: read_sdp_def text_lines_build number_show_int int32_def)
  moreover have "st_payload_type (fst (Streamer_new w)) = 96"
    by (simp add: Streamer_new_def Let_def split: prod.split)
  ultimately show ?thesis using reply h by simp
qed

lemma describe_announces_stream_witness:
  "\<exists>resp sent s' m' r info. handle (sample_request DESCRIBE) sample_session sample_media = (resp, sent, s', m') \<and>
     read_reply (resp @ crlf) = Some (r, crlf) \<and> read_sdp (reply_body r) = Some info \<and>
     info_clock_rate info = 90000"
proof -
  obtain resp sent s' m' where
    h: "handle (sample_request DESCRIBE) sample_session sample_media = (resp, sent, s', m')"
    by (metis prod_cases4)
  have 1: "req_method (sample_request DESCRIBE) = DESCRIBE" by (simp add: sample_request_def)
  have "wf_value (''rtsp://h/s'' @ ''/'')" by code_simp
  then have 2: "wf_value (uri (sample_request DESCRIBE) @ ''/'')" by (simp add: sample_request_def)
  have 3: "has_hub sample_session" by (simp add: sample_session_def Session_new_def)
  have 4: "length (hub_sps (hub sample_media)) + length (hub_pps (hub sample_media)) < 2 ^ 29"
    by (simp add: sample_media_def hub_new_def SourceConfig_default_def)
  from describe_announces_stream [OF 1 2 3 4 h, of crlf sample_os] h show ?thesis by blast
qed

end
